(* ===== verification/Prelude.thy ===== *)
theory Prelude
  imports Main "HOL-Library.Sublist" "HOL-Library.List_Lexorder" "HOL-Library.Char_ord"
begin

text \<open>
  The shared vocabulary of the development: the Go values every component uses and the
  facts about them that the component proofs rest on.

  \<^item> A Go \<open>string\<close> is a sequence of bytes; HOL's \<open>string\<close> is a list of 8-bit
    characters, so the two agree byte for byte (\<open>len\<close> is \<open>length\<close>, string order is the
    lexicographic order of bytes).
  \<^item> A Go \<open>map[string]T\<close> whose keys are enumerated is a \<open>'v gomap\<close>: an association
    list kept in strictly ascending key order, so equal maps are equal lists.
  \<^item> A Go \<open>(T, error)\<close> result is \<open>'e + 'a\<close>, \<open>Inl\<close> for the error. Wrapping with
    \<open>fmt.Errorf("...%w", err)\<close> keeps the sentinel \<open>errors.Is\<close> sees, so a model error is
    the sentinel.
  \<^item> The functions of package \<open>strings\<close> the code calls: \<open>Trim\<close>, \<open>TrimSpace\<close>, \<open>Split\<close>,
    \<open>Join\<close>, \<open>Fields\<close>, \<open>CutPrefix\<close>, \<open>CutSuffix\<close>, \<open>LastIndex\<close>, \<open>ReplaceAll\<close>,
    \<open>ToLower\<close>, \<open>EqualFold\<close>. White space is Unicode white space in UTF-8. \<open>ToLower\<close> and
    \<open>EqualFold\<close> fold the ASCII letters only: the code applies them to configuration
    keywords and host names, which are ASCII.
\<close>

section \<open>Collections of rewrite rules\<close>

named_theorems gomap_simps "lookup after an update, a deletion or a fold over a gomap"
named_theorems str_simps "equations of the string functions"
named_theorems res_simps "equations of the result type"

section \<open>Results\<close>

fun rbind :: "'e + 'a \<Rightarrow> ('a \<Rightarrow> 'e + 'b) \<Rightarrow> 'e + 'b" where
  "rbind (Inl e) f = Inl e"
| "rbind (Inr a) f = f a"

fun is_ok :: "'e + 'a \<Rightarrow> bool" where
  "is_ok (Inl e) = False"
| "is_ok (Inr a) = True"

lemma rbind_Inr_iff [res_simps]: "rbind r f = Inr b \<longleftrightarrow> (\<exists>a. r = Inr a \<and> f a = Inr b)"
  by (cases r) auto

lemma rbind_Inl_iff [res_simps]:
  "rbind r f = Inl e \<longleftrightarrow> r = Inl e \<or> (\<exists>a. r = Inr a \<and> f a = Inl e)"
  by (cases r) auto

lemma is_ok_iff [res_simps]: "is_ok r \<longleftrightarrow> (\<exists>a. r = Inr a)"
  by (cases r) auto

section \<open>Go maps with string keys\<close>

type_synonym 'v gomap = "(string \<times> 'v) list"

fun mput :: "string \<Rightarrow> 'v \<Rightarrow> 'v gomap \<Rightarrow> 'v gomap" where
  "mput k v [] = [(k, v)]"
| "mput k v ((k', v') # m) =
     (if k < k' then (k, v) # (k', v') # m
      else if k = k' then (k, v) # m
      else (k', v') # mput k v m)"

definition mdel :: "string \<Rightarrow> 'v gomap \<Rightarrow> 'v gomap" where
  "mdel k m = filter (\<lambda>p. fst p \<noteq> k) m"

definition keys_ok :: "'v gomap \<Rightarrow> bool" where
  "keys_ok m \<longleftrightarrow> sorted_wrt (<) (map fst m)"

lemma keys_ok_Nil [simp]: "keys_ok []"
  by (simp add: keys_ok_def)

lemma keys_ok_Cons: "keys_ok (p # m) \<longleftrightarrow> (\<forall>k \<in> fst ` set m. fst p < k) \<and> keys_ok m"
  by (auto simp: keys_ok_def)

lemma map_of_mput [gomap_simps, simp]: "map_of (mput k v m) = (map_of m)(k \<mapsto> v)"
  by (induction k v m rule: mput.induct) (auto simp: fun_eq_iff)

lemma map_of_mdel [gomap_simps, simp]: "map_of (mdel k m) = (map_of m)(k := None)"
  by (induction m) (auto simp: mdel_def fun_eq_iff)

lemma fst_set_mput [gomap_simps]: "fst ` set (mput k v m) = insert k (fst ` set m)"
  by (induction k v m rule: mput.induct) auto

lemma set_mput_sub: "set (mput k v m) \<subseteq> insert (k, v) (set m)"
  by (induction k v m rule: mput.induct) auto

lemma fst_set_mdel [gomap_simps]: "fst ` set (mdel k m) = fst ` set m - {k}"
  by (auto simp: mdel_def)

lemma keys_ok_mput [simp, intro]: "keys_ok m \<Longrightarrow> keys_ok (mput k v m)"
  by (induction k v m rule: mput.induct) (auto simp: keys_ok_Cons fst_set_mput)

lemma keys_ok_filter: "keys_ok m \<Longrightarrow> keys_ok (filter P m)"
  by (induction m) (auto simp: keys_ok_Cons)

lemma keys_ok_mdel [simp, intro]: "keys_ok m \<Longrightarrow> keys_ok (mdel k m)"
  by (simp add: mdel_def keys_ok_filter)

lemma keys_ok_distinct: "keys_ok m \<Longrightarrow> distinct (map fst m)"
  by (induction m) (auto simp: keys_ok_Cons)

lemma keys_ok_map_of: "keys_ok m \<Longrightarrow> (k, v) \<in> set m \<longleftrightarrow> map_of m k = Some v"
  using keys_ok_distinct map_of_eq_Some_iff by metis

text \<open>Equal Go maps are equal lists: a canonical map is determined by its lookups.\<close>

lemma length_mput:
  "keys_ok m \<Longrightarrow> length (mput k v m) = (if k \<in> fst ` set m then length m else Suc (length m))"
  by (induction k v m rule: mput.induct) (auto simp: keys_ok_Cons)

lemma keys_ok_ext:
  assumes "keys_ok m" and "keys_ok n" and "map_of m = map_of n"
  shows "m = n"
proof -
  have eq: "set m = set n"
    using assms by (auto simp: keys_ok_map_of)
  show ?thesis
  proof (rule map_sorted_distinct_set_unique [where f = fst])
    show "inj_on fst (set m \<union> set n)"
      using keys_ok_distinct [OF assms(1)] by (simp add: eq [symmetric] distinct_map)
    show "sorted (map fst m)" "sorted (map fst n)"
      using assms(1,2) by (auto simp: keys_ok_def strict_sorted_imp_sorted)
    show "distinct (map fst m)" "distinct (map fst n)"
      using assms(1,2) by (auto intro: keys_ok_distinct)
  qed (rule eq)
qed

section \<open>The first element with a property\<close>

text \<open>
  A Go loop that returns a pointer to (or the index of) the first matching element, and the
  update through that pointer.
\<close>

fun find_idx :: "('a \<Rightarrow> bool) \<Rightarrow> 'a list \<Rightarrow> nat option" where
  "find_idx P [] = None"
| "find_idx P (x # xs) = (if P x then Some 0 else map_option Suc (find_idx P xs))"

fun upd_first :: "('a \<Rightarrow> bool) \<Rightarrow> ('a \<Rightarrow> 'a) \<Rightarrow> 'a list \<Rightarrow> 'a list" where
  "upd_first P f [] = []"
| "upd_first P f (x # xs) = (if P x then f x # xs else x # upd_first P f xs)"

lemma find_idx_None: "find_idx P xs = None \<longleftrightarrow> (\<forall>x \<in> set xs. \<not> P x)"
  by (induction xs) auto

lemma find_idx_Some:
  "find_idx P xs = Some i \<Longrightarrow> i < length xs \<and> P (xs ! i) \<and> xs[i := f (xs ! i)] = upd_first P f xs"
  by (induction xs arbitrary: i) (auto split: if_splits)

lemma find_idx_first: "find_idx P xs = Some i \<Longrightarrow> j < i \<Longrightarrow> \<not> P (xs ! j)"
proof (induction xs arbitrary: i j)
  case (Cons x xs)
  then show ?case by (cases j) (auto split: if_splits)
qed simp

lemma find_idx_find: "map_option (\<lambda>i. xs ! i) (find_idx P xs) = find P xs"
  by (induction xs) (auto simp: option.map_comp comp_def)

lemma upd_first_none: "\<forall>x \<in> set xs. \<not> P x \<Longrightarrow> upd_first P f xs = xs"
  by (induction xs) auto

lemma length_upd_first [simp]: "length (upd_first P f xs) = length xs"
  by (induction xs) auto

lemma upd_first_split:
  "x \<in> set xs \<Longrightarrow> P x \<Longrightarrow>
   \<exists>us y vs. xs = us @ y # vs \<and> P y \<and> (\<forall>u \<in> set us. \<not> P u) \<and> upd_first P f xs = us @ f y # vs"
proof (induction xs)
  case (Cons a xs)
  show ?case
  proof (cases "P a")
    case True
    then show ?thesis by (intro exI [of _ "[]"]) auto
  next
    case False
    then obtain us y vs where "xs = us @ y # vs \<and> P y \<and> (\<forall>u \<in> set us. \<not> P u)
        \<and> upd_first P f xs = us @ f y # vs"
      using Cons by auto
    with False show ?thesis by (intro exI [of _ "a # us"]) auto
  qed
qed simp

lemma find_append: "find P (xs @ ys) = (case find P xs of None \<Rightarrow> find P ys | Some x \<Rightarrow> Some x)"
  by (induction xs) auto

lemma find_upd_first_same:
  "\<forall>x \<in> set xs. P x \<longrightarrow> P (f x) \<Longrightarrow> find P (upd_first P f xs) = map_option f (find P xs)"
  by (induction xs) auto

lemma find_upd_first_other:
  "\<forall>x \<in> set xs. P x \<longrightarrow> \<not> Q x \<and> \<not> Q (f x) \<Longrightarrow> find Q (upd_first P f xs) = find Q xs"
  by (induction xs) auto

lemma filter_upd_first_other:
  "\<forall>x \<in> set xs. P x \<longrightarrow> \<not> Q x \<and> \<not> Q (f x) \<Longrightarrow> filter Q (upd_first P f xs) = filter Q xs"
  by (induction xs) auto

lemma set_upd_first: "y \<in> set (upd_first P f xs) \<Longrightarrow> y \<in> set xs \<or> (\<exists>x \<in> set xs. P x \<and> y = f x)"
  by (induction xs) (auto split: if_splits)

lemma upd_first_id: "\<forall>x. find P xs = Some x \<longrightarrow> f x = x \<Longrightarrow> upd_first P f xs = xs"
  by (induction xs) auto

lemma find_Some_prop: "find P xs = Some x \<Longrightarrow> x \<in> set xs \<and> P x"
  by (induction xs) (auto split: if_splits)

lemma find_distinct:
  "distinct (map g (filter R xs)) \<Longrightarrow> x \<in> set xs \<Longrightarrow> R x \<Longrightarrow> find (\<lambda>y. R y \<and> g y = g x) xs = Some x"
proof (induction xs)
  case (Cons a xs)
  then show ?case by (cases "a = x") (auto simp: image_iff split: if_splits)
qed simp

section \<open>64-bit integers\<close>

text \<open>What an \<open>int64\<close> holds after an operation whose exact result is the argument.\<close>

definition int64 :: "int \<Rightarrow> int" where
  "int64 x = (x + 2 ^ 63) mod 2 ^ 64 - 2 ^ 63"

lemma int64_id: "- (2 ^ 63) \<le> x \<Longrightarrow> x < 2 ^ 63 \<Longrightarrow> int64 x = x"
  by (simp add: int64_def)

lemma int64_wrap: "2 ^ 63 \<le> x \<Longrightarrow> x < 3 * 2 ^ 63 \<Longrightarrow> int64 x = x - 2 ^ 64"
proof -
  assume "2 ^ 63 \<le> x" "x < 3 * 2 ^ 63"
  then have "(x + 2 ^ 63 - 2 ^ 64) mod 2 ^ 64 = x + 2 ^ 63 - 2 ^ 64"
    by (intro mod_pos_pos_trivial) simp_all
  then have "(x + 2 ^ 63) mod 2 ^ 64 = x + 2 ^ 63 - 2 ^ 64" by (simp only: minus_mod_self2)
  then show ?thesis by (simp add: int64_def)
qed

end
