(* ===== verification/GoStrings.thy ===== *)
theory GoStrings
  imports Prelude
begin

text \<open>
  The functions of Go's package \<open>strings\<close> that the program calls, on byte strings, and the
  facts the component theories share about them: splitting and joining at a separator,
  trimming white space, cutting prefixes and suffixes, the ASCII case fold and
  \<open>ReplaceAll\<close>.
\<close>

section \<open>Cutting\<close>

text \<open>\<open>strings.CutPrefix\<close> and \<open>strings.CutSuffix\<close>: \<open>None\<close> is the result \<open>ok = false\<close>.\<close>

fun cut_prefix :: "string \<Rightarrow> string \<Rightarrow> string option" where
  "cut_prefix [] s = Some s"
| "cut_prefix (p # ps) [] = None"
| "cut_prefix (p # ps) (x # xs) = (if p = x then cut_prefix ps xs else None)"

definition cut_suffix :: "string \<Rightarrow> string \<Rightarrow> string option" where
  "cut_suffix suf s = map_option rev (cut_prefix (rev suf) (rev s))"

definition has_prefix :: "string \<Rightarrow> string \<Rightarrow> bool" where
  "has_prefix p s \<longleftrightarrow> cut_prefix p s \<noteq> None"

definition has_suffix :: "string \<Rightarrow> string \<Rightarrow> bool" where
  "has_suffix suf s \<longleftrightarrow> cut_suffix suf s \<noteq> None"

definition trim_suffix :: "string \<Rightarrow> string \<Rightarrow> string" where
  "trim_suffix suf s = (case cut_suffix suf s of None \<Rightarrow> s | Some r \<Rightarrow> r)"

definition trim_prefix :: "string \<Rightarrow> string \<Rightarrow> string" where
  "trim_prefix p s = (case cut_prefix p s of None \<Rightarrow> s | Some r \<Rightarrow> r)"

lemma cut_prefix_Some_iff [str_simps]: "cut_prefix p s = Some r \<longleftrightarrow> s = p @ r"
  by (induction p s rule: cut_prefix.induct) auto

lemma cut_prefix_append [simp]: "cut_prefix p (p @ r) = Some r"
  by (simp add: cut_prefix_Some_iff)

lemma case_cut_prefix:
  "(case cut_prefix p s of None \<Rightarrow> False | Some r \<Rightarrow> Q r) \<longleftrightarrow> (\<exists>r. s = p @ r \<and> Q r)"
  by (cases "cut_prefix p s") (auto simp: cut_prefix_Some_iff)

lemma cut_suffix_Some_iff [str_simps]: "cut_suffix suf s = Some r \<longleftrightarrow> s = r @ suf"
proof -
  have "cut_suffix suf s = Some r \<longleftrightarrow> cut_prefix (rev suf) (rev s) = Some (rev r)"
    by (auto simp: cut_suffix_def)
  also have "\<dots> \<longleftrightarrow> rev s = rev suf @ rev r" by (simp add: cut_prefix_Some_iff)
  also have "\<dots> \<longleftrightarrow> s = r @ suf" by (metis rev_append rev_rev_ident)
  finally show ?thesis .
qed

lemma cut_suffix_append [simp]: "cut_suffix suf (r @ suf) = Some r"
  by (simp add: cut_suffix_Some_iff)

lemma has_prefix_iff [str_simps]: "has_prefix p s \<longleftrightarrow> (\<exists>r. s = p @ r)"
  unfolding has_prefix_def by (metis cut_prefix_Some_iff not_Some_eq)

lemma has_suffix_iff [str_simps]: "has_suffix suf s \<longleftrightarrow> (\<exists>r. s = r @ suf)"
  unfolding has_suffix_def by (metis cut_suffix_Some_iff not_Some_eq)

section \<open>Splitting at a byte and joining\<close>

text \<open>\<open>strings.Split(s, sep)\<close> for a separator of one byte: never an empty list.\<close>

fun split_ch :: "char \<Rightarrow> string \<Rightarrow> string list" where
  "split_ch c [] = [[]]"
| "split_ch c (x # xs) =
     (if x = c then [] # split_ch c xs
      else case split_ch c xs of [] \<Rightarrow> [[x]] | p # ps \<Rightarrow> (x # p) # ps)"

text \<open>\<open>strings.Join(ss, sep)\<close>.\<close>

fun join_str :: "string \<Rightarrow> string list \<Rightarrow> string" where
  "join_str sep [] = []"
| "join_str sep [s] = s"
| "join_str sep (s # t # ss) = s @ sep @ join_str sep (t # ss)"

lemma split_ch_not_Nil [simp]: "split_ch c s \<noteq> []"
  by (induction s) (auto split: list.splits)

lemma join_split_ch [simp]: "join_str [c] (split_ch c s) = s"
proof (induction s)
  case Nil
  then show ?case by simp
next
  case (Cons x s)
  then show ?case
    by (cases "split_ch c s" rule: list.exhaust; cases "tl (split_ch c s)") auto
qed

lemma split_ch_no_sep: "c \<notin> set s \<Longrightarrow> split_ch c s = [s]"
  by (induction s) auto

lemma split_ch_append: "c \<notin> set s \<Longrightarrow> split_ch c (s @ c # t) = s # split_ch c t"
  by (induction s) auto

lemma split_ch_append_sep: "split_ch c (s @ c # t) = split_ch c s @ split_ch c t"
proof (induction s)
  case Nil
  then show ?case by simp
next
  case (Cons x s)
  obtain p ps where "split_ch c s = p # ps" by (metis split_ch_not_Nil neq_Nil_conv)
  with Cons show ?case by simp
qed

lemma split_join: "ss \<noteq> [] \<Longrightarrow> \<forall>s \<in> set ss. c \<notin> set s \<Longrightarrow> split_ch c (join_str [c] ss) = ss"
  by (induction "[c]" ss rule: join_str.induct) (auto simp: split_ch_no_sep split_ch_append)

lemma set_split_ch: "s' \<in> set (split_ch c s) \<Longrightarrow> c \<notin> set s' \<and> set s' \<subseteq> set s"
proof (induction s arbitrary: s')
  case Nil
  then show ?case by simp
next
  case (Cons x s)
  show ?case
  proof (cases "x = c")
    case True
    then show ?thesis using Cons by auto
  next
    case False
    obtain p ps where ps: "split_ch c s = p # ps"
      by (metis split_ch_not_Nil neq_Nil_conv)
    then have "s' = x # p \<or> s' \<in> set ps" using Cons.prems False by auto
    then show ?thesis using Cons.IH [of p] Cons.IH [of s'] ps False by auto
  qed
qed

lemma split_ch_single_iff: "split_ch c s = [t] \<longleftrightarrow> t = s \<and> c \<notin> set s"
  by (metis join_split_ch join_str.simps(2) list.set_intros(1) set_split_ch split_ch_no_sep)

lemma split_ch_pair_iff:
  "split_ch c s = [a, b] \<longleftrightarrow> s = a @ c # b \<and> c \<notin> set a \<and> c \<notin> set b"
proof
  assume eq: "split_ch c s = [a, b]"
  then have "s = join_str [c] [a, b]" by (metis join_split_ch)
  moreover have "c \<notin> set a \<and> c \<notin> set b"
    using eq set_split_ch [of a c s] set_split_ch [of b c s] by simp
  ultimately show "s = a @ c # b \<and> c \<notin> set a \<and> c \<notin> set b" by simp
next
  assume "s = a @ c # b \<and> c \<notin> set a \<and> c \<notin> set b"
  then show "split_ch c s = [a, b]" by (simp add: split_ch_append split_ch_no_sep)
qed

section \<open>Trimming a byte\<close>

text \<open>\<open>strings.Trim(s, "c")\<close>: every leading and trailing occurrence of one byte.\<close>

definition trim_ch :: "char \<Rightarrow> string \<Rightarrow> string" where
  "trim_ch c s = rev (dropWhile (\<lambda>x. x = c) (rev (dropWhile (\<lambda>x. x = c) s)))"

lemma dropWhile_hd_id: "s = [] \<or> \<not> P (hd s) \<Longrightarrow> dropWhile P s = s"
  by (cases s) auto

lemma trim_ch_id: "s = [] \<or> hd s \<noteq> c \<and> last s \<noteq> c \<Longrightarrow> trim_ch c s = s"
  by (auto simp: trim_ch_def dropWhile_hd_id hd_rev)

lemma hd_dropWhile_neq: "dropWhile (\<lambda>x. x = c) s \<noteq> [] \<Longrightarrow> hd (dropWhile (\<lambda>x. x = c) s) \<noteq> c"
  by (rule hd_dropWhile [of "\<lambda>x. x = c"])

lemma trim_ch_last: "trim_ch c s \<noteq> [] \<Longrightarrow> last (trim_ch c s) \<noteq> c"
  unfolding trim_ch_def by (metis hd_dropWhile_neq hd_rev rev_is_Nil_conv rev_rev_ident)

lemma dropWhile_rev_hd:
  "rev (dropWhile P (rev s)) \<noteq> [] \<Longrightarrow> hd (rev (dropWhile P (rev s))) = hd s"
  by (metis append_is_Nil_conv hd_append2 rev_append rev_is_Nil_conv rev_rev_ident
      takeWhile_dropWhile_id)

lemma trim_ch_hd: "trim_ch c s \<noteq> [] \<Longrightarrow> hd (trim_ch c s) \<noteq> c"
proof -
  assume ne: "trim_ch c s \<noteq> []"
  let ?t = "dropWhile (\<lambda>x. x = c) s"
  have "hd (trim_ch c s) = hd ?t"
    using ne unfolding trim_ch_def by (rule dropWhile_rev_hd)
  moreover have "?t \<noteq> []" using ne unfolding trim_ch_def by (metis dropWhile.simps(1) rev.simps(1))
  ultimately show ?thesis using hd_dropWhile_neq by metis
qed

lemma trim_ch_idem [simp]: "trim_ch c (trim_ch c s) = trim_ch c s"
  using trim_ch_hd trim_ch_last trim_ch_id by blast

section \<open>White space\<close>

text \<open>
  \<open>unicode.IsSpace\<close> in UTF-8. The first byte of each encoding is ASCII or a lead byte, so
  scanning byte by byte finds exactly the white space runes of a string.
\<close>

definition space_encodings :: "string list" where
  "space_encodings =
     [[CHR 0x09], [CHR 0x0A], [CHR 0x0B], [CHR 0x0C], [CHR 0x0D], [CHR 0x20],
      [CHR 0xC2, CHR 0x85], [CHR 0xC2, CHR 0xA0], [CHR 0xE1, CHR 0x9A, CHR 0x80],
      [CHR 0xE2, CHR 0x80, CHR 0x80], [CHR 0xE2, CHR 0x80, CHR 0x81],
      [CHR 0xE2, CHR 0x80, CHR 0x82], [CHR 0xE2, CHR 0x80, CHR 0x83],
      [CHR 0xE2, CHR 0x80, CHR 0x84], [CHR 0xE2, CHR 0x80, CHR 0x85],
      [CHR 0xE2, CHR 0x80, CHR 0x86], [CHR 0xE2, CHR 0x80, CHR 0x87],
      [CHR 0xE2, CHR 0x80, CHR 0x88], [CHR 0xE2, CHR 0x80, CHR 0x89],
      [CHR 0xE2, CHR 0x80, CHR 0x8A], [CHR 0xE2, CHR 0x80, CHR 0xA8],
      [CHR 0xE2, CHR 0x80, CHR 0xA9], [CHR 0xE2, CHR 0x80, CHR 0xAF],
      [CHR 0xE2, CHR 0x81, CHR 0x9F], [CHR 0xE3, CHR 0x80, CHR 0x80]]"

fun first_cut :: "string list \<Rightarrow> string \<Rightarrow> string option" where
  "first_cut [] s = None"
| "first_cut (e # es) s =
     (case cut_prefix e s of Some r \<Rightarrow> Some r | None \<Rightarrow> first_cut es s)"

lemma first_cut_Some: "first_cut es s = Some r \<Longrightarrow> \<exists>e \<in> set es. s = e @ r"
  by (induction es) (auto simp: cut_prefix_Some_iff split: option.splits)

lemma first_cut_None: "first_cut es s = None \<longleftrightarrow> (\<forall>e \<in> set es. \<nexists>r. s = e @ r)"
  by (induction es) (auto simp: cut_prefix_Some_iff split: option.splits
      dest: cut_prefix_Some_iff [THEN iffD2])

definition cut_space :: "string \<Rightarrow> string option" where
  "cut_space s = first_cut space_encodings s"

definition cut_space_rev :: "string \<Rightarrow> string option" where
  "cut_space_rev s = first_cut (map rev space_encodings) s"

lemma space_encodings_nonempty: "e \<in> set space_encodings \<Longrightarrow> e \<noteq> []"
  by (auto simp: space_encodings_def)

lemma cut_space_less: "cut_space s = Some r \<Longrightarrow> length r < length s"
  unfolding cut_space_def using first_cut_Some space_encodings_nonempty by fastforce

lemma cut_space_rev_less: "cut_space_rev s = Some r \<Longrightarrow> length r < length s"
  unfolding cut_space_rev_def using first_cut_Some space_encodings_nonempty by fastforce

function trim_left :: "string \<Rightarrow> string" where
  "trim_left s = (case cut_space s of Some r \<Rightarrow> trim_left r | None \<Rightarrow> s)"
  by pat_completeness auto
termination
  by (relation "measure length") (auto simp: cut_space_less)

function trim_left_rev :: "string \<Rightarrow> string" where
  "trim_left_rev s = (case cut_space_rev s of Some r \<Rightarrow> trim_left_rev r | None \<Rightarrow> s)"
  by pat_completeness auto
termination
  by (relation "measure length") (auto simp: cut_space_rev_less)

declare trim_left.simps [simp del] trim_left_rev.simps [simp del]

definition trim_space :: "string \<Rightarrow> string" where
  "trim_space s = rev (trim_left_rev (rev (trim_left s)))"

text \<open>\<open>strings.Fields\<close>: the maximal runs of bytes between white space.\<close>

function str_fields_from :: "string \<Rightarrow> string \<Rightarrow> string list" where
  "str_fields_from cur s =
     (case cut_space s of
        Some r \<Rightarrow> (if cur = [] then str_fields_from [] r else rev cur # str_fields_from [] r)
      | None \<Rightarrow>
          (case s of
             [] \<Rightarrow> (if cur = [] then [] else [rev cur])
           | x # xs \<Rightarrow> str_fields_from (x # cur) xs))"
  by pat_completeness auto
termination
  by (relation "measure (\<lambda>(cur, s). length s)") (auto simp: cut_space_less)

declare str_fields_from.simps [simp del]

definition str_fields :: "string \<Rightarrow> string list" where
  "str_fields s = str_fields_from [] s"

lemma cut_space_Nil [simp]: "cut_space [] = None"
  by (simp add: cut_space_def first_cut_None space_encodings_def)

lemma cut_space_rev_Nil [simp]: "cut_space_rev [] = None"
  by (simp add: cut_space_rev_def first_cut_None space_encodings_def)

lemma trim_left_Nil [simp]: "trim_left [] = []"
  by (subst trim_left.simps) simp

lemma trim_left_rev_Nil [simp]: "trim_left_rev [] = []"
  by (subst trim_left_rev.simps) simp

text \<open>A string that neither starts nor ends with white space is its own trimming.\<close>

definition no_edge_space :: "string \<Rightarrow> bool" where
  "no_edge_space s \<longleftrightarrow> cut_space s = None \<and> cut_space_rev (rev s) = None"

lemma trim_left_id: "cut_space s = None \<Longrightarrow> trim_left s = s"
  by (subst trim_left.simps) simp

lemma trim_left_rev_id: "cut_space_rev s = None \<Longrightarrow> trim_left_rev s = s"
  by (subst trim_left_rev.simps) simp

lemma trim_space_id: "no_edge_space s \<Longrightarrow> trim_space s = s"
  by (simp add: no_edge_space_def trim_space_def trim_left_id trim_left_rev_id)

lemma trim_left_no_space: "cut_space (trim_left s) = None"
proof (induction s rule: trim_left.induct)
  case (1 s)
  then show ?case by (subst trim_left.simps) (auto split: option.splits)
qed

lemma trim_left_rev_no_space: "cut_space_rev (trim_left_rev s) = None"
proof (induction s rule: trim_left_rev.induct)
  case (1 s)
  then show ?case by (subst trim_left_rev.simps) (auto split: option.splits)
qed

lemma trim_left_suffix: "\<exists>p. s = p @ trim_left s"
proof (induction s rule: trim_left.induct)
  case (1 s)
  show ?case
  proof (cases "cut_space s")
    case None
    then show ?thesis by (simp add: trim_left_id)
  next
    case (Some r)
    then obtain e where "s = e @ r" unfolding cut_space_def using first_cut_Some by blast
    moreover obtain p where "r = p @ trim_left r" using 1 Some by blast
    moreover have "trim_left s = trim_left r" using Some by (subst trim_left.simps) simp
    ultimately show ?thesis by (metis append.assoc)
  qed
qed

lemma trim_left_rev_suffix: "\<exists>p. s = p @ trim_left_rev s"
proof (induction s rule: trim_left_rev.induct)
  case (1 s)
  show ?case
  proof (cases "cut_space_rev s")
    case None
    then show ?thesis by (simp add: trim_left_rev_id)
  next
    case (Some r)
    then obtain e where "s = e @ r" unfolding cut_space_rev_def using first_cut_Some by blast
    moreover obtain p where "r = p @ trim_left_rev r" using 1 Some by blast
    moreover have "trim_left_rev s = trim_left_rev r" using Some by (subst trim_left_rev.simps) simp
    ultimately show ?thesis by (metis append.assoc)
  qed
qed

section \<open>Folding case and replacing\<close>

definition lower_table :: "(char \<times> char) list" where
  "lower_table = zip ''ABCDEFGHIJKLMNOPQRSTUVWXYZ'' ''abcdefghijklmnopqrstuvwxyz''"

definition ascii_lower :: "char \<Rightarrow> char" where
  "ascii_lower c = (case map_of lower_table c of None \<Rightarrow> c | Some l \<Rightarrow> l)"

definition to_lower :: "string \<Rightarrow> string" where
  "to_lower s = map ascii_lower s"

definition equal_fold :: "string \<Rightarrow> string \<Rightarrow> bool" where
  "equal_fold s t \<longleftrightarrow> to_lower s = to_lower t"

lemma equal_fold_refl [simp]: "equal_fold s s"
  by (simp add: equal_fold_def)

lemma equal_fold_sym: "equal_fold s t \<longleftrightarrow> equal_fold t s"
  by (auto simp: equal_fold_def)

lemma equal_fold_trans: "equal_fold s t \<Longrightarrow> equal_fold t u \<Longrightarrow> equal_fold s u"
  by (simp add: equal_fold_def)

text \<open>\<open>strings.ReplaceAll(s, old, new)\<close> for a non-empty \<open>old\<close>.\<close>

function replace_all :: "string \<Rightarrow> string \<Rightarrow> string \<Rightarrow> string" where
  "replace_all old new [] = []"
| "replace_all old new (x # xs) =
     (case cut_prefix old (x # xs) of
        None \<Rightarrow> x # replace_all old new xs
      | Some r \<Rightarrow> (if old = [] then x # xs else new @ replace_all old new r))"
  by pat_completeness auto
termination
  by (relation "measure (\<lambda>(old, new, s). length s)") (auto simp: cut_prefix_Some_iff Cons_eq_append_conv)

text \<open>\<open>strings.LastIndex(s, "c")\<close> as the two parts around the last occurrence.\<close>

fun split_last :: "char \<Rightarrow> string \<Rightarrow> (string \<times> string) option" where
  "split_last c [] = None"
| "split_last c (x # xs) =
     (case split_last c xs of
        Some (a, b) \<Rightarrow> Some (x # a, b)
      | None \<Rightarrow> (if x = c then Some ([], xs) else None))"

lemma split_last_None: "split_last c s = None \<longleftrightarrow> c \<notin> set s"
  by (induction s) (auto split: option.splits)

lemma split_last_Some: "split_last c s = Some (a, b) \<longleftrightarrow> s = a @ c # b \<and> c \<notin> set b"
proof (induction s arbitrary: a)
  case Nil
  then show ?case by simp
next
  case (Cons x s)
  show ?case
  proof (cases "split_last c s")
    case None
    then have "c \<notin> set s" by (simp add: split_last_None)
    with None show ?thesis by (cases a) auto
  next
    case (Some q)
    obtain a' b' where q: "q = (a', b')" by force
    with Some have "c \<in> set s" by (metis split_last_None option.distinct(1))
    with Some q show ?thesis using Cons.IH [of "tl a"] by (cases a) auto
  qed
qed

section \<open>Decimal numbers\<close>

text \<open>The text \<open>fmt\<close> prints for \<open>%d\<close>.\<close>

fun show_nat :: "nat \<Rightarrow> string" where
  "show_nat n = (if n < 10 then [char_of (48 + n)] else show_nat (n div 10) @ [char_of (48 + n mod 10)])"

declare show_nat.simps [simp del]

lemma show_nat_not_Nil [simp]: "show_nat n \<noteq> []"
  by (subst show_nat.simps) simp

definition show_int :: "int \<Rightarrow> string" where
  "show_int i = (if i < 0 then ''-'' @ show_nat (nat (- i)) else show_nat (nat i))"

definition digit :: "char \<Rightarrow> bool" where
  "digit c \<longleftrightarrow> CHR ''0'' \<le> c \<and> c \<le> CHR ''9''"

lemma digit_char_of: "(n :: nat) < 10 \<Longrightarrow> digit (char_of (48 + n))"
  unfolding digit_def less_eq_char_def by simp

lemma of_char_char_of_digit: "(n :: nat) < 10 \<Longrightarrow> of_char (char_of (48 + n)) = 48 + n"
  by simp

lemma digits_show_nat: "list_all digit (show_nat n)"
proof (induction n rule: show_nat.induct)
  case (1 n)
  show ?case
  proof (cases "n < 10")
    case True
    then show ?thesis by (subst show_nat.simps) (simp add: digit_char_of)
  next
    case False
    then show ?thesis using 1 by (subst show_nat.simps) (simp add: digit_char_of)
  qed
qed

text \<open>Reading digits from the left undoes the printing.\<close>

definition read_nat :: "string \<Rightarrow> nat" where
  "read_nat s = foldl (\<lambda>n c. n * 10 + (of_char c - 48)) 0 s"

lemma read_show_nat [simp]: "read_nat (show_nat n) = n"
proof (induction n rule: show_nat.induct)
  case (1 n)
  show ?case
  proof (cases "n < 10")
    case True
    then show ?thesis by (subst show_nat.simps) (simp add: read_nat_def of_char_char_of_digit)
  next
    case False
    then have "read_nat (show_nat (n div 10)) = n div 10" using 1 by simp
    then show ?thesis using False
      by (subst show_nat.simps) (simp add: read_nat_def of_char_char_of_digit)
  qed
qed

lemma show_nat_inj: "show_nat m = show_nat n \<longleftrightarrow> m = n"
  by (metis read_show_nat)

section \<open>Paths\<close>

text \<open>\<open>filepath.Clean\<close> and \<open>filepath.Join\<close> on Unix.\<close>

fun clean_parts :: "bool \<Rightarrow> string list \<Rightarrow> string list \<Rightarrow> string list" where
  "clean_parts rooted out [] = rev out"
| "clean_parts rooted out (p # ps) =
     (if p = [] \<or> p = ''.'' then clean_parts rooted out ps
      else if p = ''..'' then
        (case out of
           [] \<Rightarrow> clean_parts rooted (if rooted then [] else [p]) ps
         | o1 # os \<Rightarrow> if o1 = ''..'' then clean_parts rooted (p # out) ps else clean_parts rooted os ps)
      else clean_parts rooted (p # out) ps)"

definition path_clean :: "string \<Rightarrow> string" where
  "path_clean s =
     (if s = [] then ''.''
      else let rooted = (hd s = CHR ''/'');
               body = join_str ''/'' (clean_parts rooted [] (split_ch (CHR ''/'') s))
           in if rooted then CHR ''/'' # body else if body = [] then ''.'' else body)"

definition path_join :: "string \<Rightarrow> string \<Rightarrow> string" where
  "path_join a b =
     (if a = [] \<and> b = [] then [] else if a = [] then path_clean b
      else if b = [] then path_clean a else path_clean (a @ CHR ''/'' # b))"

end
