(* ===== verification/KVPath.thy ===== *)
theory KVPath
  imports GoStrings
begin

text \<open>
  Package \<open>internal/kvpath\<close>: the grammar of a path relative to the user's KV root
  (\<open>kvpath.go\<close>) and the policy deciding which of those paths the user may write
  (\<open>editable.go\<close>). An \<open>error\<close> result is an option (\<open>None\<close> is nil), a \<open>(string, error)\<close>
  result a sum; a wrapped error is its sentinel.
\<close>

section \<open>The grammar\<close>

datatype kv_error =
  ErrInvalidName | ErrNotEditable | ErrManaged | ErrRootDepth | ErrRootSeparator | ErrSecretDepth

definition validate_name :: "string \<Rightarrow> kv_error option" where
  "validate_name name =
     (if name = [] \<or> name = ''.'' \<or> name = ''..'' then Some ErrInvalidName
      else if CHR ''/'' \<in> set name \<or> CHR 0x00 \<in> set name then Some ErrInvalidName
      else None)"

fun validate_segments :: "string list \<Rightarrow> kv_error option" where
  "validate_segments [] = None"
| "validate_segments (seg # segs) =
     (case validate_name seg of Some e \<Rightarrow> Some e | None \<Rightarrow> validate_segments segs)"

definition clean :: "string \<Rightarrow> kv_error + string" where
  "clean p0 =
     (let p = trim_ch (CHR ''/'') p0 in
      if p = [] then Inr []
      else case validate_segments (split_ch (CHR ''/'') p) of
             Some e \<Rightarrow> Inl e
           | None \<Rightarrow> Inr p)"

text \<open>What the grammar promises: a canonical path is the root or a list of plain names.\<close>

definition plain_name :: "string \<Rightarrow> bool" where
  "plain_name n \<longleftrightarrow> n \<notin> {[], ''.'', ''..''} \<and> CHR ''/'' \<notin> set n \<and> CHR 0x00 \<notin> set n"

definition canonical :: "string \<Rightarrow> bool" where
  "canonical p \<longleftrightarrow> p = [] \<or> list_all plain_name (split_ch (CHR ''/'') p)"

lemma validate_name_None [simp]: "validate_name n = None \<longleftrightarrow> plain_name n"
  by (simp add: validate_name_def plain_name_def)

lemma validate_name_Some: "validate_name n = Some e \<longleftrightarrow> \<not> plain_name n \<and> e = ErrInvalidName"
  by (auto simp: validate_name_def plain_name_def)

lemma validate_segments_eq:
  "validate_segments ss = (if list_all plain_name ss then None else Some ErrInvalidName)"
  by (induction ss) (auto split: option.splits simp: validate_name_Some)

lemma canonical_edges:
  assumes "canonical p" "p \<noteq> []"
  shows "hd p \<noteq> CHR ''/'' \<and> last p \<noteq> CHR ''/''"
proof -
  have segs: "list_all plain_name (split_ch (CHR ''/'') p)"
    using assms by (simp add: canonical_def)
  have "hd p \<noteq> CHR ''/''"
  proof
    assume "hd p = CHR ''/''"
    then obtain q where "p = CHR ''/'' # q" using assms(2) by (cases p) auto
    then show False using segs by (simp add: plain_name_def)
  qed
  moreover have "last p \<noteq> CHR ''/''"
  proof
    assume "last p = CHR ''/''"
    then obtain q where p: "p = q @ [CHR ''/'']" using assms(2) by (metis append_butlast_last_id)
    show False using segs unfolding p split_ch_append_sep by (simp add: plain_name_def)
  qed
  ultimately show ?thesis by simp
qed

lemma canonical_trim [simp]: "canonical p \<Longrightarrow> trim_ch (CHR ''/'') p = p"
  using canonical_edges trim_ch_id by blast

lemma canonical_Nil [simp]: "canonical []"
  by (simp add: canonical_def)

lemma clean_cases:
  "clean p = (if canonical (trim_ch (CHR ''/'') p) then Inr (trim_ch (CHR ''/'') p) else Inl ErrInvalidName)"
  by (simp add: clean_def Let_def canonical_def validate_segments_eq)

lemma clean_Inr: "clean p = Inr q \<longleftrightarrow> q = trim_ch (CHR ''/'') p \<and> canonical q"
  by (cases "canonical (trim_ch (CHR ''/'') p)") (simp_all add: clean_cases, blast+)

lemma clean_Inl: "clean p = Inl e \<longleftrightarrow> e = ErrInvalidName \<and> \<not> canonical (trim_ch (CHR ''/'') p)"
  by (cases "canonical (trim_ch (CHR ''/'') p)") (simp_all add: clean_cases, blast+)

lemma clean_canonical_id: "canonical p \<Longrightarrow> clean p = Inr p"
  by (simp add: clean_Inr)

lemma clean_Inr_canonical: "clean p = Inr q \<Longrightarrow> canonical q"
  by (auto simp: clean_Inr)

lemma clean_idem: "clean p = Inr q \<Longrightarrow> clean q = Inr q"
  by (auto simp: clean_Inr)

section \<open>The edit policy\<close>

record edit_policy =
  ep_roots :: "string list"
  ep_managed :: "string set"

definition clean_editable_root :: "string \<Rightarrow> kv_error + string" where
  "clean_editable_root rel =
     (case clean rel of
        Inl e \<Rightarrow> Inl e
      | Inr c \<Rightarrow>
          (if c = [] then Inl ErrNotEditable
           else if CHR ''/'' \<in> set c then Inl ErrRootDepth
           else if CHR 0x5C \<in> set c then Inl ErrRootSeparator
           else Inr c))"

fun collect_roots :: "string list \<Rightarrow> string set \<Rightarrow> string list \<Rightarrow> string list" where
  "collect_roots [] seen acc = acc"
| "collect_roots (raw # rs) seen acc =
     (case clean_editable_root raw of
        Inl e \<Rightarrow> collect_roots rs seen acc
      | Inr c \<Rightarrow>
          (if c \<in> seen then collect_roots rs seen acc
           else collect_roots rs (insert c seen) (acc @ [c])))"

fun collect_managed :: "string list \<Rightarrow> string set \<Rightarrow> string set" where
  "collect_managed [] ms = ms"
| "collect_managed (raw # rs) ms =
     (case clean raw of
        Inl e \<Rightarrow> collect_managed rs ms
      | Inr c \<Rightarrow> (if c = [] then collect_managed rs ms else collect_managed rs (insert c ms)))"

definition new_edit_policy :: "string list \<Rightarrow> string list \<Rightarrow> edit_policy" where
  "new_edit_policy roots managed =
     \<lparr>ep_roots = sort (collect_roots roots {} []), ep_managed = collect_managed managed {}\<rparr>"

definition managed_path :: "edit_policy \<Rightarrow> string \<Rightarrow> bool" where
  "managed_path p rel = (case clean rel of Inl e \<Rightarrow> False | Inr c \<Rightarrow> c \<in> ep_managed p)"

definition enabled :: "edit_policy \<Rightarrow> bool" where
  "enabled p \<longleftrightarrow> length (ep_roots p) > 0"

definition in_root :: "edit_policy \<Rightarrow> string \<Rightarrow> bool" where
  "in_root p c = list_ex (\<lambda>root. case cut_prefix (root @ ''/'') c of
       None \<Rightarrow> False | Some rest \<Rightarrow> CHR ''/'' \<notin> set rest) (ep_roots p)"

definition under_root :: "edit_policy \<Rightarrow> string \<Rightarrow> bool" where
  "under_root p c = list_ex (\<lambda>root. has_prefix (root @ ''/'') c) (ep_roots p)"

definition allow :: "edit_policy \<Rightarrow> string \<Rightarrow> kv_error + string" where
  "allow p rel =
     (case clean rel of
        Inl e \<Rightarrow> Inl e
      | Inr c \<Rightarrow>
          (if c = [] then Inl ErrNotEditable
           else if \<not> in_root p c then
             (if under_root p c then Inl ErrSecretDepth else Inl ErrNotEditable)
           else if c \<in> ep_managed p then Inl ErrManaged
           else Inr c))"

definition allows :: "edit_policy \<Rightarrow> string \<Rightarrow> bool" where
  "allows p rel = (case allow p rel of Inl e \<Rightarrow> False | Inr c \<Rightarrow> True)"

definition allows_within :: "edit_policy \<Rightarrow> string \<Rightarrow> bool" where
  "allows_within p dir =
     (case clean dir of Inl e \<Rightarrow> False | Inr c \<Rightarrow> list_ex (\<lambda>root. c = root) (ep_roots p))"

section \<open>What the policy is built from\<close>

definition root_name :: "string \<Rightarrow> bool" where
  "root_name r \<longleftrightarrow> plain_name r \<and> CHR 0x5C \<notin> set r"

definition configured_roots :: "string list \<Rightarrow> string set" where
  "configured_roots rs = {r. root_name r \<and> (\<exists>raw \<in> set rs. trim_ch (CHR ''/'') raw = r)}"

definition managed_set :: "string list \<Rightarrow> string set" where
  "managed_set ms = {c. canonical c \<and> c \<noteq> [] \<and> (\<exists>raw \<in> set ms. trim_ch (CHR ''/'') raw = c)}"

lemma clean_editable_root_Inr:
  "clean_editable_root raw = Inr r \<longleftrightarrow> root_name r \<and> trim_ch (CHR ''/'') raw = r"
proof -
  have "root_name r \<Longrightarrow> canonical r"
    by (auto simp: root_name_def canonical_def split_ch_no_sep plain_name_def)
  moreover have "canonical r \<Longrightarrow> r \<noteq> [] \<Longrightarrow> CHR ''/'' \<notin> set r \<Longrightarrow> plain_name r"
    by (simp add: canonical_def split_ch_no_sep)
  moreover have "plain_name r \<Longrightarrow> r \<noteq> [] \<and> CHR ''/'' \<notin> set r"
    by (simp add: plain_name_def)
  ultimately show ?thesis
    unfolding clean_editable_root_def root_name_def
    by (auto split: sum.splits simp: clean_cases)
qed

lemma collect_roots_spec:
  "distinct acc \<Longrightarrow> distinct (collect_roots rs (set acc) acc) \<and>
   set (collect_roots rs (set acc) acc) =
     set acc \<union> {r. \<exists>raw \<in> set rs. clean_editable_root raw = Inr r}"
proof (induction rs arbitrary: acc)
  case Nil
  then show ?case by simp
next
  case (Cons raw rs)
  show ?case
  proof (cases "clean_editable_root raw")
    case (Inl e)
    then show ?thesis using Cons by simp
  next
    case (Inr c)
    have eq: "insert c (set acc) = set (acc @ [c])" by simp
    show ?thesis
    proof (cases "c \<in> set acc")
      case True
      then show ?thesis using Inr Cons by auto
    next
      case False
      then show ?thesis using Inr Cons.prems Cons.IH [of "acc @ [c]"] unfolding eq
        by (auto simp: eq [symmetric])
    qed
  qed
qed

lemma set_collect_managed: "collect_managed raws ms = ms \<union> managed_set raws"
  by (induction raws ms rule: collect_managed.induct)
     (auto simp: managed_set_def clean_cases split: if_splits)

lemma set_policy_roots [simp]: "set (ep_roots (new_edit_policy rs ms)) = configured_roots rs"
  using collect_roots_spec [of "[]" rs]
  by (auto simp: new_edit_policy_def configured_roots_def clean_editable_root_Inr)

lemma policy_managed [simp]: "ep_managed (new_edit_policy rs ms) = managed_set ms"
  by (simp add: new_edit_policy_def set_collect_managed)

lemma policy_roots_sorted: "sorted_wrt (<) (ep_roots (new_edit_policy rs ms))"
  using collect_roots_spec [of "[]" rs] by (simp add: new_edit_policy_def strict_sorted_iff)

lemma root_name_plain: "root_name r \<Longrightarrow> plain_name r"
  by (simp add: root_name_def)

lemma canonical_single: "canonical n \<longleftrightarrow> n = [] \<or> plain_name n" if "CHR ''/'' \<notin> set n"
  using that by (auto simp: canonical_def split_ch_no_sep)

lemma canonical_child:
  "plain_name n \<Longrightarrow> canonical (d @ CHR ''/'' # n) \<longleftrightarrow> d \<noteq> [] \<and> canonical d"
  by (auto simp: canonical_def split_ch_append_sep plain_name_def split_ch_no_sep)

lemma in_root_iff:
  "in_root p c \<longleftrightarrow> (\<exists>r \<in> set (ep_roots p). \<exists>n. c = r @ CHR ''/'' # n \<and> CHR ''/'' \<notin> set n)"
  by (simp add: in_root_def list_ex_iff case_cut_prefix)

lemma under_root_iff: "under_root p c \<longleftrightarrow> (\<exists>r \<in> set (ep_roots p). \<exists>n. c = r @ CHR ''/'' # n)"
  by (auto simp: under_root_def list_ex_iff has_prefix_iff)

lemma allow_Inr:
  "allow p rel = Inr c \<longleftrightarrow> clean rel = Inr c \<and> c \<noteq> [] \<and> in_root p c \<and> c \<notin> ep_managed p"
  by (auto simp: allow_def split: sum.splits if_splits)

lemma allows_iff: "allows p rel \<longleftrightarrow> (\<exists>c. allow p rel = Inr c)"
  by (auto simp: allows_def split: sum.splits)

lemma allows_within_iff:
  "allows_within p dir \<longleftrightarrow> (\<exists>c. clean dir = Inr c \<and> c \<in> set (ep_roots p))"
  by (auto simp: allows_within_def list_ex_iff split: sum.splits)

lemma plain_name_canonical: "plain_name n \<Longrightarrow> canonical n"
  by (simp add: canonical_def split_ch_no_sep plain_name_def)

lemma configured_root: "r \<in> configured_roots rs \<Longrightarrow> plain_name r \<and> canonical r"
  by (auto simp: configured_roots_def intro: root_name_plain plain_name_canonical)

lemma canonical_root_child:
  "plain_name r \<Longrightarrow> canonical (r @ CHR ''/'' # n) \<and> CHR ''/'' \<notin> set n \<longleftrightarrow> plain_name n"
  by (auto simp: canonical_def split_ch_append_sep split_ch_no_sep plain_name_def)

lemma child_path_inj:
  assumes "CHR ''/'' \<notin> set n" "CHR ''/'' \<notin> set n'" "r' @ CHR ''/'' # n' = r @ CHR ''/'' # n"
  shows "r' = r \<and> n' = n"
proof -
  have a: "split_last (CHR ''/'') (r' @ CHR ''/'' # n') = Some (r', n')"
    using assms(2) by (simp add: split_last_Some)
  have b: "split_last (CHR ''/'') (r @ CHR ''/'' # n) = Some (r, n)"
    using assms(1) by (simp add: split_last_Some)
  have "Some (r', n') = Some (r, n)" by (rule trans [OF a [symmetric] b [folded assms(3)]])
  then show ?thesis by simp
qed

definition editable_secret :: "string list \<Rightarrow> string \<Rightarrow> bool" where
  "editable_secret rs c \<longleftrightarrow>
     (\<exists>r n. r \<in> configured_roots rs \<and> plain_name n \<and> c = r @ CHR ''/'' # n)"

lemma in_root_policy:
  "canonical c \<Longrightarrow> in_root (new_edit_policy rs ms) c \<longleftrightarrow> editable_secret rs c"
  unfolding in_root_iff set_policy_roots editable_secret_def
  using configured_root canonical_root_child by blast

lemma editable_secret_child:
  "plain_name n \<Longrightarrow> editable_secret rs (d @ CHR ''/'' # n) \<longleftrightarrow> d \<in> configured_roots rs"
  unfolding editable_secret_def using child_path_inj by (metis plain_name_def)

lemma editable_secret_canonical: "editable_secret rs c \<Longrightarrow> canonical c \<and> c \<noteq> []"
  unfolding editable_secret_def using configured_root canonical_root_child by blast

lemma editable_secret_not_root: "r \<in> configured_roots rs \<Longrightarrow> \<not> editable_secret rs r"
  unfolding editable_secret_def by (auto dest!: configured_root simp: plain_name_def)

lemma allow_policy:
  "allow (new_edit_policy rs ms) rel =
     (let c = trim_ch (CHR ''/'') rel in
      if \<not> canonical c then Inl ErrInvalidName
      else if editable_secret rs c then (if c \<in> managed_set ms then Inl ErrManaged else Inr c)
      else if \<exists>r \<in> configured_roots rs. \<exists>n. c = r @ CHR ''/'' # n then Inl ErrSecretDepth
      else Inl ErrNotEditable)"
proof -
  have "c = [] \<Longrightarrow> \<not> editable_secret rs c" for c by (auto simp: editable_secret_def)
  then show ?thesis
    by (auto simp: allow_def clean_cases Let_def in_root_policy under_root_iff)
qed

section \<open>Properties\<close>

text \<open>
  \<open>Clean\<close> accepts exactly the spellings of canonical paths: it succeeds with \<open>q\<close>
  if and only if \<open>q\<close> is the input without its leading and trailing slashes and is the
  root or a list of plain names, so no accepted path carries an empty, \<open>.\<close> or \<open>..\<close>
  segment or a NUL, and nothing is collapsed. Every other input is \<open>ErrInvalidName\<close>, and
  an accepted path is accepted again unchanged.
\<close>

theorem clean_exact:
  "(clean p = Inr q \<longleftrightarrow> q = trim_ch (CHR ''/'') p \<and> canonical q)
   \<and> (clean p = Inl e \<longleftrightarrow> e = ErrInvalidName \<and> \<not> canonical (trim_ch (CHR ''/'') p))
   \<and> (canonical q \<longleftrightarrow> clean q = Inr q)"
  using clean_Inr [of p q] clean_Inl [of p e] clean_canonical_id [of q] clean_Inr_canonical [of q q]
  by blast


text \<open>
  The two questions the screens ask agree with the check behind the request: a
  secret the policy allows lies in a folder \<open>AllowsWithin\<close> offers, and a folder it offers
  admits every plain name that is not managed; with no configured root nothing is
  allowed, and no root is itself writable.
\<close>

theorem allows_within_sound:
  "(canonical d \<and> plain_name n \<and> allows (new_edit_policy rs ms) (d @ CHR ''/'' # n)
      \<longleftrightarrow> canonical d \<and> plain_name n \<and> allows_within (new_edit_policy rs ms) d
        \<and> d @ CHR ''/'' # n \<notin> managed_set ms)
   \<and> \<not> allows (new_edit_policy [] ms) rel
   \<and> (r \<in> configured_roots rs \<longrightarrow> \<not> allows (new_edit_policy rs ms) r)"
proof -
  have child: "allows (new_edit_policy rs ms) (d @ CHR ''/'' # n) \<longleftrightarrow>
      allows_within (new_edit_policy rs ms) d \<and> d @ CHR ''/'' # n \<notin> managed_set ms"
    if d: "canonical d" "plain_name n"
  proof (cases "d = []")
    case True
    have "plain_name n \<Longrightarrow> trim_ch (CHR ''/'') (CHR ''/'' # n) = n"
      using canonical_trim [of n] by (simp add: trim_ch_def canonical_single plain_name_def)
    moreover have "\<not> editable_secret rs n"
      using d(2) by (auto simp: editable_secret_def plain_name_def)
    moreover have "[] \<notin> configured_roots rs" using configured_root by (auto simp: plain_name_def)
    ultimately show ?thesis
      using True d by (auto simp: allows_iff allow_policy Let_def allows_within_iff clean_cases)
  next
    case False
    then have c: "canonical (d @ CHR ''/'' # n)" using d canonical_child by blast
    then show ?thesis
      using d editable_secret_child [of n rs d]
      by (simp add: allows_iff allow_policy Let_def allows_within_iff clean_canonical_id)
  qed
  moreover have "\<not> allows (new_edit_policy [] ms) rel"
    by (simp add: allows_iff allow_policy Let_def editable_secret_def configured_roots_def)
  moreover have "r \<in> configured_roots rs \<Longrightarrow> \<not> allows (new_edit_policy rs ms) r"
    using configured_root [of r rs] editable_secret_not_root [of r rs]
    by (simp add: allows_iff allow_policy Let_def)
  ultimately show ?thesis by blast
qed

theorem allows_within_sound_witness:
  "allows (new_edit_policy [''/personal/'', ''a/b''] [''personal/gh'']) ''personal/token''
   \<and> \<not> allows (new_edit_policy [''/personal/'', ''a/b''] [''personal/gh'']) ''personal''"
proof
  let ?rs = "[''/personal/'', ''a/b'']" and ?ms = "[''personal/gh'']"
  have r: "''personal'' \<in> configured_roots ?rs"
    by (simp add: configured_roots_def root_name_def plain_name_def trim_ch_def)
  have c: "canonical ''personal''" by (simp add: canonical_def plain_name_def)
  have "allows_within (new_edit_policy ?rs ?ms) ''personal''"
    using r c by (simp add: allows_within_iff clean_canonical_id)
  moreover have "''personal'' @ CHR ''/'' # ''token'' \<notin> managed_set ?ms"
    by (simp add: managed_set_def trim_ch_def)
  ultimately show "allows (new_edit_policy ?rs ?ms) ''personal/token''"
    using allows_within_sound [of "''personal''" "''token''" ?rs ?ms "[]" "''personal''"] c
    by (simp add: plain_name_def)
  show "\<not> allows (new_edit_policy ?rs ?ms) ''personal''"
    using allows_within_sound [of "''personal''" "''token''" ?rs ?ms "[]" "''personal''"] r by blast
qed

end
