(* ===== verification/GoVal.thy ===== *)
theory GoVal
  imports GoStrings
begin

text \<open>
  The dynamic values (\<open>any\<close>) the file handlers and the sync engine pass around: nil,
  booleans, \<open>int64\<close>, \<open>float64\<close>, \<open>json.Number\<close>, strings, \<open>[]any\<close> and \<open>map[string]any\<close>.
  The type variable \<open>'f\<close> stands for the IEEE double, whose arithmetic the program never
  looks into. A map is a canonical association list (\<open>keys_ok\<close>); \<open>wf_val\<close> says so at
  every depth.
\<close>

datatype 'f goval =
    GNil
  | GBool bool
  | GInt int
  | GFloat 'f
  | GNum string
  | GStr string
  | GArr "'f goval list"
  | GObj "(string \<times> 'f goval) list"

fun wf_val :: "'f goval \<Rightarrow> bool"
  and wf_fields :: "'f goval gomap \<Rightarrow> bool"
  and wf_elems :: "'f goval list \<Rightarrow> bool" where
  "wf_val (GObj m) = (keys_ok m \<and> wf_fields m)"
| "wf_val (GArr vs) = wf_elems vs"
| "wf_val v = True"
| "wf_fields [] = True"
| "wf_fields ((k, v) # m) = (wf_val v \<and> wf_fields m)"
| "wf_elems [] = True"
| "wf_elems (v # vs) = (wf_val v \<and> wf_elems vs)"

definition wf_map :: "'f goval gomap \<Rightarrow> bool" where
  "wf_map m \<longleftrightarrow> keys_ok m \<and> wf_fields m"

lemma wf_val_GObj [simp]: "wf_val (GObj m) \<longleftrightarrow> wf_map m"
  by (simp add: wf_map_def)

declare wf_val.simps(1) [simp del]

lemma wf_fields_iff: "wf_fields m \<longleftrightarrow> (\<forall>p \<in> set m. wf_val (snd p))"
  by (induction m) auto

lemma wf_fields_mput: "wf_fields m \<Longrightarrow> wf_val v \<Longrightarrow> wf_fields (mput k v m)"
  using set_mput_sub [of k v m] by (fastforce simp: wf_fields_iff)

lemma wf_map_mput [intro]: "wf_map m \<Longrightarrow> wf_val v \<Longrightarrow> wf_map (mput k v m)"
  by (simp add: wf_map_def wf_fields_mput)

lemma wf_map_mdel [intro]: "wf_map m \<Longrightarrow> wf_map (mdel k m)"
  by (auto simp: wf_map_def wf_fields_iff mdel_def keys_ok_filter)

lemma wf_map_Nil [simp]: "wf_map []"
  by (simp add: wf_map_def)

lemma wf_map_get: "wf_map m \<Longrightarrow> map_of m k = Some v \<Longrightarrow> wf_val v"
  by (fastforce simp: wf_map_def wf_fields_iff dest: map_of_SomeD)

lemma wf_map_keys: "wf_map m \<Longrightarrow> keys_ok m"
  by (simp add: wf_map_def)

lemma wf_map_iff: "wf_map m \<longleftrightarrow> keys_ok m \<and> (\<forall>k v. map_of m k = Some v \<longrightarrow> wf_val v)"
  by (fastforce simp: wf_map_def wf_fields_iff keys_ok_map_of [symmetric])

lemma wf_map_Cons: "wf_map ((k, v) # m) \<longleftrightarrow> (\<forall>k' \<in> fst ` set m. k < k') \<and> wf_val v \<and> wf_map m"
  by (auto simp: wf_map_def keys_ok_Cons)

text \<open>Induction over documents: a map may use the property of every map nested in it.\<close>

lemma size_nested_map:
  "(k, GObj s) \<in> set m \<Longrightarrow> size (GObj s) < size (GObj m)"
  by (induction m) auto

lemma nested_map_induct [case_names nest]:
  assumes "\<And>m. (\<And>k s. (k, GObj s) \<in> set m \<Longrightarrow> P s) \<Longrightarrow> P m"
  shows "P m"
proof (induction "size (GObj m)" arbitrary: m rule: less_induct)
  case less
  show ?case by (rule assms, rule less) (rule size_nested_map)
qed

section \<open>Reading a value along a path of keys\<close>

fun look :: "'f goval \<Rightarrow> string list \<Rightarrow> 'f goval option" where
  "look v [] = Some v"
| "look (GObj m) (k # ks) = (case map_of m k of None \<Rightarrow> None | Some v \<Rightarrow> look v ks)"
| "look v (k # ks) = None"

text \<open>
  \<open>misses v ks\<close>: following \<open>ks\<close> through the maps of \<open>v\<close> leaves the document at a key
  that is not there, so \<open>v\<close> says nothing about \<open>ks\<close>.
\<close>

fun misses :: "'f goval \<Rightarrow> string list \<Rightarrow> bool" where
  "misses (GObj m) (k # ks) = (case map_of m k of None \<Rightarrow> True | Some v \<Rightarrow> misses v ks)"
| "misses v ks = False"

fun is_obj :: "'f goval \<Rightarrow> bool" where
  "is_obj (GObj m) = True"
| "is_obj v = False"

lemma is_obj_iff: "is_obj v \<longleftrightarrow> (\<exists>m. v = GObj m)"
  by (cases v) auto

lemma look_not_obj: "\<not> is_obj v \<Longrightarrow> look v (k # ks) = None"
  by (cases v) auto

lemma misses_not_obj: "\<not> is_obj v \<Longrightarrow> \<not> misses v ks"
  by (cases v; cases ks) auto

lemma look_append: "look v (ps @ qs) = (case look v ps of None \<Rightarrow> None | Some w \<Rightarrow> look w qs)"
  by (induction v ps rule: look.induct) (auto split: option.splits)

end
