(* ===== verification/MergeContract.thy ===== *)
theory MergeContract
  imports GoVal
begin

text \<open>
  The contract of \<open>FileHandler.Merge\<close> (\<open>internal/handlers/handler.go\<close>) as an interface:
  documents are observed through \<open>peek\<close> at keys, an incoming document is silent about a key
  (\<open>silent\<close>) or fixes its value (\<open>fixes_to\<close>; \<open>None\<close> is a deletion). The providers are the
  JSON, TOML, ssh_config and text handlers; the clients are the sync engine, which applies
  one rule repeatedly, and a file shared by several rules.
\<close>

locale merge_contract =
  fixes merge :: "'doc \<Rightarrow> 'inc \<Rightarrow> 'doc"
    and good :: "'doc \<Rightarrow> bool"
    and good_inc :: "'inc \<Rightarrow> bool"
    and peek :: "'doc \<Rightarrow> 'key \<Rightarrow> 'v option"
    and silent :: "'inc \<Rightarrow> 'key \<Rightarrow> bool"
    and fixes_to :: "'inc \<Rightarrow> 'key \<Rightarrow> 'v option \<Rightarrow> bool"
  assumes good_merge: "good d \<Longrightarrow> good_inc s \<Longrightarrow> good (merge d s)"
    and keeps: "good d \<Longrightarrow> good_inc s \<Longrightarrow> silent s k \<Longrightarrow> peek (merge d s) k = peek d k"
    and sets: "good d \<Longrightarrow> good_inc s \<Longrightarrow> fixes_to s k v \<Longrightarrow> peek (merge d s) k = v"
    and idem: "good d \<Longrightarrow> good_inc s \<Longrightarrow> merge (merge d s) s = merge d s"
begin

text \<open>Any number of syncs of rules that are silent about a key leave the user's value.\<close>

lemma good_foldl: "good d \<Longrightarrow> \<forall>s \<in> set ss. good_inc s \<Longrightarrow> good (foldl merge d ss)"
  by (induction ss arbitrary: d) (auto intro: good_merge)

lemma keeps_foldl:
  "good d \<Longrightarrow> \<forall>s \<in> set ss. good_inc s \<and> silent s k \<Longrightarrow> peek (foldl merge d ss) k = peek d k"
  by (induction ss arbitrary: d) (simp_all add: good_merge keeps)

text \<open>Of several rules writing one file, the last that fixes a key decides it.\<close>

lemma last_writer_wins:
  assumes "good d" "\<forall>s \<in> set (ss @ [s] @ ts). good_inc s" "fixes_to s k v" "\<forall>t \<in> set ts. silent t k"
  shows "peek (foldl merge d (ss @ [s] @ ts)) k = v"
proof -
  have g: "good (foldl merge d ss)" using assms by (intro good_foldl) auto
  then have "peek (foldl merge (merge (foldl merge d ss) s) ts) k = peek (merge (foldl merge d ss) s) k"
    using assms by (intro keeps_foldl) (auto intro: good_merge)
  also have "\<dots> = v" using g assms by (intro sets) auto
  finally show ?thesis by simp
qed

text \<open>Rules that do not both speak about a key commute there.\<close>

lemma disjoint_commute:
  assumes "good d" "good_inc s" "good_inc t" "silent s k \<or> silent t k"
    and "\<And>u. u \<in> {s, t} \<Longrightarrow> silent u k \<or> (\<exists>v. fixes_to u k v)"
  shows "peek (merge (merge d s) t) k = peek (merge (merge d t) s) k"
proof -
  have gs: "good (merge d s)" and gt: "good (merge d t)" using assms(1-3) by (auto intro: good_merge)
  consider "silent s k" "silent t k" | v where "silent s k" "fixes_to t k v"
    | v where "silent t k" "fixes_to s k v"
    using assms(4) assms(5) [of s] assms(5) [of t] by auto
  then show ?thesis
    by cases (simp_all add: keeps sets assms(1-3) gs gt)
qed

text \<open>Repeating a sync any number of times is one sync: the file converges at once.\<close>

lemma resync_stable: "good d \<Longrightarrow> good_inc s \<Longrightarrow> ((\<lambda>x. merge x s) ^^ Suc n) d = merge d s"
proof (induction n)
  case 0
  then show ?case by simp
next
  case (Suc n)
  have "((\<lambda>x. merge x s) ^^ Suc (Suc n)) d = merge (((\<lambda>x. merge x s) ^^ Suc n) d) s" by simp
  also have "\<dots> = merge d s" unfolding Suc.IH [OF Suc.prems] by (rule idem [OF Suc.prems])
  finally show ?case .
qed

end

end
