(* ===== verification/JSONHandler.thy ===== *)
theory JSONHandler
  imports MergeContract "HOL-Library.Multiset"
begin

text \<open>
  \<open>internal/handlers/json.go\<close>: the deep merge of a JSON document and the tombstones of
  \<open>delete_nulls\<close>. \<open>deepMergeJSON\<close> ranges over the incoming map; the model ranges over its
  association list, and \<open>deepMergeJSON_order\<close> shows that no order of iteration (Go's is
  random) changes the result.
\<close>

section \<open>The operations\<close>

fun pruneNullsJSON :: "'f goval \<Rightarrow> bool \<Rightarrow> 'f goval"
  and pruneNullsFields :: "'f goval gomap \<Rightarrow> 'f goval gomap" where
  "pruneNullsJSON (GObj m) dn = (if \<not> dn then GObj m else GObj (pruneNullsFields m))"
| "pruneNullsJSON v dn = v"
| "pruneNullsFields [] = []"
| "pruneNullsFields ((k, v) # m) =
     (if v = GNil then pruneNullsFields m
      else (k, pruneNullsJSON v True) # pruneNullsFields m)"

fun deepMergeJSON :: "'f goval gomap \<Rightarrow> 'f goval gomap \<Rightarrow> bool \<Rightarrow> 'f goval gomap" where
  "deepMergeJSON dst [] dn = dst"
| "deepMergeJSON dst ((key, srcVal) # src) dn =
     (if dn \<and> srcVal = GNil then deepMergeJSON (mdel key dst) src dn
      else case map_of dst key of
             None \<Rightarrow> deepMergeJSON (mput key (pruneNullsJSON srcVal dn) dst) src dn
           | Some dstVal \<Rightarrow>
               (case (dstVal, srcVal) of
                  (GObj dstMap, GObj srcMap) \<Rightarrow>
                    deepMergeJSON (mput key (GObj (deepMergeJSON dstMap srcMap dn)) dst) src dn
                | _ \<Rightarrow> deepMergeJSON (mput key (pruneNullsJSON srcVal dn) dst) src dn))"

section \<open>One key at a time\<close>

text \<open>What the merge leaves at a key the incoming document names.\<close>

definition merged_value :: "bool \<Rightarrow> 'f goval option \<Rightarrow> 'f goval \<Rightarrow> 'f goval option" where
  "merged_value dn dv sv =
     (if dn \<and> sv = GNil then None
      else case (dv, sv) of
             (Some (GObj d), GObj s) \<Rightarrow> Some (GObj (deepMergeJSON d s dn))
           | _ \<Rightarrow> Some (pruneNullsJSON sv dn))"

lemma deepMergeJSON_Cons:
  "deepMergeJSON dst ((k, sv) # src) dn =
     deepMergeJSON (case merged_value dn (map_of dst k) sv of
                      None \<Rightarrow> mdel k dst | Some v \<Rightarrow> mput k v dst) src dn"
  by (auto simp: merged_value_def split: option.splits goval.splits)

declare deepMergeJSON.simps(2) [simp del]

lemma map_of_deepMergeJSON:
  assumes "distinct (map fst src)"
  shows "map_of (deepMergeJSON dst src dn) k =
    (case map_of src k of None \<Rightarrow> map_of dst k | Some sv \<Rightarrow> merged_value dn (map_of dst k) sv)"
  using assms
proof (induction src arbitrary: dst)
  case Nil
  then show ?case by simp
next
  case (Cons p src)
  obtain k' sv where p: "p = (k', sv)" by force
  show ?case
  proof (cases "k = k'")
    case True
    then have "map_of src k = None"
      using Cons.prems p by (simp add: map_of_eq_None_iff)
    with True show ?thesis using Cons p
      by (simp add: deepMergeJSON_Cons split: option.splits)
  next
    case False
    with Cons p show ?thesis by (simp add: deepMergeJSON_Cons split: option.splits)
  qed
qed

lemma pruneNullsJSON_off [simp]: "pruneNullsJSON v False = v"
  by (cases v) auto

lemma pruneNullsJSON_not_obj: "\<not> is_obj v \<Longrightarrow> pruneNullsJSON v dn = v"
  by (cases v) auto

lemma pruneNullsJSON_nil_iff [simp]: "pruneNullsJSON v dn = GNil \<longleftrightarrow> v = GNil"
  by (cases v) auto

lemma is_obj_pruneNulls [simp]: "is_obj (pruneNullsJSON v dn) = is_obj v"
  by (cases v) auto

lemma pruneNullsFields_eq:
  "pruneNullsFields m =
     map (\<lambda>p. (fst p, pruneNullsJSON (snd p) True)) (filter (\<lambda>p. snd p \<noteq> GNil) m)"
  by (induction m) auto

lemma map_of_pruneNullsFields:
  "keys_ok m \<Longrightarrow> map_of (pruneNullsFields m) k =
     (case map_of m k of None \<Rightarrow> None
      | Some v \<Rightarrow> if v = GNil then None else Some (pruneNullsJSON v True))"
proof (induction m)
  case Nil
  then show ?case by simp
next
  case (Cons p m)
  obtain k' v where p: "p = (k', v)" by force
  have "k' \<notin> fst ` set m" using Cons.prems p by (auto simp: keys_ok_Cons)
  then have "map_of m k' = None" by (simp add: map_of_eq_None_iff)
  with Cons p show ?case by (auto simp: keys_ok_Cons)
qed

lemma keys_ok_pruneNullsFields: "keys_ok m \<Longrightarrow> keys_ok (pruneNullsFields m)"
  using keys_ok_filter [of m "\<lambda>p. snd p \<noteq> GNil"]
  by (simp add: pruneNullsFields_eq keys_ok_def comp_def)

lemma wf_pruneNullsFields: "wf_map m \<Longrightarrow> wf_map (pruneNullsFields m)"
proof (induction m rule: nested_map_induct)
  case (nest m)
  have "wf_val (pruneNullsJSON v True)" if "map_of m k = Some v" for k v
  proof (cases "is_obj v")
    case True
    then obtain s where v: "v = GObj s" by (auto simp: is_obj_iff)
    then show ?thesis
      using nest.IH [of k s] that wf_map_get [OF nest.prems that] by (simp add: map_of_SomeD)
  next
    case False
    then show ?thesis using wf_map_get [OF nest.prems that] by (simp add: pruneNullsJSON_not_obj)
  qed
  then show ?case
    using nest.prems
    by (auto simp: wf_map_iff keys_ok_pruneNullsFields map_of_pruneNullsFields
        split: option.splits if_splits)
qed

lemma wf_pruneNullsJSON: "wf_val v \<Longrightarrow> wf_val (pruneNullsJSON v dn)"
  by (cases v) (auto simp: wf_pruneNullsFields)

lemma keys_ok_deepMergeJSON: "keys_ok dst \<Longrightarrow> keys_ok (deepMergeJSON dst src dn)"
proof (induction src arbitrary: dst)
  case Nil
  then show ?case by simp
next
  case (Cons p src)
  then show ?case by (cases p) (auto simp: deepMergeJSON_Cons split: option.splits)
qed

lemma merged_value_eq:
  "merged_value dn dv sv =
     (if dn \<and> sv = GNil then None
      else if \<exists>d s. dv = Some (GObj d) \<and> sv = GObj s
           then (case (dv, sv) of (Some (GObj d), GObj s) \<Rightarrow> Some (GObj (deepMergeJSON d s dn)))
      else Some (pruneNullsJSON sv dn))"
  by (auto simp: merged_value_def split: option.splits goval.splits)

lemma merged_value_obj [simp]:
  "merged_value dn (Some (GObj d)) (GObj s) = Some (GObj (deepMergeJSON d s dn))"
  by (simp add: merged_value_def)

lemma merged_value_other:
  "\<not> is_obj sv \<or> (\<forall>d. dv \<noteq> Some (GObj d)) \<Longrightarrow>
   merged_value dn dv sv = (if dn \<and> sv = GNil then None else Some (pruneNullsJSON sv dn))"
  by (auto simp: merged_value_def split: option.splits goval.splits)

lemma merged_value_cases [case_names both other]:
  obtains d s where "dv = Some (GObj d)" "sv = GObj s"
  | "\<not> is_obj sv \<or> (\<forall>d. dv \<noteq> Some (GObj d))"
  unfolding is_obj_iff by blast

lemma wf_deepMergeJSON: "wf_map dst \<Longrightarrow> wf_map src \<Longrightarrow> wf_map (deepMergeJSON dst src dn)"
proof (induction src arbitrary: dst rule: nested_map_induct)
  case (nest src)
  note keys = keys_ok_distinct [OF wf_map_keys [OF nest.prems(2)]]
  have step: "wf_val v" if sv: "map_of src k = Some sv" and v: "merged_value dn (map_of dst k) sv = Some v" for k sv v
  proof (cases "map_of dst k" sv rule: merged_value_cases)
    case (both d s)
    then have "wf_map (deepMergeJSON d s dn)"
      using nest.IH [of k s d] nest.prems sv wf_map_get [of dst k] wf_map_get [of src k]
      by (auto simp: map_of_SomeD)
    with both v show ?thesis by auto
  next
    case other
    then show ?thesis
      using v wf_map_get [OF nest.prems(2) sv] by (auto simp: merged_value_other wf_pruneNullsJSON split: if_splits)
  qed
  show ?case
    unfolding wf_map_iff map_of_deepMergeJSON [OF keys]
    using step nest.prems wf_map_get [OF nest.prems(1)]
    by (auto simp: keys_ok_deepMergeJSON wf_map_keys split: option.splits)
qed

section \<open>The merge along paths\<close>

lemma misses_look: "misses v ks \<Longrightarrow> look v ks = None"
  by (induction v ks rule: misses.induct) (auto split: option.splits)

lemma misses_Cons: "misses v ks \<Longrightarrow> \<exists>s k ks'. v = GObj s \<and> ks = k # ks'"
  by (cases v; cases ks) auto

lemma look_GObj_Cons:
  "look (GObj m) (k # ks) = (case map_of m k of None \<Rightarrow> None | Some v \<Rightarrow> look v ks)"
  by simp

lemma look_pruneNulls_silent: "misses v ks \<Longrightarrow> wf_val v \<Longrightarrow> look (pruneNullsJSON v dn) ks = None"
proof (induction v ks rule: misses.induct)
  case (1 m k ks)
  then show ?case
    by (cases dn)
       (auto simp: map_of_pruneNullsFields wf_map_keys misses_look dest: wf_map_get split: option.splits)
qed auto

text \<open>What a merge leaves at a leaf of the incoming document.\<close>

definition leaf_result :: "bool \<Rightarrow> 'f goval \<Rightarrow> 'f goval option" where
  "leaf_result dn v = (if dn \<and> v = GNil then None else Some v)"

lemma look_pruneNulls_leaf:
  "look v ks = Some w \<Longrightarrow> \<not> is_obj w \<Longrightarrow> wf_val v \<Longrightarrow> \<not> (dn \<and> v = GNil) \<Longrightarrow>
   look (pruneNullsJSON v dn) ks = leaf_result dn w"
proof (induction v ks rule: look.induct)
  case (1 v)
  then show ?case by (auto simp: leaf_result_def pruneNullsJSON_not_obj)
next
  case (2 m k ks)
  show ?case
  proof (cases dn)
    case False
    then show ?thesis using 2 by (simp add: leaf_result_def)
  next
    case True
    obtain x where x: "map_of m k = Some x" "look x ks = Some w"
      using "2.prems"(1) by (auto split: option.splits)
    show ?thesis
    proof (cases "x = GNil")
      case nil: True
      then have "ks = []" "w = GNil" using x(2) by (cases ks; simp)+
      then show ?thesis using True nil x "2.prems"(3)
        by (simp add: leaf_result_def map_of_pruneNullsFields wf_map_keys)
    next
      case False
      then show ?thesis using "2.IH" [OF x(1) x(2)] "2.prems" True x wf_map_get [of m k x]
        by (simp add: map_of_pruneNullsFields wf_map_keys)
    qed
  qed
qed auto

lemma look_deepMergeJSON_Cons:
  assumes "wf_map src"
  shows "look (GObj (deepMergeJSON dst src dn)) (k # ks) =
    (case map_of src k of
       None \<Rightarrow> look (GObj dst) (k # ks)
     | Some sv \<Rightarrow> (case merged_value dn (map_of dst k) sv of None \<Rightarrow> None | Some v \<Rightarrow> look v ks))"
  using map_of_deepMergeJSON [OF keys_ok_distinct [OF wf_map_keys [OF assms]]]
  by (simp split: option.splits)

lemma deepMergeJSON_silent:
  assumes "wf_map src" "misses (GObj src) ks"
  shows "look (GObj (deepMergeJSON dst src dn)) ks = look (GObj dst) ks"
  using assms
proof (induction src arbitrary: dst ks rule: nested_map_induct)
  case (nest src)
  from misses_Cons [OF nest.prems(2)] obtain k ks' where ks: "ks = k # ks'" by blast
  show ?case
  proof (cases "map_of src k")
    case None
    then show ?thesis by (simp add: ks look_deepMergeJSON_Cons nest.prems(1) del: look.simps(2))
  next
    case (Some sv)
    have miss: "misses sv ks'" using nest.prems(2) Some by (simp add: ks)
    then obtain s k2 ks2 where sv: "sv = GObj s" "ks' = k2 # ks2" using misses_Cons by blast
    have wf: "wf_val sv" by (rule wf_map_get [OF nest.prems(1) Some])
    show ?thesis
    proof (cases "map_of dst k" sv rule: merged_value_cases)
      case (both d s')
      then show ?thesis
        using nest.IH [of k s' ks' d] Some wf miss
        by (simp add: ks look_deepMergeJSON_Cons look_GObj_Cons [of dst] nest.prems(1) map_of_SomeD
            del: look.simps(2))
    next
      case other
      then have "look (GObj dst) ks = None"
        using sv by (auto simp: ks is_obj_iff look_not_obj split: option.splits)
      moreover have "look (GObj (deepMergeJSON dst src dn)) ks = None"
        using other sv look_pruneNulls_silent [OF miss wf]
        by (simp add: ks look_deepMergeJSON_Cons nest.prems(1) Some merged_value_other
            del: look.simps(2))
      ultimately show ?thesis by simp
    qed
  qed
qed

lemma deepMergeJSON_leaf:
  assumes "wf_map src" "look (GObj src) (k # ks) = Some w" "\<not> is_obj w"
  shows "look (GObj (deepMergeJSON dst src dn)) (k # ks) = leaf_result dn w"
  using assms
proof (induction src arbitrary: dst k ks rule: nested_map_induct)
  case (nest src)
  obtain sv where sv: "map_of src k = Some sv" "look sv ks = Some w"
    using nest.prems(2) by (auto split: option.splits)
  have wf: "wf_val sv" by (rule wf_map_get [OF nest.prems(1) sv(1)])
  show ?case
  proof (cases "map_of dst k" sv rule: merged_value_cases)
    case (both d s)
    then obtain k2 ks2 where ks: "ks = k2 # ks2" using sv(2) nest.prems(3) by (cases ks) auto
    show ?thesis
      using nest.IH [of k s k2 ks2 d] both sv wf nest.prems ks
      by (simp add: look_deepMergeJSON_Cons map_of_SomeD del: look.simps(2))
  next
    case other
    show ?thesis
    proof (cases "dn \<and> sv = GNil")
      case True
      then have "w = GNil" using sv(2) by (cases ks) auto
      then show ?thesis
        using True sv by (simp add: look_deepMergeJSON_Cons nest.prems(1) leaf_result_def
            merged_value_def del: look.simps(2))
    next
      case False
      then show ?thesis using look_pruneNulls_leaf [OF sv(2) nest.prems(3) wf False] other sv
        by (auto simp: look_deepMergeJSON_Cons nest.prems(1) merged_value_other simp del: look.simps(2))
    qed
  qed
qed

section \<open>Convergence and order\<close>

lemma deepMergeJSON_self:
  "wf_map s \<Longrightarrow> deepMergeJSON (if dn then pruneNullsFields s else s) s dn
     = (if dn then pruneNullsFields s else s)"
proof (induction s rule: nested_map_induct)
  case (nest s)
  let ?p = "if dn then pruneNullsFields s else s"
  note k = wf_map_keys [OF nest.prems]
  have "map_of (deepMergeJSON ?p s dn) x = map_of ?p x" for x
  proof (cases "map_of s x")
    case None
    then show ?thesis by (simp add: map_of_deepMergeJSON keys_ok_distinct k)
  next
    case (Some sv)
    have p: "map_of ?p x = (if dn \<and> sv = GNil then None else Some (pruneNullsJSON sv dn))"
      using Some by (simp add: map_of_pruneNullsFields k)
    show ?thesis
    proof (cases "is_obj sv")
      case True
      then obtain t where t: "sv = GObj t" by (auto simp: is_obj_iff)
      then have "deepMergeJSON (if dn then pruneNullsFields t else t) t dn
          = (if dn then pruneNullsFields t else t)"
        using nest.IH [of x t] Some wf_map_get [OF nest.prems Some] by (simp add: map_of_SomeD)
      then show ?thesis using Some p t by (auto simp: map_of_deepMergeJSON keys_ok_distinct k)
    next
      case False
      then show ?thesis using Some p
        by (simp add: map_of_deepMergeJSON keys_ok_distinct k merged_value_other pruneNullsJSON_not_obj)
    qed
  qed
  moreover have "keys_ok ?p" by (simp add: k keys_ok_pruneNullsFields)
  ultimately show ?case by (intro keys_ok_ext keys_ok_deepMergeJSON) (auto simp: fun_eq_iff)
qed

lemma merged_value_idem:
  assumes "wf_val sv" "\<And>d s. sv = GObj s \<Longrightarrow> dv = Some (GObj d) \<Longrightarrow>
      deepMergeJSON (deepMergeJSON d s dn) s dn = deepMergeJSON d s dn"
  shows "merged_value dn (merged_value dn dv sv) sv = merged_value dn dv sv"
proof (cases dv sv rule: merged_value_cases)
  case (both d s)
  then show ?thesis using assms(2) by simp
next
  case other
  show ?thesis
  proof (cases "is_obj sv")
    case True
    then obtain s where s: "sv = GObj s" by (auto simp: is_obj_iff)
    have "pruneNullsJSON sv dn = GObj (if dn then pruneNullsFields s else s)" by (simp add: s)
    then show ?thesis
      using other s deepMergeJSON_self [of s dn] assms(1) by (simp add: merged_value_other)
  next
    case False
    then show ?thesis by (simp add: merged_value_other)
  qed
qed

lemma deepMergeJSON_idem:
  "wf_map dst \<Longrightarrow> wf_map src \<Longrightarrow>
   deepMergeJSON (deepMergeJSON dst src dn) src dn = deepMergeJSON dst src dn"
proof (induction src arbitrary: dst rule: nested_map_induct)
  case (nest src)
  note dist = keys_ok_distinct [OF wf_map_keys [OF nest.prems(2)]]
  have "merged_value dn (merged_value dn (map_of dst x) sv) sv = merged_value dn (map_of dst x) sv"
    if "map_of src x = Some sv" for x sv
  proof (rule merged_value_idem [OF wf_map_get [OF nest.prems(2) that]])
    fix d s assume "sv = GObj s" "map_of dst x = Some (GObj d)"
    then show "deepMergeJSON (deepMergeJSON d s dn) s dn = deepMergeJSON d s dn"
      using nest.IH [of x s d] that wf_map_get [OF nest.prems(2) that]
        wf_map_get [OF nest.prems(1), of x "GObj d"]
      by (simp add: map_of_SomeD)
  qed
  then show ?case
    using nest.prems
    by (intro keys_ok_ext keys_ok_deepMergeJSON)
       (auto simp: fun_eq_iff map_of_deepMergeJSON [OF dist] wf_map_keys split: option.splits)
qed

lemma deepMergeJSON_perm:
  assumes "keys_ok dst" "distinct (map fst src)" "distinct (map fst src')" "set src = set src'"
  shows "deepMergeJSON dst src dn = deepMergeJSON dst src' dn"
proof -
  have "map_of src = map_of src'" using assms(2-4) by (simp add: map_of_inject_set)
  then show ?thesis
    using assms by (intro keys_ok_ext keys_ok_deepMergeJSON) (auto simp: fun_eq_iff map_of_deepMergeJSON)
qed

section \<open>The contract\<close>

definition json_fixes :: "bool \<Rightarrow> 'f goval gomap \<Rightarrow> string list \<Rightarrow> 'f goval option \<Rightarrow> bool" where
  "json_fixes dn src ks r \<longleftrightarrow>
     ks \<noteq> [] \<and> (\<exists>w. look (GObj src) ks = Some w \<and> \<not> is_obj w \<and> r = leaf_result dn w)"

interpretation json: merge_contract
  "\<lambda>d s. deepMergeJSON d s dn" wf_map wf_map "\<lambda>d. look (GObj d)" "\<lambda>s. misses (GObj s)" "json_fixes dn"
  for dn :: bool
proof unfold_locales
  show "wf_map d \<Longrightarrow> wf_map s \<Longrightarrow> json_fixes dn s k v \<Longrightarrow> look (GObj (deepMergeJSON d s dn)) k = v"
    for d s :: "'f goval gomap" and k v
    by (cases k) (auto simp: json_fixes_def deepMergeJSON_leaf simp del: look.simps(2))
qed (auto simp: wf_deepMergeJSON deepMergeJSON_silent deepMergeJSON_idem)

section \<open>Properties\<close>

text \<open>
  C8. A JSON merge is surgical. Wherever the incoming document is silent, the file keeps
  the user's value; wherever it has a leaf, the file takes that leaf, except that with
  \<open>delete_nulls\<close> a null leaf removes the key instead of being written; and the result is
  again a well-formed document.
\<close>

theorem deepMergeJSON_surgical:
  assumes "wf_map dst" "wf_map src"
  shows "wf_map (deepMergeJSON dst src dn)
    \<and> (misses (GObj src) ks \<longrightarrow> look (GObj (deepMergeJSON dst src dn)) ks = look (GObj dst) ks)
    \<and> (look (GObj src) ks = Some w \<and> \<not> is_obj w \<and> ks \<noteq> [] \<longrightarrow>
        look (GObj (deepMergeJSON dst src dn)) ks = (if dn \<and> w = GNil then None else Some w))"
  using json.good_merge [OF assms, of dn] json.keeps [OF assms, of ks dn]
    json.sets [OF assms, of dn ks "leaf_result dn w"]
  by (auto simp: json_fixes_def leaf_result_def)

text \<open>The merge of \<open>{"a":{"b":null,"d":5}}\<close> into \<open>{"a":{"b":1,"c":2}}\<close> with tombstones on.\<close>

theorem deepMergeJSON_surgical_witness:
  "look (GObj (deepMergeJSON [(''a'', GObj [(''b'', GInt 1), (''c'', GInt 2)])]
       [(''a'', GObj [(''b'', GNil), (''d'', GInt 5)])] True)) [''a'', ''c''] = Some (GInt 2 :: nat goval)
   \<and> look (GObj (deepMergeJSON [(''a'', GObj [(''b'', GInt 1), (''c'', GInt 2)])]
       [(''a'', GObj [(''b'', GNil), (''d'', GInt 5)])] True)) [''a'', ''b''] = (None :: nat goval option)"
proof -
  let ?d = "[(''a'', GObj [(''b'', GInt 1), (''c'', GInt 2)])] :: nat goval gomap"
  let ?s = "[(''a'', GObj [(''b'', GNil), (''d'', GInt 5)])] :: nat goval gomap"
  have w: "wf_map ?d" "wf_map ?s" by (simp_all add: wf_map_def keys_ok_def)
  show ?thesis
    using deepMergeJSON_surgical [OF w, of True "[''a'', ''c'']" "GInt 2"]
      deepMergeJSON_surgical [OF w, of True "[''a'', ''b'']" GNil] by simp
qed

text \<open>
  A sync converges at once and does not depend on Go's random map iteration: merging
  the same document again, any number of times, changes nothing, and every order in which
  the incoming map may be enumerated gives the same file.
\<close>

theorem deepMergeJSON_converges:
  assumes "wf_map dst" "wf_map src"
  shows "((\<lambda>d. deepMergeJSON d src dn) ^^ Suc n) dst = deepMergeJSON dst src dn
    \<and> (\<forall>order. mset order = mset src \<longrightarrow> deepMergeJSON dst order dn = deepMergeJSON dst src dn)"
proof -
  have "deepMergeJSON dst order dn = deepMergeJSON dst src dn" if "mset order = mset src" for order
  proof (rule deepMergeJSON_perm)
    show "distinct (map fst order)"
      using that keys_ok_distinct [OF wf_map_keys [OF assms(2)]]
      by (metis mset_map mset_eq_imp_distinct_iff)
    show "set order = set src" using that by (metis set_mset_mset)
  qed (use assms in \<open>simp_all add: wf_map_keys keys_ok_distinct\<close>)
  then show ?thesis using json.resync_stable [OF assms] by blast
qed

theorem deepMergeJSON_converges_witness:
  "deepMergeJSON [(''k'', GBool True)] [(''z'', GNil), (''a'', GStr ''x'')] True
     = deepMergeJSON [(''k'', GBool True)] [(''a'', GStr ''x''), (''z'', GNil :: nat goval)] True"
proof -
  have w: "wf_map [(''k'', GBool True :: nat goval)]" "wf_map [(''a'', GStr ''x''), (''z'', GNil :: nat goval)]"
    by (simp_all add: wf_map_def keys_ok_def)
  have "mset [(''z'', GNil :: nat goval), (''a'', GStr ''x'')] = mset [(''a'', GStr ''x''), (''z'', GNil)]"
    by simp
  then show ?thesis using deepMergeJSON_converges [OF w, where dn = True and n = 0] by blast
qed

text \<open>
  Several rules may manage one file. After any sequence of merges, a key some rule
  fixes and no later rule mentions holds what that rule wrote, whatever came before.
\<close>

theorem deepMergeJSON_last_rule_wins:
  assumes "wf_map dst" "list_all wf_map (rules @ [rule] @ later)"
    and "look (GObj rule) (k # ks) = Some w" "\<not> is_obj w"
    and "list_all (\<lambda>r. misses (GObj r) (k # ks)) later"
  shows "look (GObj (foldl (\<lambda>d r. deepMergeJSON d r dn) dst (rules @ [rule] @ later))) (k # ks)
    = (if dn \<and> w = GNil then None else Some w)"
  using json.last_writer_wins [where d = dst and ss = rules and s = rule and ts = later
      and k = "k # ks" and v = "leaf_result dn w" and dn = dn] assms
  by (auto simp: json_fixes_def leaf_result_def list_all_iff)

theorem deepMergeJSON_last_rule_wins_witness:
  "look (GObj (foldl (\<lambda>d r. deepMergeJSON d r False) []
     ([[(''a'', GInt 1)]] @ [[(''a'', GInt 2 :: nat goval)]] @ [[(''b'', GInt 3)]]))) [''a''] = Some (GInt 2)"
  using deepMergeJSON_last_rule_wins [of "[]" "[[(''a'', GInt 1)]]" "[(''a'', GInt 2 :: nat goval)]"
      "[[(''b'', GInt 3)]]" "''a''" "[]" "GInt 2" False]
  by (simp add: wf_map_def keys_ok_def)

end
