(* ===== verification/TOML.thy ===== *)
theory TOML
  imports JSONHandler
begin

text \<open>
  \<open>internal/handlers/toml.go\<close>: the hand-written TOML reader and writer and the merge
  between them. Go walks byte indices and keeps pointers into nested maps; the model walks
  lists and names the current table by the path it was reached by. \<open>strconv.ParseFloat\<close>,
  \<open>strconv.FormatFloat\<close> and the classification of doubles are the record \<open>float_ops\<close>, so
  the value type \<open>'f\<close> stays abstract.
\<close>

section \<open>Bytes and errors\<close>

abbreviation DQ :: char where "DQ \<equiv> CHR 0x22"
abbreviation SQ :: char where "SQ \<equiv> CHR 0x27"
abbreviation BSL :: char where "BSL \<equiv> CHR 0x5C"
abbreviation NL :: char where "NL \<equiv> CHR 0x0A"
abbreviation TAB :: char where "TAB \<equiv> CHR 0x09"
abbreviation CR :: char where "CR \<equiv> CHR 0x0D"

definition DQ3 :: string where "DQ3 = [DQ, DQ, DQ]"
definition SQ3 :: string where "SQ3 = [SQ, SQ, SQ]"

datatype toml_error =
    EmptyTomlValue
  | EmptyValueText
  | UnterminatedMultilineBasic
  | UnterminatedMultilineLiteral
  | UnexpectedContent string
  | UnterminatedBasic
  | UnterminatedLiteral
  | InvalidTomlValue string
  | InvalidArray string
  | InvalidInlineTable string
  | ExpectedPair string
  | TableConflict string
  | UnterminatedArrayOfTables
  | CannotRedefine string
  | UnterminatedHeader
  | ExpectedKeyValue
  | UnterminatedMultiline
  | AtLine nat toml_error

record 'f float_ops =
  ParseFloat :: "string \<Rightarrow> 'f option"
  FormatFloat :: "'f \<Rightarrow> string"
  IsPosInf :: "'f \<Rightarrow> bool"
  IsNegInf :: "'f \<Rightarrow> bool"
  IsNaN :: "'f \<Rightarrow> bool"

section \<open>Scanning\<close>

definition isMultiLineStringStart :: "string \<Rightarrow> bool" where
  "isMultiLineStringStart s \<longleftrightarrow> has_prefix DQ3 s \<or> has_prefix SQ3 s"

text \<open>
  The text before and after the first delimiter; \<open>bs\<close> counts the backslashes just before
  the position. Go returns the index, \<open>length\<close> of the first part, and \<open>-1\<close> for \<open>None\<close>.
\<close>

fun find_delim :: "nat \<Rightarrow> string \<Rightarrow> bool \<Rightarrow> string \<Rightarrow> (string \<times> string) option" where
  "find_delim bs delim isBasic s =
     (case cut_prefix delim s of
        Some rest \<Rightarrow>
          if \<not> isBasic \<or> even bs then Some ([], rest)
          else (case s of [] \<Rightarrow> None | c # cs \<Rightarrow>
            map_option (apfst (Cons c)) (find_delim (if c = BSL then Suc bs else 0) delim isBasic cs))
      | None \<Rightarrow> (case s of [] \<Rightarrow> None | c # cs \<Rightarrow>
            map_option (apfst (Cons c)) (find_delim (if c = BSL then Suc bs else 0) delim isBasic cs)))"

declare find_delim.simps [simp del]

definition findUnescapedDelim :: "string \<Rightarrow> string \<Rightarrow> bool \<Rightarrow> (string \<times> string) option" where
  "findUnescapedDelim s delim isBasic = find_delim 0 delim isBasic s"

fun split_key :: "string \<Rightarrow> char option \<Rightarrow> string \<Rightarrow> string list" where
  "split_key cur q [] = [trim_space cur]"
| "split_key cur (Some q) (ch # cs) =
     (if ch = q then split_key cur None cs else split_key (cur @ [ch]) (Some q) cs)"
| "split_key cur None (ch # cs) =
     (if ch = DQ \<or> ch = SQ then split_key cur (Some ch) cs
      else if ch = CHR ''.'' then trim_space cur # split_key [] None cs
      else split_key (cur @ [ch]) None cs)"

definition splitTOMLKey :: "string \<Rightarrow> string list" where
  "splitTOMLKey key = split_key [] None key"

text \<open>The text before and after the first unquoted equals sign.\<close>

fun find_equals :: "char option \<Rightarrow> string \<Rightarrow> (string \<times> string) option" where
  "find_equals q [] = None"
| "find_equals (Some q) (ch # cs) =
     (if ch = BSL \<and> q = DQ
      then (case cs of [] \<Rightarrow> None
            | c2 # cs2 \<Rightarrow> map_option (apfst (\<lambda>p. ch # c2 # p)) (find_equals (Some q) cs2))
      else map_option (apfst (Cons ch)) (find_equals (if ch = q then None else Some q) cs))"
| "find_equals None (ch # cs) =
     (if ch = DQ \<or> ch = SQ then map_option (apfst (Cons ch)) (find_equals (Some ch) cs)
      else if ch = CHR ''='' then Some ([], cs)
      else map_option (apfst (Cons ch)) (find_equals None cs))"

definition findUnquotedEquals :: "string \<Rightarrow> (string \<times> string) option" where
  "findUnquotedEquals s = find_equals None s"

text \<open>The text before the first \<open>#\<close> outside quotes, and \<open>None\<close> when there is none.\<close>

fun find_comment :: "char option \<Rightarrow> string \<Rightarrow> string option" where
  "find_comment q [] = None"
| "find_comment (Some q) (ch # cs) =
     (if ch = BSL
      then (case cs of [] \<Rightarrow> None | c2 # cs2 \<Rightarrow> map_option (\<lambda>p. ch # c2 # p) (find_comment (Some q) cs2))
      else map_option (Cons ch) (find_comment (if ch = q then None else Some q) cs))"
| "find_comment None (ch # cs) =
     (if ch = DQ \<or> ch = SQ then map_option (Cons ch) (find_comment (Some ch) cs)
      else if ch = CHR ''#'' then Some []
      else map_option (Cons ch) (find_comment None cs))"

definition stripInlineComment :: "string \<Rightarrow> string" where
  "stripInlineComment s = (case find_comment None s of None \<Rightarrow> s | Some p \<Rightarrow> trim_space p)"

fun unescapeTOMLString :: "string \<Rightarrow> string" where
  "unescapeTOMLString [] = []"
| "unescapeTOMLString [ch] = [ch]"
| "unescapeTOMLString (ch # nxt # cs) =
     (if ch \<noteq> BSL then ch # unescapeTOMLString (nxt # cs)
      else (if nxt = BSL then [BSL]
            else if nxt = DQ then [DQ]
            else if nxt = CHR ''n'' then [NL]
            else if nxt = CHR ''t'' then [TAB]
            else if nxt = CHR ''r'' then [CR]
            else [BSL, nxt]) @ unescapeTOMLString cs)"

text \<open>Splitting at commas: nesting depth, open quote, and the piece read so far.\<close>

fun split_elements :: "int \<Rightarrow> char option \<Rightarrow> string \<Rightarrow> string \<Rightarrow> string list" where
  "split_elements depth q cur [] = (if cur = [] then [] else [cur])"
| "split_elements depth (Some q) cur (ch # cs) =
     (if ch = BSL
      then (case cs of [] \<Rightarrow> [cur @ [ch]]
            | c2 # cs2 \<Rightarrow> split_elements depth (Some q) (cur @ [ch, c2]) cs2)
      else split_elements depth (if ch = q then None else Some q) (cur @ [ch]) cs)"
| "split_elements depth None cur (ch # cs) =
     (if ch = DQ \<or> ch = SQ then split_elements depth (Some ch) (cur @ [ch]) cs
      else if ch = CHR ''['' \<or> ch = CHR ''{'' then split_elements (depth + 1) None (cur @ [ch]) cs
      else if ch = CHR '']'' \<or> ch = CHR ''}'' then split_elements (depth - 1) None (cur @ [ch]) cs
      else if ch = CHR '','' \<and> depth = 0 then cur # split_elements depth None [] cs
      else split_elements depth None (cur @ [ch]) cs)"

definition splitTOMLElements :: "string \<Rightarrow> string list" where
  "splitTOMLElements s = split_elements 0 None [] s"

section \<open>Numbers\<close>

definition isIntegerStr :: "string \<Rightarrow> bool" where
  "isIntegerStr s \<longleftrightarrow>
     (let body = (case s of [] \<Rightarrow> [] | c # cs \<Rightarrow> if c = CHR ''+'' \<or> c = CHR ''-'' then cs else s)
      in body \<noteq> [] \<and>
         (has_prefix ''0x'' body \<or> has_prefix ''0o'' body \<or> has_prefix ''0b'' body
          \<or> list_all (\<lambda>c. c = CHR ''_'' \<or> digit c) body))"

definition isFloatStr :: "string \<Rightarrow> bool" where
  "isFloatStr s \<longleftrightarrow>
     s \<in> {''inf'', ''+inf'', ''-inf'', ''nan'', ''+nan'', ''-nan''}
     \<or> list_ex (\<lambda>c. c = CHR ''.'') s \<or> list_ex (\<lambda>c. c = CHR ''e'' \<or> c = CHR ''E'') s"

text \<open>
  \<open>strconv.ParseInt(s, 0, 64)\<close> on text without underscores: an optional sign, a base pre
  (\<open>0b\<close>, \<open>0o\<close>, \<open>0x\<close>, or a leading zero for octal), then digits of that base; \<open>None\<close> is a
  syntax or range error.
\<close>

definition digit_value :: "char \<Rightarrow> nat option" where
  "digit_value c =
     (if digit c then Some (of_char c - 48)
      else let l = ascii_lower c in
           if CHR ''a'' \<le> l \<and> l \<le> CHR ''z'' then Some (of_char l - 97 + 10) else None)"

fun digits_value :: "nat \<Rightarrow> nat \<Rightarrow> string \<Rightarrow> nat option" where
  "digits_value base n [] = Some n"
| "digits_value base n (c # cs) =
     (case digit_value c of
        None \<Rightarrow> None
      | Some d \<Rightarrow> if d \<ge> base then None else digits_value base (n * base + d) cs)"

definition parse_uint :: "string \<Rightarrow> nat option" where
  "parse_uint s =
     (case s of
        [] \<Rightarrow> None
      | c # cs \<Rightarrow>
          if c = CHR ''0'' then
            (case cs of
               p # ds \<Rightarrow>
                 if ds \<noteq> [] \<and> ascii_lower p = CHR ''b'' then digits_value 2 0 ds
                 else if ds \<noteq> [] \<and> ascii_lower p = CHR ''o'' then digits_value 8 0 ds
                 else if ds \<noteq> [] \<and> ascii_lower p = CHR ''x'' then digits_value 16 0 ds
                 else digits_value 8 0 cs
             | [] \<Rightarrow> Some 0)
          else digits_value 10 0 s)"

definition in_int64 :: "int \<Rightarrow> bool" where
  "in_int64 i \<longleftrightarrow> - (2 ^ 63) \<le> i \<and> i < 2 ^ 63"

definition parse_int :: "string \<Rightarrow> int option" where
  "parse_int s =
     (let (neg, body) = (case s of [] \<Rightarrow> (False, [])
            | c # cs \<Rightarrow> if c = CHR ''+'' then (False, cs) else if c = CHR ''-'' then (True, cs) else (False, s));
          n = parse_uint body
      in case n of None \<Rightarrow> None
         | Some m \<Rightarrow> let i = (if neg then - int m else int m) in if in_int64 i then Some i else None)"

section \<open>Values\<close>

definition after_string :: "'a \<Rightarrow> string \<Rightarrow> toml_error + 'a" where
  "after_string v rest =
     (let remainder = trim_space rest in
      if remainder \<noteq> [] \<and> hd remainder \<noteq> CHR ''#'' then Inl (UnexpectedContent remainder) else Inr v)"

definition parse_string_value :: "string \<Rightarrow> toml_error + string" where
  "parse_string_value s =
     (if has_prefix DQ3 s then
        (case findUnescapedDelim (drop 3 s) DQ3 True of
           None \<Rightarrow> Inl UnterminatedMultilineBasic
         | Some (v, rest) \<Rightarrow> after_string (unescapeTOMLString v) rest)
      else if has_prefix SQ3 s then
        (case findUnescapedDelim (drop 3 s) SQ3 False of
           None \<Rightarrow> Inl UnterminatedMultilineLiteral
         | Some (v, rest) \<Rightarrow> after_string v rest)
      else if hd s = DQ then
        (case findUnescapedDelim (tl s) [DQ] True of
           None \<Rightarrow> Inl UnterminatedBasic
         | Some (v, rest) \<Rightarrow> after_string (unescapeTOMLString v) rest)
      else
        (case findUnescapedDelim (tl s) [SQ] False of
           None \<Rightarrow> Inl UnterminatedLiteral
         | Some (v, rest) \<Rightarrow> after_string v rest))"

definition parse_number :: "'f float_ops \<Rightarrow> string \<Rightarrow> toml_error + 'f goval" where
  "parse_number ops s =
     (let cleaned = filter (\<lambda>c. c \<noteq> CHR ''_'') s;
          n = (if isIntegerStr s then parse_int cleaned else None);
          f = (if isFloatStr s then ParseFloat ops cleaned else None)
      in case n of Some i \<Rightarrow> Inr (GInt i)
         | None \<Rightarrow> (case f of Some x \<Rightarrow> Inr (GFloat x) | None \<Rightarrow> Inl (InvalidTomlValue s)))"

definition ensureTable :: "'f goval gomap \<Rightarrow> string \<Rightarrow> toml_error + 'f goval gomap" where
  "ensureTable m key =
     (case map_of m key of
        None \<Rightarrow> Inr []
      | Some (GObj tbl) \<Rightarrow> Inr tbl
      | Some _ \<Rightarrow> Inl (TableConflict key))"

text \<open>Opening (or creating) the tables along \<open>ks\<close> and changing the innermost one.\<close>

fun with_tables :: "string list \<Rightarrow> ('f goval gomap \<Rightarrow> toml_error + 'f goval gomap)
    \<Rightarrow> 'f goval gomap \<Rightarrow> toml_error + 'f goval gomap" where
  "with_tables [] f m = f m"
| "with_tables (k # ks) f m =
     rbind (ensureTable m k) (\<lambda>tbl. rbind (with_tables ks f tbl) (\<lambda>tbl'. Inr (mput k (GObj tbl') m)))"

definition inner_of :: "string \<Rightarrow> string" where
  "inner_of s = trim_space (take (length s - 2) (drop 1 s))"

lemma length_trim_space: "length (trim_space s) \<le> length s"
proof -
  obtain p where p: "s = p @ trim_left s" using trim_left_suffix by blast
  obtain q where q: "rev (trim_left s) = q @ trim_left_rev (rev (trim_left s))"
    using trim_left_rev_suffix by blast
  have "length (trim_left s) \<le> length s" by (metis p length_append le_add2)
  moreover have "length (trim_left_rev (rev (trim_left s))) \<le> length (trim_left s)"
    by (metis q length_append length_rev le_add2)
  ultimately show ?thesis by (simp add: trim_space_def)
qed

lemma length_find_comment: "find_comment q s = Some p \<Longrightarrow> length p \<le> length s"
  by (induction q s arbitrary: p rule: find_comment.induct) (auto split: if_splits list.splits)

lemma length_stripInlineComment: "length (stripInlineComment s) \<le> length s"
proof (cases "find_comment None s")
  case (Some p)
  then show ?thesis
    using length_find_comment [OF Some] length_trim_space [of p] by (simp add: stripInlineComment_def)
qed (simp add: stripInlineComment_def)

lemma find_equals_split: "find_equals q s = Some (a, b) \<Longrightarrow> s = a @ CHR ''='' # b"
  by (induction q s arbitrary: a b rule: find_equals.induct) (auto split: if_splits list.splits)

lemma findUnquotedEquals_split: "findUnquotedEquals s = Some (a, b) \<Longrightarrow> s = a @ CHR ''='' # b"
  by (simp add: findUnquotedEquals_def find_equals_split)

lemma length_split_elements:
  "sum_list (map (\<lambda>e. Suc (length e)) (split_elements d q cur s)) \<le> length cur + length s + 1"
  by (induction d q cur s rule: split_elements.induct) (auto split: list.splits)

lemma length_elements_inner:
  assumes "length s \<ge> 2"
  shows "sum_list (map (\<lambda>e. Suc (length e)) (splitTOMLElements (inner_of s))) < length s"
proof -
  have "length (inner_of s) \<le> length s - 2"
    using length_trim_space [of "take (length s - 2) (drop 1 s)"] by (simp add: inner_of_def)
  then show ?thesis
    using length_split_elements [of 0 None "[]" "inner_of s"] assms
    by (simp add: splitTOMLElements_def)
qed

text \<open>A bracketed text of one byte has no closing bracket.\<close>

definition bracketed :: "char \<Rightarrow> char \<Rightarrow> string \<Rightarrow> bool" where
  "bracketed a b s \<longleftrightarrow> has_prefix [a] s \<and> has_suffix [b] s"

lemma bracketed_length: "bracketed a b s \<Longrightarrow> a \<noteq> b \<Longrightarrow> length s \<ge> 2"
proof -
  assume "bracketed a b s" "a \<noteq> b"
  then obtain r r' where "s = [a] @ r" "s = r' @ [b]" unfolding bracketed_def has_prefix_iff has_suffix_iff by blast
  then have "hd s = a" "s \<noteq> []" "last s = b" by (simp, simp, metis last_snoc)
  then show ?thesis using \<open>a \<noteq> b\<close> by (cases s; cases "tl s") auto
qed

function (sequential) parseTOMLValue :: "'f float_ops \<Rightarrow> string \<Rightarrow> toml_error + 'f goval"
  and parse_array_elems :: "'f float_ops \<Rightarrow> string list \<Rightarrow> toml_error + 'f goval list"
  and parse_table_elems :: "'f float_ops \<Rightarrow> string list \<Rightarrow> 'f goval gomap \<Rightarrow> toml_error + 'f goval gomap" where
  "parseTOMLValue ops s0 =
     (if trim_space s0 = [] then Inl EmptyTomlValue
      else if hd s0 = DQ \<or> hd s0 = SQ then rbind (parse_string_value s0) (\<lambda>v. Inr (GStr v))
      else let s = trim_space (stripInlineComment s0) in
        if s = [] then Inl EmptyValueText
        else if s = ''true'' then Inr (GBool True)
        else if s = ''false'' then Inr (GBool False)
        else if hd s = CHR ''['' then
          (if \<not> bracketed (CHR ''['') (CHR '']'') s then Inl (InvalidArray s)
           else rbind (parse_array_elems ops (splitTOMLElements (inner_of s))) (\<lambda>vs. Inr (GArr vs)))
        else if hd s = CHR ''{'' then
          (if \<not> bracketed (CHR ''{'') (CHR ''}'') s then Inl (InvalidInlineTable s)
           else rbind (parse_table_elems ops (splitTOMLElements (inner_of s)) []) (\<lambda>m. Inr (GObj m)))
        else parse_number ops s)"
| "parse_array_elems ops [] = Inr []"
| "parse_array_elems ops (e # es) =
     (let elem = trim_space e in
      if elem = [] then parse_array_elems ops es
      else rbind (parseTOMLValue ops elem) (\<lambda>v. rbind (parse_array_elems ops es) (\<lambda>vs. Inr (v # vs))))"
| "parse_table_elems ops [] result = Inr result"
| "parse_table_elems ops (e # es) result =
     (let elem = trim_space e in
      if elem = [] then parse_table_elems ops es result
      else case findUnquotedEquals elem of
             None \<Rightarrow> Inl (ExpectedPair elem)
           | Some (rawKey, valStr) \<Rightarrow>
               rbind (parseTOMLValue ops (trim_space valStr)) (\<lambda>val.
                 let parts = splitTOMLKey (trim_space rawKey) in
                 rbind (with_tables (butlast parts) (\<lambda>t. Inr (mput (last parts) val t)) result)
                   (parse_table_elems ops es)))"
  by pat_completeness auto

termination
proof (relation "measure (\<lambda>x. case x of
    Inl (ops, s) \<Rightarrow> length s
  | Inr (Inl (ops, es)) \<Rightarrow> sum_list (map (\<lambda>e. Suc (length e)) es)
  | Inr (Inr (ops, es, m)) \<Rightarrow> sum_list (map (\<lambda>e. Suc (length e)) es))", goal_cases)
  case 1
  then show ?case by simp
next
  case (2 ops s0 s)
  then have "length s \<ge> 2" using bracketed_length by fastforce
  then have "sum_list (map (\<lambda>e. Suc (length e)) (splitTOMLElements (inner_of s))) < length s"
    by (rule length_elements_inner)
  moreover have "length s \<le> length s0"
    using 2(3) length_trim_space length_stripInlineComment le_trans by blast
  ultimately show ?case by simp
next
  case (3 ops s0 s)
  then have "length s \<ge> 2" using bracketed_length by fastforce
  then have "sum_list (map (\<lambda>e. Suc (length e)) (splitTOMLElements (inner_of s))) < length s"
    by (rule length_elements_inner)
  moreover have "length s \<le> length s0"
    using 3(3) length_trim_space length_stripInlineComment le_trans by blast
  ultimately show ?case by simp
next
  case (5 ops e es elem)
  then show ?case using length_trim_space [of e] by simp
next
  case (8 ops e es result elem x2 rawKey valStr)
  have "length (trim_space valStr) \<le> length elem"
    using 8 findUnquotedEquals_split [of elem rawKey valStr] length_trim_space [of valStr] by simp
  then show ?case using 8 length_trim_space [of e] by simp
qed simp_all

declare parseTOMLValue.simps [simp del]

section \<open>Documents\<close>

text \<open>
  The current table: the keys it was opened with, and whether it is the last element of an
  array of tables there.
\<close>

type_synonym toml_loc = "string list \<times> bool"

definition append_table :: "string \<Rightarrow> string \<Rightarrow> 'f goval gomap \<Rightarrow> toml_error + 'f goval gomap" where
  "append_table name key parent =
     (case map_of parent key of
        None \<Rightarrow> Inr (mput key (GArr [GObj []]) parent)
      | Some GNil \<Rightarrow> Inr (mput key (GArr [GObj []]) parent)
      | Some (GArr arr) \<Rightarrow> Inr (mput key (GArr (arr @ [GObj []])) parent)
      | Some _ \<Rightarrow> Inl (CannotRedefine name))"

definition in_last_table :: "string \<Rightarrow> ('f goval gomap \<Rightarrow> toml_error + 'f goval gomap)
    \<Rightarrow> 'f goval gomap \<Rightarrow> toml_error + 'f goval gomap" where
  "in_last_table k f m =
     (case map_of m k of
        Some (GArr vs) \<Rightarrow>
          (case (if vs = [] then GNil else last vs) of
             GObj t \<Rightarrow> rbind (f t) (\<lambda>t'. Inr (mput k (GArr (butlast vs @ [GObj t'])) m))
           | _ \<Rightarrow> Inl (TableConflict k))
      | _ \<Rightarrow> Inl (TableConflict k))"

definition at_loc :: "toml_loc \<Rightarrow> ('f goval gomap \<Rightarrow> toml_error + 'f goval gomap)
    \<Rightarrow> 'f goval gomap \<Rightarrow> toml_error + 'f goval gomap" where
  "at_loc loc f root =
     (if snd loc then with_tables (butlast (fst loc)) (in_last_table (last (fst loc)) f) root
      else with_tables (fst loc) f root)"

fun at_line :: "nat \<Rightarrow> toml_error + 'a \<Rightarrow> toml_error + 'a" where
  "at_line i (Inl e) = Inl (AtLine (i + 1) e)"
| "at_line i (Inr v) = Inr v"

definition parse_header :: "string \<Rightarrow> 'f goval gomap \<Rightarrow> toml_error + 'f goval gomap \<times> toml_loc" where
  "parse_header line root =
     (if has_prefix ''[['' line then
        if length line < 4 \<or> \<not> has_suffix '']]'' line then Inl UnterminatedArrayOfTables
        else let name = trim_space (take (length line - 4) (drop 2 line));
                 parts = splitTOMLKey name
             in rbind (with_tables (butlast parts) (append_table name (last parts)) root)
                  (\<lambda>root'. Inr (root', (parts, True)))
      else if \<not> has_suffix '']'' line then Inl UnterminatedHeader
      else let parts = splitTOMLKey (inner_of line)
           in rbind (with_tables parts Inr root) (\<lambda>root'. Inr (root', (parts, False))))"

text \<open>The lines up to the closing delimiter, joined to the text, and the lines left.\<close>

fun take_multiline :: "string \<Rightarrow> bool \<Rightarrow> string \<Rightarrow> nat \<Rightarrow> string list \<Rightarrow> (string \<times> nat \<times> string list) option" where
  "take_multiline delim isBasic buf n [] = None"
| "take_multiline delim isBasic buf n (l # ls) =
     (if findUnescapedDelim l delim isBasic \<noteq> None then Some (buf @ NL # l, Suc n, ls)
      else take_multiline delim isBasic (buf @ NL # l) (Suc n) ls)"

text \<open>The value text of a pair, the number of further lines read and the lines left.\<close>

definition value_text :: "string \<Rightarrow> string list \<Rightarrow> (string \<times> nat \<times> string list) option" where
  "value_text valStr ls =
     (if \<not> isMultiLineStringStart valStr then Some (valStr, 0, ls)
      else let delim = take 3 valStr; isBasic = (delim = DQ3) in
           if findUnescapedDelim (drop 3 valStr) delim isBasic \<noteq> None then Some (valStr, 0, ls)
           else take_multiline delim isBasic valStr 0 ls)"

definition store_pair :: "'f float_ops \<Rightarrow> toml_loc \<Rightarrow> string \<Rightarrow> string
    \<Rightarrow> 'f goval gomap \<Rightarrow> toml_error + 'f goval gomap" where
  "store_pair ops loc key valStr root =
     (let parts = splitTOMLKey key in
      at_loc loc (with_tables (butlast parts)
        (\<lambda>t. rbind (parseTOMLValue ops valStr) (\<lambda>val. Inr (mput (last parts) val t)))) root)"

lemma take_multiline_length:
  "take_multiline delim isBasic buf n ls = Some (v, k, rest) \<Longrightarrow> length rest \<le> length ls"
  by (induction ls arbitrary: buf n) (auto split: if_splits intro: le_SucI)

lemma value_text_length: "value_text valStr ls = Some (v, k, rest) \<Longrightarrow> length rest \<le> length ls"
  by (auto simp: value_text_def Let_def split: if_splits dest: take_multiline_length)

function (sequential) parse_lines :: "'f float_ops \<Rightarrow> nat \<Rightarrow> string list \<Rightarrow> 'f goval gomap \<Rightarrow> toml_loc
    \<Rightarrow> toml_error + 'f goval gomap" where
  "parse_lines ops i [] root current = Inr root"
| "parse_lines ops i (l # ls) root current =
     (let line = trim_space l in
      if line = [] \<or> hd line = CHR ''#'' then parse_lines ops (Suc i) ls root current
      else if hd line = CHR ''['' then
        rbind (at_line i (parse_header (stripInlineComment line) root))
          (\<lambda>(root', current'). parse_lines ops (Suc i) ls root' current')
      else case findUnquotedEquals line of
             None \<Rightarrow> Inl (AtLine (i + 1) ExpectedKeyValue)
           | Some (k, v) \<Rightarrow>
               (case value_text (trim_space v) ls of
                  None \<Rightarrow> Inl (AtLine (i + length (l # ls) + 1) UnterminatedMultiline)
                | Some (valStr, n, rest) \<Rightarrow>
                    rbind (at_line (i + n) (store_pair ops current (trim_space k) valStr root))
                      (\<lambda>root'. parse_lines ops (Suc (i + n)) rest root' current)))"
  by pat_completeness auto

termination
  by (relation "measure (\<lambda>(ops, i, ls, root, current). length ls)")
     (auto dest!: value_text_length)

definition parseTOML :: "'f float_ops \<Rightarrow> string \<Rightarrow> toml_error + 'f goval gomap" where
  "parseTOML ops input = parse_lines ops 0 (split_ch NL input) [] ([], False)"

section \<open>Writing\<close>

definition escape_basic :: "string \<Rightarrow> string" where
  "escape_basic s =
     replace_all [CR] [BSL, CHR ''r''] (replace_all [TAB] [BSL, CHR ''t'']
       (replace_all [NL] [BSL, CHR ''n''] (replace_all [DQ] [BSL, DQ] (replace_all [BSL] [BSL, BSL] s))))"

definition bare_char :: "char \<Rightarrow> bool" where
  "bare_char ch \<longleftrightarrow>
     (CHR ''a'' \<le> ch \<and> ch \<le> CHR ''z'') \<or> (CHR ''A'' \<le> ch \<and> ch \<le> CHR ''Z'')
     \<or> (CHR ''0'' \<le> ch \<and> ch \<le> CHR ''9'') \<or> ch = CHR ''-'' \<or> ch = CHR ''_''"

definition encodeTOMLKey :: "string \<Rightarrow> string" where
  "encodeTOMLKey key =
     (if list_all bare_char key \<and> key \<noteq> [] then key
      else [DQ] @ replace_all [DQ] [BSL, DQ] (replace_all [BSL] [BSL, BSL] key) @ [DQ])"

definition encodeTOMLHeaderKey :: "string \<Rightarrow> string \<Rightarrow> string" where
  "encodeTOMLHeaderKey pre key =
     (let segment = encodeTOMLKey key in if pre \<noteq> [] then pre @ ''.'' @ segment else segment)"

definition encode_string :: "string \<Rightarrow> string" where
  "encode_string s = [DQ] @ escape_basic s @ [DQ]"

definition encode_float :: "'f float_ops \<Rightarrow> 'f \<Rightarrow> string" where
  "encode_float ops v =
     (if IsPosInf ops v then ''inf'' else if IsNegInf ops v then ''-inf''
      else if IsNaN ops v then ''nan''
      else let s = FormatFloat ops v in
           if \<not> list_ex (\<lambda>c. c \<in> {CHR ''.'', CHR ''e'', CHR ''E''}) s then s @ ''.0'' else s)"

text \<open>A \<open>json.Number\<close> is one of the unsupported types: its text becomes a string.\<close>

fun encodeTOMLScalar :: "'f float_ops \<Rightarrow> 'f goval \<Rightarrow> string" where
  "encodeTOMLScalar ops (GStr s) = encode_string s"
| "encodeTOMLScalar ops (GBool b) = (if b then ''true'' else ''false'')"
| "encodeTOMLScalar ops (GInt i) = show_int i"
| "encodeTOMLScalar ops (GFloat x) = encode_float ops x"
| "encodeTOMLScalar ops (GNum n) = encode_string n"
| "encodeTOMLScalar ops v = [DQ, DQ]"

fun encodeTOMLInlineValue :: "'f float_ops \<Rightarrow> 'f goval \<Rightarrow> string"
  and encode_elems :: "'f float_ops \<Rightarrow> 'f goval list \<Rightarrow> string list"
  and encode_pairs :: "'f float_ops \<Rightarrow> 'f goval gomap \<Rightarrow> string list" where
  "encodeTOMLInlineValue ops (GObj m) = ''{'' @ join_str '', '' (encode_pairs ops m) @ ''}''"
| "encodeTOMLInlineValue ops (GArr vs) = ''['' @ join_str '', '' (encode_elems ops vs) @ '']''"
| "encodeTOMLInlineValue ops v = encodeTOMLScalar ops v"
| "encode_elems ops [] = []"
| "encode_elems ops (v # vs) = encodeTOMLInlineValue ops v # encode_elems ops vs"
| "encode_pairs ops [] = []"
| "encode_pairs ops ((k, v) # m) =
     (encodeTOMLKey k @ '' = '' @ encodeTOMLInlineValue ops v) # encode_pairs ops m"

definition encodeTOMLArrayValue :: "'f float_ops \<Rightarrow> 'f goval list \<Rightarrow> string" where
  "encodeTOMLArrayValue ops vs = ''['' @ join_str '', '' (encode_elems ops vs) @ '']''"

definition isArrayOfTables :: "'f goval list \<Rightarrow> bool" where
  "isArrayOfTables vs \<longleftrightarrow> vs \<noteq> [] \<and> list_all is_obj vs"

text \<open>The first loop: scalars and inline arrays.\<close>

fun encode_scalars :: "'f float_ops \<Rightarrow> string \<Rightarrow> 'f goval gomap \<Rightarrow> string" where
  "encode_scalars ops buf [] = buf"
| "encode_scalars ops buf ((k, GObj t) # m) = encode_scalars ops buf m"
| "encode_scalars ops buf ((k, GArr vs) # m) =
     (if isArrayOfTables vs then encode_scalars ops buf m
      else encode_scalars ops (buf @ encodeTOMLKey k @ '' = '' @ encodeTOMLArrayValue ops vs @ [NL]) m)"
| "encode_scalars ops buf ((k, v) # m) =
     encode_scalars ops (buf @ encodeTOMLKey k @ '' = '' @ encodeTOMLScalar ops v @ [NL]) m"

definition open_header :: "string \<Rightarrow> string \<Rightarrow> string \<Rightarrow> string \<Rightarrow> string" where
  "open_header buf l fullKey r = (if buf \<noteq> [] then buf @ [NL] else buf) @ l @ fullKey @ r @ [NL]"

text \<open>The second loop: sub-tables and arrays of tables, each through the whole encoder.\<close>

fun encodeTOML :: "'f float_ops \<Rightarrow> string \<Rightarrow> 'f goval gomap \<Rightarrow> string \<Rightarrow> string"
  and encode_tables :: "'f float_ops \<Rightarrow> string \<Rightarrow> 'f goval gomap \<Rightarrow> string \<Rightarrow> string"
  and encode_array_tables :: "'f float_ops \<Rightarrow> string \<Rightarrow> 'f goval list \<Rightarrow> string \<Rightarrow> string" where
  "encodeTOML ops buf m pre = encode_tables ops (encode_scalars ops buf m) m pre"
| "encode_tables ops buf [] pre = buf"
| "encode_tables ops buf ((k, GObj t) # m) pre =
     (let fullKey = encodeTOMLHeaderKey pre k
      in encode_tables ops (encodeTOML ops (open_header buf ''['' fullKey '']'') t fullKey) m pre)"
| "encode_tables ops buf ((k, GArr vs) # m) pre =
     (if isArrayOfTables vs
      then encode_tables ops (encode_array_tables ops buf vs (encodeTOMLHeaderKey pre k)) m pre
      else encode_tables ops buf m pre)"
| "encode_tables ops buf (_ # m) pre = encode_tables ops buf m pre"
| "encode_array_tables ops buf [] fullKey = buf"
| "encode_array_tables ops buf (GObj t # vs) fullKey =
     encode_array_tables ops (encodeTOML ops (open_header buf ''[['' fullKey '']]'') t fullKey) vs fullKey"
| "encode_array_tables ops buf (_ # vs) fullKey = encode_array_tables ops buf vs fullKey"

section \<open>Merging\<close>

fun deepMergeTOML :: "'f goval gomap \<Rightarrow> 'f goval gomap \<Rightarrow> 'f goval gomap" where
  "deepMergeTOML dst [] = dst"
| "deepMergeTOML dst ((key, srcVal) # src) =
     (case map_of dst key of
        None \<Rightarrow> deepMergeTOML (mput key srcVal dst) src
      | Some dstVal \<Rightarrow>
          (case (dstVal, srcVal) of
             (GObj dstMap, GObj srcMap) \<Rightarrow>
               deepMergeTOML (mput key (GObj (deepMergeTOML dstMap srcMap)) dst) src
           | _ \<Rightarrow> deepMergeTOML (mput key srcVal dst) src))"

section \<open>The merge is the JSON merge without tombstones\<close>

lemma deepMergeTOML_eq: "deepMergeTOML dst src = deepMergeJSON dst src False"
  by (induction dst src rule: deepMergeTOML.induct)
     (auto simp: deepMergeJSON.simps split: option.splits goval.splits)

interpretation toml: merge_contract
  deepMergeTOML wf_map wf_map "\<lambda>d. look (GObj d)" "\<lambda>s. misses (GObj s)" "json_fixes False"
  unfolding deepMergeTOML_eq [abs_def] by (rule json.merge_contract_axioms)

section \<open>What the reader produces\<close>

text \<open>A value of a TOML document: no nil, no \<open>json.Number\<close>, integers of 64 bits.\<close>

fun toml_val :: "'f goval \<Rightarrow> bool"
  and toml_fields :: "'f goval gomap \<Rightarrow> bool"
  and toml_elems :: "'f goval list \<Rightarrow> bool" where
  "toml_val GNil = False"
| "toml_val (GNum n) = False"
| "toml_val (GInt i) = in_int64 i"
| "toml_val (GArr vs) = toml_elems vs"
| "toml_val (GObj m) = (keys_ok m \<and> toml_fields m)"
| "toml_val v = True"
| "toml_fields [] = True"
| "toml_fields ((k, v) # m) = (toml_val v \<and> toml_fields m)"
| "toml_elems [] = True"
| "toml_elems (v # vs) = (toml_val v \<and> toml_elems vs)"

definition toml_doc :: "'f goval gomap \<Rightarrow> bool" where
  "toml_doc m \<longleftrightarrow> keys_ok m \<and> toml_fields m"

lemma toml_val_GObj [simp]: "toml_val (GObj m) \<longleftrightarrow> toml_doc m"
  by (simp add: toml_doc_def)

declare toml_val.simps(5) [simp del]

lemma toml_fields_iff: "toml_fields m \<longleftrightarrow> (\<forall>p \<in> set m. toml_val (snd p))"
  by (induction m) auto

lemma toml_elems_iff: "toml_elems vs \<longleftrightarrow> (\<forall>v \<in> set vs. toml_val v)"
  by (induction vs) auto

lemma toml_doc_Nil [simp]: "toml_doc []"
  by (simp add: toml_doc_def)

lemma toml_doc_mput: "toml_doc m \<Longrightarrow> toml_val v \<Longrightarrow> toml_doc (mput k v m)"
  using set_mput_sub [of k v m] by (fastforce simp: toml_doc_def toml_fields_iff)

lemma toml_doc_get: "toml_doc m \<Longrightarrow> map_of m k = Some v \<Longrightarrow> toml_val v"
  by (fastforce simp: toml_doc_def toml_fields_iff dest: map_of_SomeD)

lemma toml_wf: "toml_val v \<Longrightarrow> wf_val v"
  and toml_wf_fields: "toml_fields m \<Longrightarrow> wf_fields m"
  and toml_wf_elems: "toml_elems vs \<Longrightarrow> wf_elems vs"
  for v :: "'f goval" and m :: "'f goval gomap" and vs :: "'f goval list"
  by (induction v and m and vs rule: toml_val_toml_fields_toml_elems.induct)
     (auto simp: toml_doc_def wf_map_def)

lemma toml_doc_wf: "toml_doc m \<Longrightarrow> wf_map m"
  by (simp add: toml_doc_def wf_map_def toml_wf_fields)

text \<open>A change of one table keeps the documents around it well-formed.\<close>

definition keeps_toml :: "('f goval gomap \<Rightarrow> toml_error + 'f goval gomap) \<Rightarrow> bool" where
  "keeps_toml f \<longleftrightarrow> (\<forall>m m'. toml_doc m \<longrightarrow> f m = Inr m' \<longrightarrow> toml_doc m')"

lemma keepsD: "keeps_toml f \<Longrightarrow> toml_doc m \<Longrightarrow> f m = Inr m' \<Longrightarrow> toml_doc m'"
  by (simp add: keeps_toml_def)

lemma ensureTable_toml: "toml_doc m \<Longrightarrow> ensureTable m k = Inr t \<Longrightarrow> toml_doc t"
  using toml_doc_get [of m k] by (auto simp: ensureTable_def split: option.splits goval.splits)

lemma keeps_with_tables: "keeps_toml f \<Longrightarrow> keeps_toml (with_tables ks f)"
proof (induction ks)
  case (Cons k ks)
  then have ih: "keeps_toml (with_tables ks f)" by simp
  show ?case unfolding keeps_toml_def
  proof (intro allI impI)
    fix m m'
    assume m: "toml_doc m" and "with_tables (k # ks) f m = Inr m'"
    then obtain t t' where t: "ensureTable m k = Inr t" "with_tables ks f t = Inr t'"
        "m' = mput k (GObj t') m"
      by (auto simp: rbind_Inr_iff)
    then have "toml_doc t'" using ih ensureTable_toml [OF m] unfolding keeps_toml_def by blast
    then show "toml_doc m'" using m t(3) by (simp add: toml_doc_mput)
  qed
qed (simp add: keeps_toml_def)

lemma keeps_append_table: "keeps_toml (append_table name k)"
  unfolding keeps_toml_def
  by (auto simp: append_table_def toml_elems_iff intro!: toml_doc_mput split: option.splits goval.splits
      dest: toml_doc_get)

lemma keeps_in_last_table: "keeps_toml f \<Longrightarrow> keeps_toml (in_last_table k f)"
  unfolding keeps_toml_def
proof (intro allI impI)
  fix m m'
  assume f: "\<forall>m m'. toml_doc m \<longrightarrow> f m = Inr m' \<longrightarrow> toml_doc m'" and m: "toml_doc m"
    and "in_last_table k f m = Inr m'"
  then obtain vs t t' where vs: "map_of m k = Some (GArr vs)" "vs \<noteq> []" "last vs = GObj t" "f t = Inr t'"
      "m' = mput k (GArr (butlast vs @ [GObj t'])) m"
    by (auto simp: in_last_table_def rbind_Inr_iff split: option.splits goval.splits if_splits)
  have "\<forall>v \<in> set vs. toml_val v" using toml_doc_get [OF m vs(1)] by (simp add: toml_elems_iff)
  moreover from this vs(2,3) have "toml_doc t" using last_in_set [OF vs(2)] by force
  then have "toml_doc t'" using f vs(4) by blast
  ultimately show "toml_doc m'"
    using m unfolding vs(5) by (intro toml_doc_mput) (auto simp: toml_elems_iff dest!: in_set_butlastD)
qed

lemma keeps_at_loc: "keeps_toml f \<Longrightarrow> keeps_toml (at_loc loc f)"
proof -
  assume f: "keeps_toml f"
  have "keeps_toml (with_tables (butlast (fst loc)) (in_last_table (last (fst loc)) f))"
    and "keeps_toml (with_tables (fst loc) f)"
    by (rule keeps_with_tables, rule keeps_in_last_table, rule f) (rule keeps_with_tables, rule f)
  then show ?thesis by (cases "snd loc") (simp_all add: at_loc_def [abs_def])
qed

lemma checked_Some:
  "(case n of None \<Rightarrow> None | Some m \<Rightarrow> let i = e m in if P i then Some i else None) = Some i \<Longrightarrow> P i"
  by (auto simp: Let_def split: option.split_asm if_split_asm)

lemma parse_int_range: "parse_int s = Some i \<Longrightarrow> in_int64 i"
  unfolding parse_int_def Let_def [of _ "\<lambda>n. case n of None \<Rightarrow> None | Some m \<Rightarrow> f m" for f]
  by (simp only: Let_def case_prod_beta) (erule checked_Some [unfolded Let_def])

lemma parse_number_toml: "parse_number ops s = Inr v \<Longrightarrow> toml_val v"
  by (auto simp: parse_number_def Let_def split: option.splits if_splits dest: parse_int_range)

lemma parse_values_toml:
  "\<forall>v. parseTOMLValue ops s = Inr v \<longrightarrow> toml_val v"
  "\<forall>vs. parse_array_elems ops es = Inr vs \<longrightarrow> toml_elems vs"
  "\<forall>m'. toml_doc m \<longrightarrow> parse_table_elems ops es m = Inr m' \<longrightarrow> toml_doc m'"
proof (induction ops s and ops es and ops es m rule: parseTOMLValue_parse_array_elems_parse_table_elems.induct)
  case (1 ops s0)
  show ?case
  proof (intro allI impI)
    fix v
    assume "parseTOMLValue ops s0 = Inr v"
    then show "toml_val v"
      using 1 by (subst (asm) parseTOMLValue.simps)
        (auto simp: Let_def rbind_Inr_iff split: if_splits dest: parse_number_toml)
  qed
next
  case (3 ops e es)
  then show ?case by (auto simp: Let_def rbind_Inr_iff split: if_splits)
next
  case (5 ops e es result)
  show ?case
  proof (intro allI impI)
    fix m'
    assume doc: "toml_doc result" and p: "parse_table_elems ops (e # es) result = Inr m'"
    show "toml_doc m'"
    proof (cases "trim_space e = []")
      case True
      then show ?thesis using 5(1) doc p by simp
    next
      case False
      then obtain k t v r where kv: "findUnquotedEquals (trim_space e) = Some (k, t)"
          "parseTOMLValue ops (trim_space t) = Inr v"
          "with_tables (butlast (splitTOMLKey (trim_space k)))
             (\<lambda>tb. Inr (mput (last (splitTOMLKey (trim_space k))) v tb)) result = Inr r"
          "parse_table_elems ops es r = Inr m'"
        using p by (auto simp: Let_def rbind_Inr_iff split: option.splits)
      have "toml_val v" using 5(2) False kv(1,2) by simp
      then have "keeps_toml (\<lambda>tb. Inr (mput (last (splitTOMLKey (trim_space k))) v tb))"
        by (auto simp: keeps_toml_def toml_doc_mput)
      then have "toml_doc r" by (rule keepsD [OF keeps_with_tables doc kv(3)])
      then show ?thesis using 5(3) False kv by auto
    qed
  qed
qed auto

lemma parse_header_toml:
  assumes "toml_doc root" "parse_header line root = Inr (r, c)"
  shows "toml_doc r"
proof -
  have "keeps_toml (with_tables ks Inr)" and "keeps_toml (with_tables ks (append_table n k))" for ks n k
    by (rule keeps_with_tables, simp add: keeps_toml_def) (rule keeps_with_tables, rule keeps_append_table)
  note keep = this [THEN keepsD, OF assms(1)]
  show ?thesis
    using assms(2) by (auto simp: parse_header_def Let_def rbind_Inr_iff split: if_split_asm intro: keep)
qed

lemma at_line_Inr [simp]: "at_line i r = Inr x \<longleftrightarrow> r = Inr x"
  by (cases r) auto

lemma parse_lines_toml:
  "toml_doc root \<Longrightarrow> parse_lines ops i ls root cur = Inr m \<Longrightarrow> toml_doc m"
proof (induction ops i ls root cur rule: parse_lines.induct)
  case (2 ops i l ls root cur)
  let ?line = "trim_space l"
  consider (skip) "?line = [] \<or> hd ?line = CHR ''#''"
    | (hdr) "?line \<noteq> []" "hd ?line \<noteq> CHR ''#''" "hd ?line = CHR ''[''"
    | (pair) "?line \<noteq> []" "hd ?line \<noteq> CHR ''#''" "hd ?line \<noteq> CHR ''[''" by blast
  then show ?case
  proof cases
    case skip
    then show ?thesis using 2 by auto
  next
    case hdr
    then obtain r c where h: "at_line i (parse_header (stripInlineComment ?line) root) = Inr (r, c)"
        "parse_lines ops (Suc i) ls r c = Inr m"
      using "2.prems"(2) by (auto simp: Let_def rbind_Inr_iff)
    then have "toml_doc r" using parse_header_toml "2.prems"(1) by simp
    then show ?thesis using 2(2) hdr h by auto
  next
    case pair
    then obtain k v vt n rest r where h: "findUnquotedEquals ?line = Some (k, v)"
        "value_text (trim_space v) ls = Some (vt, n, rest)"
        "at_line (i + n) (store_pair ops cur (trim_space k) vt root) = Inr r"
        "parse_lines ops (Suc (i + n)) rest r cur = Inr m"
      using "2.prems"(2) by (auto simp: Let_def rbind_Inr_iff split: option.splits)
    then have st: "store_pair ops cur (trim_space k) vt root = Inr r" by simp
    let ?parts = "splitTOMLKey (trim_space k)"
    have "keeps_toml (\<lambda>t. rbind (parseTOMLValue ops vt) (\<lambda>val. Inr (mput (last ?parts) val t)))"
      using parse_values_toml(1) [of ops vt] by (auto simp: keeps_toml_def rbind_Inr_iff toml_doc_mput)
    then have "keeps_toml (at_loc cur (with_tables (butlast ?parts)
        (\<lambda>t. rbind (parseTOMLValue ops vt) (\<lambda>val. Inr (mput (last ?parts) val t)))))"
      by (intro keeps_at_loc keeps_with_tables)
    then have "toml_doc r"
      by (rule keepsD [OF _ "2.prems"(1)]) (use st in \<open>simp add: store_pair_def Let_def\<close>)
    then show ?thesis using 2(3) pair h by auto
  qed
qed simp

section \<open>Properties\<close>



text \<open>
  The merge that a TOML rule applies keeps every value the template is silent about and
  takes every leaf the template gives, at any depth, and applying it again changes nothing.
\<close>
theorem deepMergeTOML_surgical:
  assumes "wf_map dst" "wf_map src"
  shows "(misses (GObj src) ks \<longrightarrow> look (GObj (deepMergeTOML dst src)) ks = look (GObj dst) ks)
    \<and> (look (GObj src) (p # ps) = Some w \<and> \<not> is_obj w \<longrightarrow>
        look (GObj (deepMergeTOML dst src)) (p # ps) = Some w)
    \<and> deepMergeTOML (deepMergeTOML dst src) src = deepMergeTOML dst src"
  using toml.keeps [OF assms] toml.sets [OF assms, where v = "Some w"] toml.idem [OF assms]
  by (auto simp: json_fixes_def leaf_result_def simp del: look.simps(2))

theorem deepMergeTOML_surgical_witness:
  "look (GObj (deepMergeTOML [(''s'', GObj [(''mine'', GInt 1)])] [(''s'', GObj [(''theirs'', GInt 2)])]))
     [''s'', ''mine''] = Some (GInt 1 :: nat goval)"
proof -
  have w: "wf_map [(''s'', GObj [(''mine'', GInt 1 :: nat goval)])]"
    "wf_map [(''s'', GObj [(''theirs'', GInt 2 :: nat goval)])]"
    by (simp_all add: wf_map_def keys_ok_def)
  show ?thesis
    using deepMergeTOML_surgical [OF w, of "[''s'', ''mine'']"] by simp
qed

text \<open>
  The writer can produce a file the reader rejects. A document in which an element of
  an array of tables has a sub-table (here read from a dotted key) is written with a
  header \<open>[a.sub]\<close> after \<open>[[a]]\<close>, and reading that header back is a table conflict: the
  sync that wrote the file makes every later sync of it fail.
\<close>
theorem toml_writer_reader_mismatch:
  fixes ops :: "nat float_ops"
  shows
  "let f = ''[[a]]'' @ NL # ''sub.x = 1'';
       g = ''[[a]]'' @ NL # NL # ''[a.sub]'' @ NL # ''x = 1'' @ [NL]
   in (case parseTOML ops f of Inl e \<Rightarrow> False | Inr m \<Rightarrow> encodeTOML ops [] m [] = g)
      \<and> parseTOML ops g = Inl (AtLine 3 (TableConflict ''a''))"
  by code_simp

text \<open>
  A quoted key with backslashes is not stable: the writer escapes each backslash and the
  reader does not undo it, so each read and write doubles them.
\<close>
theorem toml_key_backslashes_double:
  fixes ops :: "nat float_ops"
  shows
  "let rewrite = (\<lambda>f. case parseTOML ops f of Inl e \<Rightarrow> f | Inr m \<Rightarrow> encodeTOML ops [] m []);
       file = (\<lambda>n. DQ # ''a'' @ replicate n BSL @ ''b'' @ [DQ] @ '' = 1'' @ [NL])
   in rewrite (file 1) = file 2 \<and> rewrite (file 2) = file 4 \<and> rewrite (file 4) = file 8"
  by code_simp

end
