(* ===== verification/YAML.thy ===== *)
theory YAML
  imports MergeContract
begin

text \<open>
  \<open>internal/handlers/yaml.go\<close>: the merge of two \<open>yaml.Node\<close> trees. The parser and the
  emitter are \<open>gopkg.in/yaml.v3\<close>; a node here has the fields the merge reads, and \<open>'x\<close>
  stands for the others (style, comments, position), which it only carries along. Go
  updates nodes in place; no node is in two trees, so the updated tree is returned.
\<close>

section \<open>Nodes\<close>

datatype ykind = DocumentNode | SequenceNode | MappingNode | ScalarNode | AliasNode

datatype 'x ynode =
  YNode (Kind: ykind) (Tag: string) (Value: string) (Anchor: string) (extra: 'x) (Content: "'x ynode list")

definition set_content :: "'x ynode \<Rightarrow> 'x ynode list \<Rightarrow> 'x ynode" where
  "set_content n c = YNode (Kind n) (Tag n) (Value n) (Anchor n) (extra n) c"

definition isNullNode :: "'x ynode \<Rightarrow> bool" where
  "isNullNode n \<longleftrightarrow> Kind n = ScalarNode \<and> Tag n = ''!!null''"

definition emptyYAMLDoc :: "'x \<Rightarrow> 'x ynode" where
  "emptyYAMLDoc x = YNode DocumentNode [] [] [] x []"

section \<open>Tombstones\<close>

fun value_is_null :: "'x ynode list \<Rightarrow> bool" where
  "value_is_null (k # v # c) = (isNullNode v \<or> value_is_null c)"
| "value_is_null c = False"

fun hasTombstone :: "'x ynode \<Rightarrow> bool" where
  "hasTombstone (YNode k t v a x c) =
     ((k = MappingNode \<and> value_is_null c) \<or> list_ex hasTombstone c)"

datatype yaml_feature = AnAlias | AnAnchor | AMergeKey

fun has_merge_key :: "'x ynode list \<Rightarrow> bool" where
  "has_merge_key (k # v # c) = (Value k = ''<<'' \<or> has_merge_key c)"
| "has_merge_key c = False"

fun unsafeForDeletion :: "'x ynode \<Rightarrow> yaml_feature option"
  and unsafe_children :: "'x ynode list \<Rightarrow> yaml_feature option" where
  "unsafeForDeletion (YNode k t v a x c) =
     (if k = AliasNode then Some AnAlias
      else if a \<noteq> [] then Some AnAnchor
      else if k = MappingNode \<and> has_merge_key c then Some AMergeKey
      else unsafe_children c)"
| "unsafe_children [] = None"
| "unsafe_children (n # ns) =
     (case unsafeForDeletion n of Some f \<Rightarrow> Some f | None \<Rightarrow> unsafe_children ns)"

fun pruneNullNodes :: "'x ynode \<Rightarrow> bool \<Rightarrow> 'x ynode"
  and prune_children :: "'x ynode list \<Rightarrow> 'x ynode list"
  and prune_pairs :: "'x ynode list \<Rightarrow> 'x ynode list" where
  "pruneNullNodes (YNode k t v a x c) deleteNulls =
     (if \<not> deleteNulls then YNode k t v a x c
      else if k = DocumentNode then YNode k t v a x (prune_children c)
      else if k = MappingNode then YNode k t v a x (prune_pairs c)
      else YNode k t v a x c)"
| "prune_children [] = []"
| "prune_children (n # ns) = pruneNullNodes n True # prune_children ns"
| "prune_pairs (k # v # c) =
     (if isNullNode v then prune_pairs c else k # pruneNullNodes v True # prune_pairs c)"
| "prune_pairs c = []"

section \<open>Merging\<close>

text \<open>All pairs with a key go, and with them an orphan key at the end.\<close>

fun drop_key :: "string \<Rightarrow> 'x ynode list \<Rightarrow> 'x ynode list" where
  "drop_key key (k # v # c) = (if Value k = key then drop_key key c else k # v # drop_key key c)"
| "drop_key key c = []"

text \<open>The first pair with the key gets the new value; \<open>None\<close> when there is no such pair.\<close>

fun replace_value :: "string \<Rightarrow> ('x ynode \<Rightarrow> 'x ynode) \<Rightarrow> 'x ynode list \<Rightarrow> 'x ynode list option" where
  "replace_value key f (k # v # c) =
     (if Value k = key then Some (k # f v # c)
      else map_option (\<lambda>c'. k # v # c') (replace_value key f c))"
| "replace_value key f c = None"

function mergeNodes :: "'x ynode \<Rightarrow> 'x ynode \<Rightarrow> bool \<Rightarrow> 'x ynode"
  and merge_pairs :: "'x ynode list \<Rightarrow> 'x ynode list \<Rightarrow> bool \<Rightarrow> 'x ynode list" where
  "mergeNodes dst src deleteNulls =
     (if Kind dst \<noteq> MappingNode \<or> Kind src \<noteq> MappingNode then pruneNullNodes src deleteNulls
      else set_content dst (merge_pairs (Content dst) (Content src) deleteNulls))"
| "merge_pairs dst (srcKey # srcVal # src) deleteNulls =
     (if deleteNulls \<and> isNullNode srcVal
      then merge_pairs (drop_key (Value srcKey) dst) src deleteNulls
      else let update = (\<lambda>d. if Kind d = MappingNode \<and> Kind srcVal = MappingNode
                             then mergeNodes d srcVal deleteNulls
                             else pruneNullNodes srcVal deleteNulls)
           in case replace_value (Value srcKey) update dst of
                Some dst' \<Rightarrow> merge_pairs dst' src deleteNulls
              | None \<Rightarrow> merge_pairs (dst @ [srcKey, pruneNullNodes srcVal deleteNulls]) src deleteNulls)"
| "merge_pairs dst [] deleteNulls = dst"
| "merge_pairs dst [srcKey] deleteNulls = dst"
  by pat_completeness auto

termination
proof (relation "measure (case_sum (\<lambda>(d, s, dn). 2 * size s) (\<lambda>(d, s, dn). 2 * size_list size s + 1))", goal_cases)
  case (2 dst src dn)
  then show ?case by (cases src) auto
qed auto

declare mergeNodes.simps [simp del] merge_pairs.simps(1) [simp del]

datatype yaml_error = NotDocumentNode ykind ykind | CannotDelete yaml_feature

definition YAML_Merge :: "bool \<Rightarrow> 'x ynode \<Rightarrow> 'x ynode \<Rightarrow> yaml_error + 'x ynode" where
  "YAML_Merge deleteNulls existDoc incDoc =
     (if Kind existDoc \<noteq> DocumentNode \<or> Kind incDoc \<noteq> DocumentNode
      then Inl (NotDocumentNode (Kind existDoc) (Kind incDoc))
      else case Content existDoc of
             [] \<Rightarrow> Inr (pruneNullNodes incDoc deleteNulls)
           | d # ds \<Rightarrow>
               (case Content incDoc of
                  [] \<Rightarrow> Inr existDoc
                | s # ss \<Rightarrow>
                    (case (if deleteNulls \<and> hasTombstone incDoc then unsafeForDeletion existDoc else None) of
                       Some feature \<Rightarrow> Inl (CannotDelete feature)
                     | None \<Rightarrow> Inr (set_content existDoc (mergeNodes d s deleteNulls # ds)))))"

section \<open>Mappings as lists of pairs\<close>

fun pairs :: "'x ynode list \<Rightarrow> ('x ynode \<times> 'x ynode) list" where
  "pairs (k # v # c) = (k, v) # pairs c"
| "pairs c = []"

definition yget :: "string \<Rightarrow> 'x ynode list \<Rightarrow> 'x ynode option" where
  "yget key c = map_option snd (find (\<lambda>p. Value (fst p) = key) (pairs c))"

abbreviation pair_keys :: "'x ynode list \<Rightarrow> string list" where
  "pair_keys c \<equiv> map (\<lambda>p. Value (fst p)) (pairs c)"

lemma set_content_simps [simp]:
  "Kind (set_content n c) = Kind n" "Content (set_content n c) = c" "set_content n (Content n) = n"
  "set_content (set_content n c) c' = set_content n c'"
  by (simp_all add: set_content_def)

lemma yget_Nil [simp]: "yget key [] = None"
  by (simp add: yget_def)

lemma yget_Cons [simp]: "yget key (k # v # c) = (if Value k = key then Some v else yget key c)"
  by (simp add: yget_def)

lemma yget_single [simp]: "yget key [k] = None"
  by (simp add: yget_def)

lemma yget_None: "yget key c = None \<longleftrightarrow> key \<notin> set (pair_keys c)"
  unfolding yget_def by (force simp: find_None_iff)

lemma yget_in: "yget key c = Some v \<Longrightarrow> \<exists>k. (k, v) \<in> set (pairs c) \<and> Value k = key"
  by (auto simp: yget_def dest!: find_Some_prop)

lemma yget_distinct: "distinct (pair_keys c) \<Longrightarrow> (k, v) \<in> set (pairs c) \<Longrightarrow> yget (Value k) c = Some v"
  by (induction c rule: pairs.induct) (auto simp: image_iff split: if_splits)

lemma pairs_sub: "(k, v) \<in> set (pairs c) \<Longrightarrow> k \<in> set c \<and> v \<in> set c"
  by (induction c rule: pairs.induct) auto

lemma pairs_append: "even (length c) \<Longrightarrow> pairs (c @ c') = pairs c @ pairs c'"
  by (induction c rule: pairs.induct) auto

lemma pairs_drop_key: "pairs (drop_key key c) = filter (\<lambda>p. Value (fst p) \<noteq> key) (pairs c)"
  by (induction key c rule: drop_key.induct) auto

lemma even_drop_key [simp]: "even (length (drop_key key c))"
  by (induction key c rule: drop_key.induct) auto

lemma drop_key_absent: "even (length c) \<Longrightarrow> key \<notin> set (pair_keys c) \<Longrightarrow> drop_key key c = c"
  by (induction key c rule: drop_key.induct) auto

lemma replace_value_None: "replace_value key f c = None \<longleftrightarrow> yget key c = None"
  by (induction key f c rule: replace_value.induct) auto

lemma replace_value_Some:
  "replace_value key f c = Some c' \<Longrightarrow>
   pairs c' = upd_first (\<lambda>p. Value (fst p) = key) (apsnd f) (pairs c) \<and> length c' = length c"
  by (induction key f c arbitrary: c' rule: replace_value.induct) (auto split: if_splits)

lemma replace_value_id: "yget key c = Some d \<Longrightarrow> f d = d \<Longrightarrow> replace_value key f c = Some c"
  by (induction key f c rule: replace_value.induct) (auto split: if_splits)

lemma pairs_prune_pairs:
  "pairs (prune_pairs c) =
     map (apsnd (\<lambda>v. pruneNullNodes v True)) (filter (\<lambda>p. \<not> isNullNode (snd p)) (pairs c))"
  by (induction c rule: pairs.induct) auto

lemma even_prune_pairs [simp]: "even (length (prune_pairs c))"
  by (induction c rule: pairs.induct) auto

lemma prune_off [simp]: "pruneNullNodes n False = n"
  by (cases n) simp

lemma Kind_prune [simp]: "Kind (pruneNullNodes n dn) = Kind n"
  by (cases n) simp

lemma Content_prune: "Kind n = MappingNode \<Longrightarrow> Content (pruneNullNodes n True) = prune_pairs (Content n)"
  by (cases n) simp

lemma yget_prune_pairs:
  "distinct (pair_keys c) \<Longrightarrow> yget key (prune_pairs c) =
     (case yget key c of None \<Rightarrow> None
      | Some v \<Rightarrow> if isNullNode v then None else Some (pruneNullNodes v True))"
proof (induction c rule: pairs.induct)
  case (1 k v c)
  have "yget (Value k) c = None" using 1(2) by (simp add: yget_None)
  with 1 show ?case by (auto split: option.splits)
qed auto

section \<open>One key at a time\<close>

definition merged_node :: "bool \<Rightarrow> 'x ynode option \<Rightarrow> 'x ynode \<Rightarrow> 'x ynode option" where
  "merged_node dn dv sv =
     (if dn \<and> isNullNode sv then None
      else Some (case dv of None \<Rightarrow> pruneNullNodes sv dn | Some d \<Rightarrow> mergeNodes d sv dn))"

definition merge_pair :: "'x ynode list \<Rightarrow> 'x ynode \<Rightarrow> 'x ynode \<Rightarrow> bool \<Rightarrow> 'x ynode list" where
  "merge_pair dst k v dn =
     (if dn \<and> isNullNode v then drop_key (Value k) dst
      else case replace_value (Value k) (\<lambda>d. mergeNodes d v dn) dst of
             Some dst' \<Rightarrow> dst' | None \<Rightarrow> dst @ [k, pruneNullNodes v dn])"

lemma update_mergeNodes:
  "(if Kind d = MappingNode \<and> Kind v = MappingNode then mergeNodes d v dn else pruneNullNodes v dn)
     = mergeNodes d v dn"
  by (auto simp: mergeNodes.simps)

lemma merge_pairs_Cons: "merge_pairs dst (k # v # src) dn = merge_pairs (merge_pair dst k v dn) src dn"
  by (simp add: merge_pairs.simps(1) merge_pair_def update_mergeNodes split: option.splits)

lemma even_merge_pair: "even (length dst) \<Longrightarrow> even (length (merge_pair dst k v dn))"
  by (auto simp: merge_pair_def dest!: replace_value_Some split: option.splits)

lemma even_merge_pairs: "even (length dst) \<Longrightarrow> even (length (merge_pairs dst src dn))"
  by (induction src arbitrary: dst rule: pairs.induct) (auto simp: merge_pairs_Cons even_merge_pair)

lemma find_without_key:
  "find (\<lambda>p. Value (fst p) = key) (filter (\<lambda>p. Value (fst p) \<noteq> k) ps) =
     (if key = k then None else find (\<lambda>p. Value (fst p) = key) ps)"
  by (induction ps) auto

lemma yget_merge_pair:
  assumes "even (length dst)"
  shows "yget key (merge_pair dst k v dn) =
    (if key = Value k then merged_node dn (yget key dst) v else yget key dst)"
proof (cases "dn \<and> isNullNode v")
  case True
  then show ?thesis by (simp add: merge_pair_def merged_node_def yget_def pairs_drop_key find_without_key)
next
  case False
  show ?thesis
  proof (cases "replace_value (Value k) (\<lambda>d. mergeNodes d v dn) dst")
    case None
    then have "yget (Value k) dst = None" by (simp add: replace_value_None)
    then show ?thesis
      using None False assms
      by (auto simp: merge_pair_def merged_node_def yget_def pairs_append find_append split: option.splits)
  next
    case (Some dst')
    have "yget key dst' =
        (if key = Value k then map_option (\<lambda>d. mergeNodes d v dn) (yget key dst) else yget key dst)"
      using replace_value_Some [OF Some]
      by (auto simp: yget_def find_upd_first_same find_upd_first_other option.map_comp comp_def)
    moreover have "yget (Value k) dst \<noteq> None"
      using Some replace_value_None [of "Value k" "\<lambda>d. mergeNodes d v dn" dst] by auto
    ultimately show ?thesis using Some False by (auto simp: merge_pair_def merged_node_def)
  qed
qed

lemma yget_merge_pairs:
  assumes "even (length dst)" "distinct (pair_keys src)"
  shows "yget key (merge_pairs dst src dn) =
    (case yget key src of None \<Rightarrow> yget key dst | Some v \<Rightarrow> merged_node dn (yget key dst) v)"
  using assms
proof (induction src arbitrary: dst rule: pairs.induct)
  case (1 k v src)
  have "yget (Value k) src = None" using 1(3) by (simp add: yget_None)
  with 1 show ?case
    by (auto simp: merge_pairs_Cons even_merge_pair yget_merge_pair split: option.splits)
qed auto

text \<open>Pairs the incoming mapping does not name stay as they are, in their order.\<close>

lemma untouched_merge_pair:
  assumes "even (length dst)" "Value k \<in> ks"
  shows "filter (\<lambda>p. Value (fst p) \<notin> ks) (pairs (merge_pair dst k v dn)) =
    filter (\<lambda>p. Value (fst p) \<notin> ks) (pairs dst)"
proof (cases "replace_value (Value k) (\<lambda>d. mergeNodes d v dn) dst")
  case None
  then show ?thesis using assms
    by (auto simp: merge_pair_def pairs_drop_key pairs_append intro!: filter_cong)
next
  case (Some dst')
  have "filter (\<lambda>p. Value (fst p) \<notin> ks) (pairs dst') = filter (\<lambda>p. Value (fst p) \<notin> ks) (pairs dst)"
    using replace_value_Some [OF Some] assms(2) by (auto intro!: filter_upd_first_other)
  then show ?thesis using Some assms
    by (auto simp: merge_pair_def pairs_drop_key intro!: filter_cong)
qed

lemma untouched_merge_pairs:
  "even (length dst) \<Longrightarrow> set (pair_keys src) \<subseteq> ks \<Longrightarrow>
   filter (\<lambda>p. Value (fst p) \<notin> ks) (pairs (merge_pairs dst src dn)) =
   filter (\<lambda>p. Value (fst p) \<notin> ks) (pairs dst)"
  by (induction src arbitrary: dst rule: pairs.induct)
     (auto simp: merge_pairs_Cons even_merge_pair untouched_merge_pair)

section \<open>Well-formed trees and paths\<close>

text \<open>Every mapping has an even number of children; the parser builds no other.\<close>

fun ywf :: "'x ynode \<Rightarrow> bool" where
  "ywf (YNode k t v a x c) \<longleftrightarrow> (k = MappingNode \<longrightarrow> even (length c)) \<and> list_all ywf c"

text \<open>Every mapping reached through mappings has distinct keys.\<close>

fun ydist :: "'x ynode \<Rightarrow> bool" where
  "ydist (YNode k t v a x c) \<longleftrightarrow> (k = MappingNode \<longrightarrow> distinct (pair_keys c) \<and> list_all ydist c)"

fun ylook :: "'x ynode \<Rightarrow> string list \<Rightarrow> 'x ynode option" where
  "ylook n [] = Some n"
| "ylook n (k # ks) =
     (if Kind n = MappingNode then (case yget k (Content n) of None \<Rightarrow> None | Some v \<Rightarrow> ylook v ks) else None)"

fun ymisses :: "'x ynode \<Rightarrow> string list \<Rightarrow> bool" where
  "ymisses n [] = False"
| "ymisses n (k # ks) =
     (Kind n = MappingNode \<and> (case yget k (Content n) of None \<Rightarrow> True | Some v \<Rightarrow> ymisses v ks))"

lemma ywf_parts: "ywf n \<longleftrightarrow> (Kind n = MappingNode \<longrightarrow> even (length (Content n))) \<and> (\<forall>c \<in> set (Content n). ywf c)"
  by (cases n) (auto simp: list_all_iff)

lemma ydist_parts:
  "ydist n \<longleftrightarrow> (Kind n = MappingNode \<longrightarrow> distinct (pair_keys (Content n)) \<and> (\<forall>c \<in> set (Content n). ydist c))"
  by (cases n) (auto simp: list_all_iff)

declare ywf.simps [simp del] ydist.simps [simp del]

lemma yget_child: "yget k c = Some v \<Longrightarrow> v \<in> set c"
  using yget_in pairs_sub by blast

lemma size_child: "v \<in> set (Content n) \<Longrightarrow> size v < size n"
proof (cases n)
  case (YNode k t va a x c)
  assume "v \<in> set (Content n)"
  then have "v \<in> set c" using YNode by simp
  then have "size v \<le> size_list size c" by (rule size_list_estimation') simp
  then show ?thesis using YNode by simp
qed

lemma prune_pairs_ind: "\<forall>v \<in> set c. P (pruneNullNodes v True) \<and> P v \<Longrightarrow> \<forall>v \<in> set (prune_pairs c). P v"
  by (induction c rule: pairs.induct) auto

lemma prune_children_ind: "\<forall>v \<in> set c. P (pruneNullNodes v True) \<Longrightarrow> \<forall>v \<in> set (prune_children c). P v"
  by (induction c) auto

lemma ywf_prune: "ywf n \<Longrightarrow> ywf (pruneNullNodes n dn)"
proof (induction "size n" arbitrary: n dn rule: less_induct)
  case less
  have kids: "\<forall>v \<in> set (Content n). ywf (pruneNullNodes v True) \<and> ywf v"
  proof
    fix v
    assume v: "v \<in> set (Content n)"
    then have "ywf v" using less.prems by (simp add: ywf_parts [of n])
    then show "ywf (pruneNullNodes v True) \<and> ywf v" using less.hyps [OF size_child [OF v]] by simp
  qed
  then have "\<forall>v \<in> set (prune_pairs (Content n)). ywf v" "\<forall>v \<in> set (prune_children (Content n)). ywf v"
    by (rule prune_pairs_ind, intro prune_children_ind) simp
  then show ?case using less.prems by (cases n) (simp add: ywf.simps list_all_iff)
qed

lemma set_drop_key: "set (drop_key key c) \<subseteq> set c"
  by (induction key c rule: drop_key.induct) auto

lemma replace_value_ind:
  "replace_value key f c = Some c' \<Longrightarrow> \<forall>d \<in> set c. P d \<Longrightarrow> (\<And>d. P d \<Longrightarrow> P (f d)) \<Longrightarrow> \<forall>d \<in> set c'. P d"
  by (induction key f c arbitrary: c' rule: replace_value.induct) (auto split: if_splits)

lemma ywf_merge_pairs:
  assumes "\<And>d v. v \<in> set src \<Longrightarrow> ywf d \<Longrightarrow> ywf (mergeNodes d v dn)"
    and "\<forall>c \<in> set src. ywf c" "\<forall>c \<in> set dst. ywf c"
  shows "\<forall>c \<in> set (merge_pairs dst src dn). ywf c"
  using assms
proof (induction src arbitrary: dst rule: pairs.induct)
  case (1 k v src)
  have "\<forall>c \<in> set (merge_pair dst k v dn). ywf c"
  proof (cases "dn \<and> isNullNode v")
    case True
    then show ?thesis using set_drop_key [of "Value k" dst] 1(4) by (auto simp: merge_pair_def)
  next
    case False
    show ?thesis
    proof (cases "replace_value (Value k) (\<lambda>d. mergeNodes d v dn) dst")
      case None
      have "ywf k" "ywf (pruneNullNodes v dn)" using 1(3) by (simp_all add: ywf_prune)
      then show ?thesis using None False 1(4) by (auto simp: merge_pair_def)
    next
      case (Some dst')
      have "\<forall>c \<in> set dst'. ywf c" by (rule replace_value_ind [OF Some 1(4)]) (simp add: 1(2))
      then show ?thesis using Some False by (auto simp: merge_pair_def)
    qed
  qed
  moreover have "\<forall>c \<in> set src. ywf c" using 1(3) by simp
  ultimately show ?case unfolding merge_pairs_Cons by (intro 1(1)) (simp_all add: 1(2))
qed auto

lemma ywf_mergeNodes: "ywf d \<Longrightarrow> ywf s \<Longrightarrow> ywf (mergeNodes d s dn)"
proof (induction "size s" arbitrary: d s rule: less_induct)
  case less
  have kids: "\<forall>c \<in> set (Content s). ywf c" "\<forall>c \<in> set (Content d). ywf c"
    using less.prems by (simp_all add: ywf_parts [of s] ywf_parts [of d])
  have "ywf (mergeNodes d' v dn)" if "v \<in> set (Content s)" "ywf d'" for d' v
    using less.hyps [OF size_child [OF that(1)] that(2)] that(1) kids(1) by simp
  then have "\<forall>c \<in> set (merge_pairs (Content d) (Content s) dn). ywf c"
    using kids by (intro ywf_merge_pairs) blast+
  moreover have "Kind d = MappingNode \<longrightarrow> even (length (Content d))"
    using less.prems(1) by (simp add: ywf_parts [of d])
  ultimately have "ywf (set_content d (merge_pairs (Content d) (Content s) dn))" if "Kind d = MappingNode"
    using that by (simp add: ywf_parts [of "set_content d (merge_pairs (Content d) (Content s) dn)"] even_merge_pairs)
  then show ?case
    using ywf_prune [OF less.prems(2)] by (simp add: mergeNodes.simps)
qed


section \<open>The merge along paths\<close>

lemma even_Content: "ywf n \<Longrightarrow> Kind n = MappingNode \<Longrightarrow> even (length (Content n))"
  by (simp add: ywf_parts [of n])

lemma dist_Content: "ydist n \<Longrightarrow> Kind n = MappingNode \<Longrightarrow> distinct (pair_keys (Content n))"
  by (simp add: ydist_parts [of n])

lemma ywf_yget: "ywf n \<Longrightarrow> yget k (Content n) = Some v \<Longrightarrow> ywf v"
  using yget_child by (auto simp: ywf_parts [of n])

lemma ydist_yget: "ydist n \<Longrightarrow> Kind n = MappingNode \<Longrightarrow> yget k (Content n) = Some v \<Longrightarrow> ydist v"
  using yget_child by (auto simp: ydist_parts [of n])

lemma ylook_prune_silent: "ymisses n ks \<Longrightarrow> ydist n \<Longrightarrow> ylook (pruneNullNodes n dn) ks = None"
proof (induction ks arbitrary: n dn)
  case (Cons k ks)
  then have n: "Kind n = MappingNode" "distinct (pair_keys (Content n))"
    by (simp_all add: dist_Content)
  have off: "ymisses m js \<Longrightarrow> ylook m js = None" for m :: "'a ynode" and js
    by (induction m js rule: ymisses.induct) (auto split: option.splits)
  show ?case
  proof (cases dn)
    case True
    have "ylook (pruneNullNodes v True) ks = None" if "yget k (Content n) = Some v" for v
      using Cons.IH [of v True] Cons.prems that ydist_yget [OF Cons.prems(2) n(1) that] by simp
    then show ?thesis using True n by (auto simp: Content_prune yget_prune_pairs split: option.splits)
  next
    case False
    then show ?thesis using off [OF Cons.prems(1)] by simp
  qed
qed simp

lemma ylook_mergeNodes_Cons:
  assumes "ywf d" "ydist s" "Kind d = MappingNode" "Kind s = MappingNode"
  shows "ylook (mergeNodes d s dn) (k # ks) =
    (case yget k (Content s) of
       None \<Rightarrow> ylook d (k # ks)
     | Some v \<Rightarrow> (case merged_node dn (yget k (Content d)) v of None \<Rightarrow> None | Some w \<Rightarrow> ylook w ks))"
  using assms yget_merge_pairs [of "Content d" "Content s" k dn]
  by (simp add: mergeNodes.simps even_Content dist_Content split: option.splits)

lemma mergeNodes_silent:
  "ymisses s ks \<Longrightarrow> ywf d \<Longrightarrow> ydist s \<Longrightarrow> ylook (mergeNodes d s dn) ks = ylook d ks"
proof (induction ks arbitrary: d s)
  case (Cons k ks)
  then have s: "Kind s = MappingNode" by simp
  show ?case
  proof (cases "Kind d = MappingNode")
    case False
    then have "mergeNodes d s dn = pruneNullNodes s dn" by (simp add: mergeNodes.simps)
    then show ?thesis using ylook_prune_silent [OF Cons.prems(1,3), of dn] False by simp
  next
    case d: True
    show ?thesis
    proof (cases "yget k (Content s)")
      case None
      then show ?thesis using ylook_mergeNodes_Cons [OF Cons.prems(2,3) d s] by simp
    next
      case (Some v)
      then have v: "ymisses v ks" "ydist v" using Cons.prems ydist_yget [OF _ s Some] by simp_all
      then have "\<not> isNullNode v" by (cases ks) (auto simp: isNullNode_def)
      then have "ylook (mergeNodes d s dn) (k # ks) =
          ylook (case yget k (Content d) of None \<Rightarrow> pruneNullNodes v dn | Some e \<Rightarrow> mergeNodes e v dn) ks"
        using ylook_mergeNodes_Cons [OF Cons.prems(2,3) d s] Some by (simp add: merged_node_def)
      also have "\<dots> = ylook d (k # ks)"
        using Cons.IH [OF v(1) _ v(2)] ywf_yget [OF Cons.prems(2)] d ylook_prune_silent [OF v]
        by (simp split: option.splits)
      finally show ?thesis .
    qed
  qed
qed simp

definition plain_leaf :: "'x ynode \<Rightarrow> bool" where
  "plain_leaf w \<longleftrightarrow> Kind w \<noteq> MappingNode \<and> Kind w \<noteq> DocumentNode"

lemma prune_leaf: "plain_leaf w \<Longrightarrow> pruneNullNodes w dn = w"
  by (cases w) (simp add: plain_leaf_def)

definition yleaf_result :: "bool \<Rightarrow> 'x ynode \<Rightarrow> 'x ynode option" where
  "yleaf_result dn w = (if dn \<and> isNullNode w then None else Some w)"

lemma ylook_prune_leaf:
  "ylook n ks = Some w \<Longrightarrow> plain_leaf w \<Longrightarrow> ydist n \<Longrightarrow> \<not> (dn \<and> isNullNode n) \<Longrightarrow>
   ylook (pruneNullNodes n dn) ks = yleaf_result dn w"
proof (induction ks arbitrary: n)
  case Nil
  then show ?case by (auto simp: prune_leaf yleaf_result_def)
next
  case (Cons k ks)
  then obtain v where n: "Kind n = MappingNode" and v: "yget k (Content n) = Some v" "ylook v ks = Some w"
    by (auto split: if_splits option.splits)
  have dist: "ydist v" using ydist_yget [OF Cons.prems(3) n v(1)] .
  show ?case
  proof (cases dn)
    case True
    show ?thesis
    proof (cases "isNullNode v")
      case null: True
      then have "ks = []" using v(2) by (cases ks) (auto simp: isNullNode_def)
      then show ?thesis
        using True null v n dist_Content [OF Cons.prems(3) n]
        by (simp add: Content_prune yget_prune_pairs yleaf_result_def)
    next
      case False
      then show ?thesis
        using Cons.IH [OF v(2) Cons.prems(2) dist] True v n dist_Content [OF Cons.prems(3) n]
        by (simp add: Content_prune yget_prune_pairs)
    qed
  next
    case False
    then show ?thesis using Cons.prems(1) by (simp add: yleaf_result_def)
  qed
qed

lemma mergeNodes_leaf:
  "ylook s (k # ks) = Some w \<Longrightarrow> plain_leaf w \<Longrightarrow> ywf d \<Longrightarrow> ydist s \<Longrightarrow>
   ylook (mergeNodes d s dn) (k # ks) = yleaf_result dn w"
proof (induction ks arbitrary: k d s)
  case (Nil k d s)
  then have s: "Kind s = MappingNode" and v: "yget k (Content s) = Some w"
    by (auto split: if_splits option.splits)
  show ?case
  proof (cases "Kind d = MappingNode")
    case True
    have "mergeNodes e w dn = w" for e using Nil(2) prune_leaf [of w dn] by (simp add: mergeNodes.simps plain_leaf_def)
    then show ?thesis
      using ylook_mergeNodes_Cons [OF Nil(3,4) True s, of dn k "[]"] v prune_leaf [OF Nil(2)]
      by (simp add: merged_node_def yleaf_result_def split: option.splits)
  next
    case False
    then show ?thesis using ylook_prune_leaf [OF Nil(1,2,4), of dn] s
      by (simp add: mergeNodes.simps isNullNode_def)
  qed
next
  case (Cons k2 ks k d s)
  then obtain v where s: "Kind s = MappingNode" and v: "yget k (Content s) = Some v" "ylook v (k2 # ks) = Some w"
    by (auto split: if_splits option.splits)
  have dist: "ydist v" using ydist_yget [OF Cons.prems(4) s v(1)] .
  have nn: "\<not> isNullNode v" using v(2) by (auto simp: isNullNode_def split: if_splits)
  show ?case
  proof (cases "Kind d = MappingNode")
    case True
    then show ?thesis
      using ylook_mergeNodes_Cons [OF Cons.prems(3,4) True s, of dn k "k2 # ks"] v(1) nn
        ylook_prune_leaf [OF v(2) Cons.prems(2) dist, of dn] ywf_yget [OF Cons.prems(3)]
        Cons.IH [OF v(2) Cons.prems(2) _ dist]
      by (simp add: merged_node_def del: ylook.simps split: option.splits)
  next
    case False
    then show ?thesis using ylook_prune_leaf [OF Cons.prems(1,2,4), of dn] s
      by (simp add: mergeNodes.simps isNullNode_def del: ylook.simps)
  qed
qed

section \<open>Convergence\<close>

lemma merge_pairs_absorbed:
  assumes "even (length c)"
    and "\<And>k v. (k, v) \<in> set (pairs s) \<Longrightarrow> if dn \<and> isNullNode v then yget (Value k) c = None
           else \<exists>d. yget (Value k) c = Some d \<and> mergeNodes d v dn = d"
  shows "merge_pairs c s dn = c"
  using assms(2)
proof (induction s rule: pairs.induct)
  case (1 k v s)
  have "merge_pair c k v dn = c"
  proof (cases "dn \<and> isNullNode v")
    case True
    then have "yget (Value k) c = None" using 1(2) [of k v] by simp
    then show ?thesis using True drop_key_absent [OF assms(1), of "Value k"] by (simp add: merge_pair_def yget_None)
  next
    case False
    then obtain d where "yget (Value k) c = Some d" "mergeNodes d v dn = d" using 1(2) [of k v] by auto
    then show ?thesis
      using False replace_value_id [of "Value k" c d "\<lambda>d. mergeNodes d v dn"] by (auto simp: merge_pair_def)
  qed
  moreover have "merge_pairs c s dn = c" by (rule 1(1)) (rule 1(2), simp)
  ultimately show ?case by (simp add: merge_pairs_Cons)
qed auto

lemma mergeNodes_self: "ywf s \<Longrightarrow> ydist s \<Longrightarrow> mergeNodes (pruneNullNodes s dn) s dn = pruneNullNodes s dn"
proof (induction "size s" arbitrary: s rule: less_induct)
  case less
  show ?case
  proof (cases "Kind s = MappingNode")
    case True
    let ?p = "Content (pruneNullNodes s dn)"
    have p: "?p = (if dn then prune_pairs (Content s) else Content s)" using True by (simp add: Content_prune)
    have "merge_pairs ?p (Content s) dn = ?p"
    proof (rule merge_pairs_absorbed)
      show "even (length ?p)" using even_Content [OF less.prems(1) True] by (simp add: p)
    next
      fix k v
      assume kv: "(k, v) \<in> set (pairs (Content s))"
      then have v: "v \<in> set (Content s)" using pairs_sub by blast
      have g: "yget (Value k) (Content s) = Some v"
        using yget_distinct [OF dist_Content [OF less.prems(2) True] kv] .
      have "mergeNodes (pruneNullNodes v dn) v dn = pruneNullNodes v dn"
        using less.hyps [OF size_child [OF v]] ywf_yget [OF less.prems(1) g] ydist_yget [OF less.prems(2) True g] by simp
      then show "if dn \<and> isNullNode v then yget (Value k) ?p = None
          else \<exists>d. yget (Value k) ?p = Some d \<and> mergeNodes d v dn = d"
        using g dist_Content [OF less.prems(2) True] unfolding p by (auto simp: yget_prune_pairs)
    qed
    then show ?thesis using True by (simp add: mergeNodes.simps [of _ s])
  next
    case False
    then show ?thesis by (simp add: mergeNodes.simps)
  qed
qed

lemma mergeNodes_idem:
  "ywf d \<Longrightarrow> ywf s \<Longrightarrow> ydist s \<Longrightarrow> mergeNodes (mergeNodes d s dn) s dn = mergeNodes d s dn"
proof (induction "size s" arbitrary: d s rule: less_induct)
  case less
  show ?case
  proof (cases "Kind d = MappingNode \<and> Kind s = MappingNode")
    case True
    let ?c = "merge_pairs (Content d) (Content s) dn"
    have ev: "even (length (Content d))" using even_Content less.prems(1) True by blast
    have ds: "distinct (pair_keys (Content s))" using dist_Content less.prems(3) True by blast
    have "merge_pairs ?c (Content s) dn = ?c"
    proof (rule merge_pairs_absorbed)
      show "even (length ?c)" using ev by (rule even_merge_pairs)
    next
      fix k v
      assume kv: "(k, v) \<in> set (pairs (Content s))"
      then have v: "v \<in> set (Content s)" using pairs_sub by blast
      have g: "yget (Value k) (Content s) = Some v" using yget_distinct [OF ds kv] .
      have wf: "ywf v" "ydist v" using ywf_yget [OF less.prems(2) g] ydist_yget [OF less.prems(3) _ g] True by auto
      have "mergeNodes (mergeNodes e v dn) v dn = mergeNodes e v dn" if "yget (Value k) (Content d) = Some e" for e
        using less.hyps [OF size_child [OF v]] ywf_yget [OF less.prems(1) that] wf by simp
      then show "if dn \<and> isNullNode v then yget (Value k) ?c = None
          else \<exists>e. yget (Value k) ?c = Some e \<and> mergeNodes e v dn = e"
        using g mergeNodes_self [OF wf, of dn]
        by (auto simp: yget_merge_pairs [OF ev ds] merged_node_def split: option.splits)
    qed
    then show ?thesis using True by (simp add: mergeNodes.simps)
  next
    case False
    then have "mergeNodes d s dn = pruneNullNodes s dn" by (simp add: mergeNodes.simps)
    then show ?thesis using mergeNodes_self [OF less.prems(2,3)] by simp
  qed
qed

section \<open>The contract\<close>

definition yaml_fixes :: "bool \<Rightarrow> 'x ynode \<Rightarrow> string list \<Rightarrow> 'x ynode option \<Rightarrow> bool" where
  "yaml_fixes dn s ks r \<longleftrightarrow>
     ks \<noteq> [] \<and> (\<exists>w. ylook s ks = Some w \<and> plain_leaf w \<and> r = yleaf_result dn w)"

interpretation yaml: merge_contract
  "\<lambda>d s. mergeNodes d s dn" ywf "\<lambda>s. ywf s \<and> ydist s" ylook ymisses "yaml_fixes dn"
  for dn :: bool
proof unfold_locales
  show "ywf d \<Longrightarrow> ywf s \<and> ydist s \<Longrightarrow> yaml_fixes dn s ks v \<Longrightarrow> ylook (mergeNodes d s dn) ks = v"
    for d s :: "'x ynode" and ks v
    by (cases ks) (auto simp: yaml_fixes_def mergeNodes_leaf simp del: ylook.simps)
qed (auto simp: ywf_mergeNodes mergeNodes_silent mergeNodes_idem)

section \<open>Refused deletions\<close>

fun subnodes :: "'x ynode \<Rightarrow> 'x ynode list" where
  "subnodes (YNode k t v a x c) = YNode k t v a x c # concat (map subnodes c)"

definition deletable :: "'x ynode \<Rightarrow> bool" where
  "deletable n \<longleftrightarrow> Kind n \<noteq> AliasNode \<and> Anchor n = []
     \<and> (Kind n = MappingNode \<longrightarrow> ''<<'' \<notin> set (pair_keys (Content n)))"

lemma has_merge_key_iff: "has_merge_key c \<longleftrightarrow> ''<<'' \<in> set (pair_keys c)"
  by (induction c rule: has_merge_key.induct) auto

lemma unsafe_iff:
  "(unsafeForDeletion n = None \<longleftrightarrow> (\<forall>m \<in> set (subnodes n). deletable m))"
  "(unsafe_children ns = None \<longleftrightarrow> (\<forall>n \<in> set ns. \<forall>m \<in> set (subnodes n). deletable m))"
  for n :: "'x ynode" and ns :: "'x ynode list"
  by (induction n and ns rule: unsafeForDeletion_unsafe_children.induct)
     (auto simp: deletable_def has_merge_key_iff split: option.splits if_splits)

lemma value_is_null_iff: "value_is_null c \<longleftrightarrow> (\<exists>k v. (k, v) \<in> set (pairs c) \<and> isNullNode v)"
  by (induction c rule: value_is_null.induct) auto

section \<open>Properties\<close>

text \<open>
  C7. The YAML merge is surgical. Pairs of the top mapping that the template does not name
  stay as they are, node for node and in their order (so with their comments and style); at
  any depth a path the template is silent about leads where it led before, and a path at
  which it has a plain value leads to that value, or nowhere when it is a tombstone; and
  applying the template again changes nothing at all.
\<close>
theorem mergeNodes_surgical:
  assumes "ywf d" "ywf s" "ydist s"
  shows "(Kind d = MappingNode \<and> Kind s = MappingNode \<longrightarrow>
        filter (\<lambda>p. Value (fst p) \<notin> set (pair_keys (Content s))) (pairs (Content (mergeNodes d s dn))) =
        filter (\<lambda>p. Value (fst p) \<notin> set (pair_keys (Content s))) (pairs (Content d)))
    \<and> (ymisses s ks \<longrightarrow> ylook (mergeNodes d s dn) ks = ylook d ks)
    \<and> (ylook s (p # ps) = Some w \<and> plain_leaf w \<longrightarrow>
        ylook (mergeNodes d s dn) (p # ps) = (if dn \<and> isNullNode w then None else Some w))
    \<and> mergeNodes (mergeNodes d s dn) s dn = mergeNodes d s dn"
proof -
  have s: "ywf s \<and> ydist s" using assms by simp
  have "ylook (mergeNodes d s dn) (p # ps) = yleaf_result dn w" if "ylook s (p # ps) = Some w" "plain_leaf w"
    using that by (intro yaml.sets [OF assms(1) s]) (simp add: yaml_fixes_def del: ylook.simps)
  moreover have "filter (\<lambda>p. Value (fst p) \<notin> set (pair_keys (Content s))) (pairs (Content (mergeNodes d s dn))) =
        filter (\<lambda>p. Value (fst p) \<notin> set (pair_keys (Content s))) (pairs (Content d))"
    if "Kind d = MappingNode \<and> Kind s = MappingNode"
    using that untouched_merge_pairs [of "Content d" "Content s"] even_Content [OF assms(1)]
    by (simp add: mergeNodes.simps)
  ultimately show ?thesis
    using yaml.keeps [OF assms(1) s] yaml.idem [OF assms(1) s] unfolding yleaf_result_def by blast
qed

definition yscalar :: "string \<Rightarrow> unit ynode" where
  "yscalar v = YNode ScalarNode ''!!str'' v [] () []"

definition ynull :: "unit ynode" where
  "ynull = YNode ScalarNode ''!!null'' [] [] () []"

definition ymapping :: "unit ynode list \<Rightarrow> unit ynode" where
  "ymapping c = YNode MappingNode ''!!map'' [] [] () c"

lemmas ynode_defs = yscalar_def ynull_def ymapping_def

theorem mergeNodes_surgical_witness:
  "ylook (mergeNodes (ymapping [yscalar ''a'', yscalar ''1'', yscalar ''b'', yscalar ''2''])
     (ymapping [yscalar ''a'', ynull]) True) [''a''] = None"
proof -
  let ?d = "ymapping [yscalar ''a'', yscalar ''1'', yscalar ''b'', yscalar ''2'']"
  let ?s = "ymapping [yscalar ''a'', ynull]"
  have "ywf ?d" "ywf ?s" "ydist ?s" "ylook ?s [''a''] = Some ynull" "plain_leaf ynull" "isNullNode ynull"
    by (simp_all add: ynode_defs ywf.simps ydist.simps plain_leaf_def isNullNode_def)
  then show ?thesis using mergeNodes_surgical [of ?d ?s True _ "''a''" "[]" ynull] by simp
qed

text \<open>
  A deletion is refused exactly when it could not be honoured. With \<open>delete_nulls\<close>, a
  merge of two non-empty documents fails if and only if the incoming document has a
  tombstone and some node of the existing one is an alias, has an anchor or is a mapping
  with a merge key.
\<close>
theorem YAML_Merge_refuses_exactly:
  fixes d :: "'x ynode"
  shows "(\<exists>f. YAML_Merge dn (YNode DocumentNode t v a x (d # ds)) (YNode DocumentNode t' v' a' x' (s # ss))
          = Inl (CannotDelete f))
     \<longleftrightarrow> dn \<and> hasTombstone (YNode DocumentNode t' v' a' x' (s # ss))
       \<and> (\<exists>m \<in> set (subnodes (YNode DocumentNode t v a x (d # ds))). \<not> deletable m)"
proof -
  let ?e = "YNode DocumentNode t v a x (d # ds)"
  have "unsafeForDeletion ?e \<noteq> None \<longleftrightarrow> (\<exists>m \<in> set (subnodes ?e). \<not> deletable m)"
    unfolding unsafe_iff(1) by blast
  then show ?thesis
    by (cases "unsafeForDeletion ?e") (auto simp: YAML_Merge_def simp del: unsafeForDeletion.simps hasTombstone.simps subnodes.simps)
qed

text \<open>
  When a tombstone is honoured, the key is gone from the mapping however often it
  occurred, and no other pair of the mapping is lost.
\<close>
theorem tombstone_deletes_every_pair:
  assumes "Kind d = MappingNode" "Kind s = MappingNode" "ywf d" "ydist s"
    and "(k, v) \<in> set (pairs (Content s))" "isNullNode v"
  shows "Value k \<notin> set (pair_keys (Content (mergeNodes d s True)))
    \<and> (\<forall>key. key \<in> set (pair_keys (Content d)) \<and> key \<notin> set (pair_keys (Content s)) \<longrightarrow>
          key \<in> set (pair_keys (Content (mergeNodes d s True))))"
proof -
  let ?c = "merge_pairs (Content d) (Content s) True"
  have c: "Content (mergeNodes d s True) = ?c" using assms(1,2) by (simp add: mergeNodes.simps)
  have look: "yget key ?c = (case yget key (Content s) of None \<Rightarrow> yget key (Content d)
      | Some v \<Rightarrow> merged_node True (yget key (Content d)) v)" for key
    using assms by (intro yget_merge_pairs even_Content dist_Content)
  have "yget (Value k) (Content s) = Some v"
    using assms(2,4,5) by (intro yget_distinct dist_Content)
  then have "yget (Value k) ?c = None" using assms(6) by (simp add: look merged_node_def)
  moreover have "yget key ?c = yget key (Content d)" if "key \<notin> set (pair_keys (Content s))" for key
    using that yget_None [of key "Content s"] by (simp add: look)
  ultimately show ?thesis unfolding c by (metis yget_None)
qed

theorem tombstone_deletes_every_pair_witness:
  "''a'' \<notin> set (pair_keys (Content (mergeNodes
     (ymapping [yscalar ''a'', yscalar ''1'', yscalar ''a'', yscalar ''2'']) (ymapping [yscalar ''a'', ynull]) True)))"
  using tombstone_deletes_every_pair
    [of "ymapping [yscalar ''a'', yscalar ''1'', yscalar ''a'', yscalar ''2'']"
        "ymapping [yscalar ''a'', ynull]" "yscalar ''a''" ynull]
  by (simp add: ynode_defs ywf.simps ydist.simps isNullNode_def)

text \<open>
  An update, unlike a deletion, reaches only the first of two pairs with one key: most
  readers take the last one, so for them the merged file still has the old value.
\<close>
theorem update_reaches_first_duplicate_only:
  "mergeNodes (ymapping [yscalar ''k'', yscalar ''old'', yscalar ''k'', yscalar ''old''])
     (ymapping [yscalar ''k'', yscalar ''new'']) dn
   = ymapping [yscalar ''k'', yscalar ''new'', yscalar ''k'', yscalar ''old'']"
  by (simp add: ynode_defs mergeNodes.simps merge_pairs.simps isNullNode_def set_content_def)

end
