(* ===== verification/SSHConfig.thy ===== *)
theory SSHConfig
  imports MergeContract
begin

text \<open>
  \<open>internal/handlers/ssh_config.go\<close>: parsing an OpenSSH client configuration into sections
  and lines, the directive-level merge of a rendered template into it, and rendering it
  back. The Go code updates lines through pointers into the parsed tree; no line is shared
  between two trees (\<open>insertDirective\<close> and \<open>cloneBlock\<close> copy), so a pointer is an index.
\<close>

section \<open>Data\<close>

record ssh_line =
  raw :: string
  indent :: string
  keyword :: string
  args :: string
  dirty :: bool

record ssh_block =
  header :: "ssh_line option"
  block_lines :: "ssh_line list"

type_synonym ssh_config = "ssh_block list"

definition multiValued :: "string list" where
  "multiValued = [''identityfile'', ''certificatefile'', ''localforward'', ''remoteforward'',
     ''dynamicforward'', ''sendenv'', ''setenv'', ''include'', ''permitremoteopen'']"

section \<open>Parsing\<close>

abbreviation blank :: "char \<Rightarrow> bool" where
  "blank c \<equiv> c = CHR '' '' \<or> c = CHR 0x09"

definition key_end :: "char \<Rightarrow> bool" where
  "key_end c \<longleftrightarrow> blank c \<or> c = CHR ''=''"

definition splitLines :: "string \<Rightarrow> string list" where
  "splitLines s = map (trim_suffix [CHR 0x0D]) (split_ch (CHR 0x0A) s)"

definition parseLine :: "string \<Rightarrow> ssh_line" where
  "parseLine r =
     (let ind = takeWhile (\<lambda>c. blank c) r;
          rest = dropWhile (\<lambda>c. blank c) r
      in if rest = [] \<or> has_prefix ''#'' rest
         then \<lparr>raw = r, indent = ind, keyword = [], args = [], dirty = False\<rparr>
         else case dropWhile (\<lambda>c. \<not> key_end c) rest of
                [] \<Rightarrow> \<lparr>raw = r, indent = ind, keyword = rest, args = [], dirty = False\<rparr>
              | c # cs \<Rightarrow>
                  \<lparr>raw = r, indent = ind, keyword = takeWhile (\<lambda>c. \<not> key_end c) rest,
                   args = trim_space (trim_prefix ''='' (trim_space (c # cs))), dirty = False\<rparr>)"

definition is_header :: "ssh_line \<Rightarrow> bool" where
  "is_header l \<longleftrightarrow> to_lower (keyword l) = ''host'' \<or> to_lower (keyword l) = ''match''"

text \<open>The loop over the lines: the section being filled and those still to come.\<close>

fun parse_sections :: "ssh_block \<Rightarrow> ssh_line list \<Rightarrow> ssh_config" where
  "parse_sections current [] = [current]"
| "parse_sections current (l # ls) =
     (if is_header l then current # parse_sections \<lparr>header = Some l, block_lines = []\<rparr> ls
      else parse_sections (current\<lparr>block_lines := block_lines current @ [l]\<rparr>) ls)"

definition global_section :: ssh_block where
  "global_section = \<lparr>header = None, block_lines = []\<rparr>"

definition parseSSHConfig :: "string \<Rightarrow> ssh_config" where
  "parseSSHConfig content =
     (if content = [] then [global_section]
      else let body = trim_suffix [CHR 0x0D] (trim_suffix [CHR 0x0A] content)
           in parse_sections global_section (map parseLine (splitLines body)))"

section \<open>Rendering\<close>

definition render_line :: "ssh_line \<Rightarrow> string" where
  "render_line l =
     (if \<not> dirty l then raw l
      else if args l = [] then indent l @ keyword l
      else indent l @ keyword l @ '' '' @ args l)"

definition render_block :: "ssh_block \<Rightarrow> string" where
  "render_block b =
     (case header b of None \<Rightarrow> [] | Some h \<Rightarrow> render_line h @ [CHR 0x0A])
     @ concat (map (\<lambda>l. render_line l @ [CHR 0x0A]) (block_lines b))"

definition render_config :: "ssh_config \<Rightarrow> string" where
  "render_config c = concat (map render_block c)"

section \<open>Identity of sections and directives\<close>

definition isDirective :: "ssh_line \<Rightarrow> bool" where
  "isDirective l \<longleftrightarrow> keyword l \<noteq> []"

definition collapseSpaces :: "string \<Rightarrow> string" where
  "collapseSpaces s = join_str '' '' (str_fields s)"

definition blockKey :: "ssh_block \<Rightarrow> string" where
  "blockKey b =
     (case header b of
        None \<Rightarrow> CHR 0x00 # ''global''
      | Some h \<Rightarrow> to_lower (keyword h) @ '' '' @ collapseSpaces (args h))"

definition findBlock :: "ssh_config \<Rightarrow> ssh_block \<Rightarrow> nat option" where
  "findBlock c want = find_idx (\<lambda>b. blockKey b = blockKey want) c"

definition firstField :: "string \<Rightarrow> string" where
  "firstField s = (case str_fields s of [] \<Rightarrow> [] | f # fs \<Rightarrow> f)"

definition directiveKey :: "ssh_line \<Rightarrow> string" where
  "directiveKey l =
     (let kw = to_lower (keyword l) in
      if kw \<notin> set multiValued then kw
      else let first = firstField (args l);
               first = (if kw = ''setenv'' then takeWhile (\<lambda>c. c \<noteq> CHR ''='') first else first)
           in kw @ [CHR 0x00] @ first)"

definition findDirective :: "ssh_block \<Rightarrow> string \<Rightarrow> nat option" where
  "findDirective b key = find_idx (\<lambda>l. isDirective l \<and> directiveKey l = key) (block_lines b)"

section \<open>Merging\<close>

definition cloneLineDirty :: "ssh_line \<Rightarrow> ssh_line" where
  "cloneLineDirty src =
     \<lparr>raw = [], indent = indent src, keyword = keyword src, args = args src, dirty = True\<rparr>"

definition cloneBlock :: "ssh_block \<Rightarrow> ssh_block" where
  "cloneBlock src =
     \<lparr>header = map_option cloneLineDirty (header src),
      block_lines = map (\<lambda>l. if isDirective l then cloneLineDirty l else l) (block_lines src)\<rparr>"

text \<open>The loop of \<open>insertDirective\<close>: the last directive's indentation and position.\<close>

fun last_directive :: "nat \<Rightarrow> ssh_line list \<Rightarrow> string \<Rightarrow> nat option \<Rightarrow> string \<times> nat option" where
  "last_directive i [] ind pos = (ind, pos)"
| "last_directive i (l # ls) ind pos =
     (if isDirective l then last_directive (Suc i) ls (indent l) (Some i)
      else last_directive (Suc i) ls ind pos)"

definition insertDirective :: "ssh_block \<Rightarrow> ssh_line \<Rightarrow> ssh_block" where
  "insertDirective b src =
     (let ls = block_lines b;
          (ind, last) = last_directive 0 ls (indent src) None;
          newLine = \<lparr>raw = [], indent = ind, keyword = keyword src, args = args src, dirty = True\<rparr>;
          pos = (case last of None \<Rightarrow> length ls | Some i \<Rightarrow> Suc i)
      in b\<lparr>block_lines := take pos ls @ [newLine] @ drop pos ls\<rparr>)"

definition mergeDirective :: "ssh_block \<Rightarrow> ssh_line \<Rightarrow> ssh_block" where
  "mergeDirective dst srcLine =
     (if \<not> isDirective srcLine then dst
      else case findDirective dst (directiveKey srcLine) of
             Some i \<Rightarrow>
               dst\<lparr>block_lines := (block_lines dst)[i :=
                 (block_lines dst ! i)\<lparr>args := args srcLine, dirty := True\<rparr>]\<rparr>
           | None \<Rightarrow> insertDirective dst srcLine)"

definition mergeDirectives :: "ssh_block \<Rightarrow> ssh_block \<Rightarrow> ssh_block" where
  "mergeDirectives dst src = foldl mergeDirective dst (block_lines src)"

definition mergeBlock :: "ssh_config \<Rightarrow> ssh_block \<Rightarrow> ssh_config" where
  "mergeBlock dst srcBlock =
     (case findBlock dst srcBlock of
        None \<Rightarrow> dst @ [cloneBlock srcBlock]
      | Some i \<Rightarrow> dst[i := mergeDirectives (dst ! i) srcBlock])"

definition mergeSSHConfig :: "ssh_config \<Rightarrow> ssh_config \<Rightarrow> ssh_config" where
  "mergeSSHConfig dst src = foldl mergeBlock dst src"

section \<open>Rendering what was parsed\<close>

lemma render_parseLine [simp]: "render_line (parseLine r) = r"
  by (auto simp: parseLine_def render_line_def Let_def split: list.splits)

definition newline_terminated :: "string list \<Rightarrow> string" where
  "newline_terminated ls = concat (map (\<lambda>l. l @ [CHR 0x0A]) ls)"

lemma newline_terminated_split: "newline_terminated (split_ch (CHR 0x0A) s) = s @ [CHR 0x0A]"
proof (induction s)
  case Nil
  then show ?case by (simp add: newline_terminated_def)
next
  case (Cons x s)
  obtain q qs where "split_ch (CHR 0x0A) s = q # qs" by (metis split_ch_not_Nil neq_Nil_conv)
  with Cons show ?case by (simp add: newline_terminated_def)
qed

lemma newline_terminated_Cons [simp]:
  "newline_terminated [] = []" "newline_terminated (l # ls) = l @ CHR 0x0A # newline_terminated ls"
  by (simp_all add: newline_terminated_def)

lemma newline_terminated_append [simp]:
  "newline_terminated (ls @ ls') = newline_terminated ls @ newline_terminated ls'"
  by (simp add: newline_terminated_def)

lemma split_newline_terminated:
  "ls \<noteq> [] \<Longrightarrow> \<forall>l \<in> set ls. CHR 0x0A \<notin> set l \<Longrightarrow>
   \<exists>b. newline_terminated ls = b @ [CHR 0x0A] \<and> split_ch (CHR 0x0A) b = ls"
proof (induction ls)
  case (Cons l ls)
  show ?case
  proof (cases "ls = []")
    case True
    then show ?thesis using Cons.prems by (intro exI [of _ l]) (simp add: split_ch_no_sep)
  next
    case False
    then obtain b where "newline_terminated ls = b @ [CHR 0x0A] \<and> split_ch (CHR 0x0A) b = ls"
      using Cons by auto
    then show ?thesis
      using Cons.prems by (intro exI [of _ "l @ CHR 0x0A # b"]) (simp add: split_ch_append)
  qed
qed simp

definition block_texts :: "ssh_block \<Rightarrow> string list" where
  "block_texts b = (case header b of None \<Rightarrow> [] | Some h \<Rightarrow> [render_line h])
     @ map render_line (block_lines b)"

definition config_texts :: "ssh_config \<Rightarrow> string list" where
  "config_texts c = concat (map block_texts c)"

lemma render_block_texts: "render_block b = newline_terminated (block_texts b)"
  by (simp add: render_block_def block_texts_def newline_terminated_def comp_def split: option.splits)

lemma render_config_texts: "render_config c = newline_terminated (config_texts c)"
  by (induction c) (simp_all add: render_config_def config_texts_def render_block_texts)

lemma config_texts_parse_sections:
  "config_texts (parse_sections b ls) = block_texts b @ map render_line ls"
  by (induction b ls rule: parse_sections.induct) (auto simp: config_texts_def block_texts_def)

lemma trim_suffix_absent: "c \<notin> set s \<Longrightarrow> trim_suffix [c] s = s"
  by (auto simp: trim_suffix_def cut_suffix_Some_iff split: option.splits)

lemma trim_suffix_present [simp]: "trim_suffix suf (s @ suf) = s"
  by (simp add: trim_suffix_def)

lemma splitLines_no_cr: "CHR 0x0D \<notin> set s \<Longrightarrow> splitLines s = split_ch (CHR 0x0A) s"
  unfolding splitLines_def
  by (rule map_idI, rule trim_suffix_absent) (auto dest: set_split_ch)

lemma parseSSHConfig_terminated:
  assumes "CHR 0x0D \<notin> set b"
  shows "parseSSHConfig (b @ [CHR 0x0A]) =
    parse_sections global_section (map parseLine (split_ch (CHR 0x0A) b))"
  using assms by (simp add: parseSSHConfig_def trim_suffix_absent splitLines_no_cr)

section \<open>Looking up sections and directives\<close>

definition has_key :: "string \<Rightarrow> ssh_line \<Rightarrow> bool" where
  "has_key k l \<longleftrightarrow> isDirective l \<and> directiveKey l = k"

definition dfind :: "ssh_block \<Rightarrow> string \<Rightarrow> ssh_line option" where
  "dfind b k = find (has_key k) (block_lines b)"

definition bfind :: "ssh_config \<Rightarrow> string \<Rightarrow> ssh_block option" where
  "bfind c bk = find (\<lambda>b. blockKey b = bk) c"

definition set_args :: "string \<Rightarrow> ssh_line \<Rightarrow> ssh_line" where
  "set_args a l = l\<lparr>args := a, dirty := True\<rparr>"

definition no_nul :: "ssh_line \<Rightarrow> bool" where
  "no_nul l \<longleftrightarrow> CHR 0x00 \<notin> set (keyword l)"

lemma set_args_simps [simp]:
  "keyword (set_args a l) = keyword l" "args (set_args a l) = a" "dirty (set_args a l)"
  "indent (set_args a l) = indent l" "isDirective (set_args a l) = isDirective l"
  "no_nul (set_args a l) = no_nul l"
  by (simp_all add: set_args_def isDirective_def no_nul_def)

lemma cloneLineDirty_simps [simp]:
  "keyword (cloneLineDirty l) = keyword l" "args (cloneLineDirty l) = args l"
  "indent (cloneLineDirty l) = indent l" "dirty (cloneLineDirty l)"
  "isDirective (cloneLineDirty l) = isDirective l" "directiveKey (cloneLineDirty l) = directiveKey l"
  "has_key k (cloneLineDirty l) = has_key k l" "no_nul (cloneLineDirty l) = no_nul l"
  by (simp_all add: cloneLineDirty_def isDirective_def directiveKey_def has_key_def no_nul_def Let_def)

lemma mergeDirective_found:
  "isDirective l \<Longrightarrow> findDirective b (directiveKey l) \<noteq> None \<Longrightarrow>
   mergeDirective b l = b\<lparr>block_lines := upd_first (has_key (directiveKey l)) (set_args (args l)) (block_lines b)\<rparr>"
  using find_idx_Some [of "has_key (directiveKey l)" "block_lines b" _ "set_args (args l)"]
  by (auto simp: mergeDirective_def findDirective_def has_key_def [abs_def] set_args_def)

lemma findDirective_None: "findDirective b k = None \<longleftrightarrow> dfind b k = None"
  by (auto simp: findDirective_def dfind_def find_idx_None find_None_iff has_key_def)

lemma lower_table_NUL: "(a, b) \<in> set lower_table \<Longrightarrow> a \<noteq> CHR 0x00 \<and> b \<noteq> CHR 0x00"
  by (simp add: lower_table_def) blast

lemma ascii_lower_NUL: "ascii_lower c = CHR 0x00 \<longleftrightarrow> c = CHR 0x00"
  using lower_table_NUL by (auto simp: ascii_lower_def dest!: map_of_SomeD split: option.splits)

lemma lower_NUL: "CHR 0x00 \<in> set (to_lower s) \<longleftrightarrow> CHR 0x00 \<in> set s"
proof -
  have "CHR 0x00 \<in> ascii_lower ` set s \<longleftrightarrow> (\<exists>c \<in> set s. ascii_lower c = CHR 0x00)"
    by (metis image_iff)
  then show ?thesis unfolding ascii_lower_NUL by (simp add: to_lower_def)
qed

lemma takeWhile_absent: "c \<notin> set s \<Longrightarrow> takeWhile (\<lambda>x. x \<noteq> c) s = s"
  by (induction s) auto

lemma takeWhile_upto: "c \<notin> set s \<Longrightarrow> takeWhile (\<lambda>x. x \<noteq> c) (s @ c # t) = s"
  by (induction s) auto

text \<open>The discriminator is the identity: writing a directive's arguments keeps its key.\<close>

lemma directiveKey_eqD:
  assumes "no_nul l" "no_nul x" "directiveKey x = directiveKey l"
  shows "to_lower (keyword x) = to_lower (keyword l)"
proof -
  have nul: "CHR 0x00 \<notin> set (to_lower (keyword x))" "CHR 0x00 \<notin> set (to_lower (keyword l))"
    using assms by (simp_all add: lower_NUL no_nul_def)
  have key: "to_lower (keyword y) = takeWhile (\<lambda>c. c \<noteq> CHR 0x00) (directiveKey y)"
    if "CHR 0x00 \<notin> set (to_lower (keyword y))" for y
    using that by (simp add: directiveKey_def Let_def takeWhile_absent takeWhile_upto)
  show ?thesis using key [OF nul(1)] key [OF nul(2)] assms(3) by simp
qed

lemma directiveKey_set_args:
  "no_nul l \<Longrightarrow> no_nul x \<Longrightarrow> directiveKey x = directiveKey l \<Longrightarrow>
   directiveKey (set_args (args l) x) = directiveKey l"
  using directiveKey_eqD [of l x] unfolding directiveKey_def Let_def set_args_simps by simp

section \<open>What one directive's merge does\<close>

abbreviation nul_free :: "ssh_block \<Rightarrow> bool" where
  "nul_free b \<equiv> \<forall>l \<in> set (block_lines b). no_nul l"

lemma insertDirective_shape:
  "\<exists>us vs n. block_lines b = us @ vs \<and> insertDirective b src = b\<lparr>block_lines := us @ n # vs\<rparr>
     \<and> keyword n = keyword src \<and> args n = args src \<and> dirty n"
proof -
  obtain ind last where last: "last_directive 0 (block_lines b) (indent src) None = (ind, last)"
    by force
  let ?pos = "case last of None \<Rightarrow> length (block_lines b) | Some i \<Rightarrow> Suc i"
  show ?thesis
    by (intro exI [of _ "take ?pos (block_lines b)"] exI [of _ "drop ?pos (block_lines b)"]
        exI [of _ "\<lparr>raw = [], indent = ind, keyword = keyword src, args = args src, dirty = True\<rparr>"])
       (simp add: insertDirective_def last Let_def)
qed

lemma has_key_cong: "keyword n = keyword l \<Longrightarrow> args n = args l \<Longrightarrow> has_key k n = has_key k l"
  by (simp add: has_key_def isDirective_def directiveKey_def Let_def)

lemma mergeDirective_skip [simp]: "\<not> isDirective l \<Longrightarrow> mergeDirective b l = b"
  by (simp add: mergeDirective_def)

lemma header_mergeDirective [simp]: "header (mergeDirective b l) = header b"
  using insertDirective_shape [of b l]
  by (auto simp: mergeDirective_def split: option.splits)

lemma has_key_set_args:
  "no_nul l \<Longrightarrow> no_nul x \<Longrightarrow> has_key (directiveKey l) x \<Longrightarrow>
   has_key k (set_args (args l) x) \<longleftrightarrow> k = directiveKey l"
  by (auto simp: has_key_def directiveKey_set_args)

lemma dfind_mergeDirective:
  assumes "nul_free b" "no_nul l" "isDirective l"
  shows "\<exists>x. args x = args l \<and> dirty x \<and>
    dfind (mergeDirective b l) = (dfind b)(directiveKey l \<mapsto> x)"
proof (cases "dfind b (directiveKey l)")
  case None
  then have m: "mergeDirective b l = insertDirective b l"
    using assms(3) findDirective_None [of b "directiveKey l"] by (simp add: mergeDirective_def)
  obtain us vs n where sh: "block_lines b = us @ vs" "insertDirective b l = b\<lparr>block_lines := us @ n # vs\<rparr>"
      "keyword n = keyword l" "args n = args l" "dirty n"
    using insertDirective_shape by blast
  have key: "has_key k n \<longleftrightarrow> k = directiveKey l" for k
    using has_key_cong [OF sh(3,4)] assms(3) by (auto simp: has_key_def)
  have "dfind (mergeDirective b l) k = ((dfind b)(directiveKey l \<mapsto> n)) k" for k
    using None sh key by (auto simp: m dfind_def find_append split: option.splits)
  then show ?thesis using sh by blast
next
  case (Some x)
  then have f: "findDirective b (directiveKey l) \<noteq> None"
    using findDirective_None [of b "directiveKey l"] by simp
  let ?x = "set_args (args l) x"
  have keep: "\<forall>y \<in> set (block_lines b). has_key (directiveKey l) y \<longrightarrow>
      (\<forall>k. has_key k (set_args (args l) y) \<longleftrightarrow> k = directiveKey l)"
    using has_key_set_args assms by blast
  have "dfind (mergeDirective b l) k = ((dfind b)(directiveKey l \<mapsto> ?x)) k" for k
  proof (cases "k = directiveKey l")
    case True
    then show ?thesis
      using Some keep by (simp add: mergeDirective_found [OF assms(3) f] dfind_def find_upd_first_same)
  next
    case False
    then have "\<forall>y \<in> set (block_lines b). has_key (directiveKey l) y \<longrightarrow>
        \<not> has_key k y \<and> \<not> has_key k (set_args (args l) y)"
      using keep by (auto simp: has_key_def)
    then show ?thesis
      using False by (simp add: mergeDirective_found [OF assms(3) f] dfind_def find_upd_first_other)
  qed
  then show ?thesis by (intro exI [of _ ?x]) auto
qed

lemma nul_free_mergeDirective:
  assumes "nul_free b" "no_nul l"
  shows "nul_free (mergeDirective b l)"
proof (cases "isDirective l \<and> findDirective b (directiveKey l) \<noteq> None")
  case True
  then show ?thesis using assms
    by (auto simp: mergeDirective_found dest!: set_upd_first)
next
  case False
  obtain us vs n where "block_lines b = us @ vs" "insertDirective b l = b\<lparr>block_lines := us @ n # vs\<rparr>"
      "keyword n = keyword l"
    using insertDirective_shape by blast
  with False assms show ?thesis
    by (auto simp: mergeDirective_def no_nul_def split: option.splits)
qed

text \<open>Lines that are not directives, and directives no incoming line names, stay.\<close>

definition survives :: "string set \<Rightarrow> ssh_line \<Rightarrow> bool" where
  "survives ks l \<longleftrightarrow> \<not> isDirective l \<or> directiveKey l \<notin> ks"

lemma survives_mergeDirective:
  assumes "nul_free b" "no_nul l" "isDirective l \<longrightarrow> directiveKey l \<in> ks"
  shows "filter (survives ks) (block_lines (mergeDirective b l)) = filter (survives ks) (block_lines b)"
proof (cases "isDirective l")
  case True
  have gone: "has_key (directiveKey l) y \<Longrightarrow> \<not> survives ks y" for y
    using assms(3) True by (auto simp: has_key_def survives_def)
  show ?thesis
  proof (cases "findDirective b (directiveKey l)")
    case None
    obtain us vs n where sh: "block_lines b = us @ vs" "insertDirective b l = b\<lparr>block_lines := us @ n # vs\<rparr>"
        "keyword n = keyword l" "args n = args l"
      using insertDirective_shape by blast
    have "\<not> survives ks n"
      using True has_key_cong [OF sh(3,4)] by (intro gone) (auto simp: has_key_def)
    with None True sh show ?thesis by (simp add: mergeDirective_def)
  next
    case (Some i)
    then show ?thesis
      using True assms gone has_key_set_args
      by (subst mergeDirective_found) (auto intro!: filter_upd_first_other)
  qed
qed simp

lemma mergeDirective_absorbed:
  assumes "dfind b (directiveKey l) = Some x" "args x = args l" "dirty x"
  shows "mergeDirective b l = b"
proof (cases "isDirective l")
  case True
  have "findDirective b (directiveKey l) \<noteq> None"
    using assms findDirective_None [of b "directiveKey l"] by simp
  moreover have "upd_first (has_key (directiveKey l)) (set_args (args l)) (block_lines b) = block_lines b"
    using assms by (intro upd_first_id) (auto simp: dfind_def set_args_def)
  ultimately show ?thesis using True by (simp add: mergeDirective_found)
qed simp

section \<open>Merging a section\<close>

abbreviation directives :: "ssh_block \<Rightarrow> ssh_line list" where
  "directives b \<equiv> filter isDirective (block_lines b)"

definition distinct_keys :: "ssh_block \<Rightarrow> bool" where
  "distinct_keys b \<longleftrightarrow> distinct (map directiveKey (directives b))"

lemma header_mergeDirectives [simp]: "header (mergeDirectives b B) = header b"
proof -
  have "header (foldl mergeDirective b ls) = header b" for ls by (induction ls arbitrary: b) auto
  then show ?thesis by (simp add: mergeDirectives_def)
qed

lemma blockKey_mergeDirectives [simp]: "blockKey (mergeDirectives b B) = blockKey b"
  by (simp add: blockKey_def)

lemma blockKey_cloneBlock [simp]: "blockKey (cloneBlock B) = blockKey B"
  by (cases "header B") (simp_all add: blockKey_def cloneBlock_def)

lemma foldl_mergeDirective:
  assumes "nul_free b" "\<forall>l \<in> set ls. no_nul l" "distinct (map directiveKey (filter isDirective ls))"
  shows "nul_free (foldl mergeDirective b ls)
    \<and> (\<forall>l \<in> set ls. isDirective l \<longrightarrow> (\<exists>x. dfind (foldl mergeDirective b ls) (directiveKey l) = Some x
          \<and> args x = args l \<and> dirty x))
    \<and> (\<forall>k. k \<notin> directiveKey ` set (filter isDirective ls) \<longrightarrow>
          dfind (foldl mergeDirective b ls) k = dfind b k)"
  using assms
proof (induction ls arbitrary: b)
  case Nil
  then show ?case by simp
next
  case (Cons l ls)
  let ?b = "mergeDirective b l"
  have nf: "nul_free ?b" using Cons.prems by (intro nul_free_mergeDirective) auto
  have ih: "nul_free (foldl mergeDirective ?b ls)"
    "\<forall>l \<in> set ls. isDirective l \<longrightarrow> (\<exists>x. dfind (foldl mergeDirective ?b ls) (directiveKey l) = Some x
          \<and> args x = args l \<and> dirty x)"
    "\<forall>k. k \<notin> directiveKey ` set (filter isDirective ls) \<longrightarrow>
          dfind (foldl mergeDirective ?b ls) k = dfind ?b k"
    using Cons.IH [OF nf] Cons.prems by (auto split: if_splits)
  show ?case
  proof (cases "isDirective l")
    case False
    then show ?thesis using ih by auto
  next
    case True
    then obtain x where x: "args x = args l" "dirty x" "dfind ?b = (dfind b)(directiveKey l \<mapsto> x)"
      using dfind_mergeDirective [of b l] Cons.prems by auto
    have "directiveKey l \<notin> directiveKey ` set (filter isDirective ls)"
      using Cons.prems(3) True by auto
    then have "dfind (foldl mergeDirective ?b ls) (directiveKey l) = Some x" using ih(3) x by simp
    then show ?thesis using ih x True by auto
  qed
qed

lemma foldl_absorbed:
  "\<forall>l \<in> set ls. isDirective l \<longrightarrow> (\<exists>x. dfind b (directiveKey l) = Some x \<and> args x = args l \<and> dirty x)
   \<Longrightarrow> foldl mergeDirective b ls = b"
proof (induction ls)
  case (Cons l ls)
  then have "mergeDirective b l = b" by (cases "isDirective l") (auto intro: mergeDirective_absorbed)
  with Cons show ?case by simp
qed simp

lemma mergeDirectives_idem:
  "nul_free b \<Longrightarrow> nul_free B \<Longrightarrow> distinct_keys B \<Longrightarrow>
   mergeDirectives (mergeDirectives b B) B = mergeDirectives b B"
  using foldl_mergeDirective [of b "block_lines B"]
  by (simp add: mergeDirectives_def distinct_keys_def foldl_absorbed)

lemma dfind_cloneBlock:
  assumes "distinct_keys B" "l \<in> set (block_lines B)" "isDirective l"
  shows "dfind (cloneBlock B) (directiveKey l) = Some (cloneLineDirty l)"
proof -
  have "find (\<lambda>y. isDirective y \<and> directiveKey y = directiveKey l) (block_lines B) = Some l"
    using assms unfolding distinct_keys_def by (rule find_distinct)
  moreover have "find (has_key k) (map (\<lambda>l. if isDirective l then cloneLineDirty l else l) ls) =
      map_option cloneLineDirty (find (\<lambda>y. isDirective y \<and> directiveKey y = k) ls)" for k ls
    by (induction ls) (auto simp: has_key_def)
  ultimately show ?thesis by (simp add: dfind_def cloneBlock_def)
qed

lemma mergeDirectives_cloneBlock: "distinct_keys B \<Longrightarrow> mergeDirectives (cloneBlock B) B = cloneBlock B"
  using dfind_cloneBlock by (force simp: mergeDirectives_def intro!: foldl_absorbed)

lemma survives_mergeDirectives:
  assumes "nul_free b" "nul_free B" "directiveKey ` set (directives B) \<subseteq> ks"
  shows "filter (survives ks) (block_lines (mergeDirectives b B)) = filter (survives ks) (block_lines b)"
proof -
  have "filter (survives ks) (block_lines (foldl mergeDirective b ls)) = filter (survives ks) (block_lines b)"
    if "nul_free b" "\<forall>l \<in> set ls. no_nul l" "directiveKey ` set (filter isDirective ls) \<subseteq> ks" for ls
    using that
  proof (induction ls arbitrary: b)
    case (Cons l ls)
    then have "filter (survives ks) (block_lines (mergeDirective b l)) = filter (survives ks) (block_lines b)"
      by (intro survives_mergeDirective) (auto split: if_splits)
    moreover have "filter (survives ks) (block_lines (foldl mergeDirective (mergeDirective b l) ls))
        = filter (survives ks) (block_lines (mergeDirective b l))"
      using Cons.prems by (intro Cons.IH nul_free_mergeDirective) (auto split: if_splits)
    ultimately show ?case by simp
  qed simp
  then show ?thesis using assms by (simp add: mergeDirectives_def)
qed

section \<open>Merging a document\<close>

abbreviation config_ok :: "ssh_config \<Rightarrow> bool" where
  "config_ok c \<equiv> \<forall>b \<in> set c. nul_free b"

text \<open>A template in which no section and no directive of a section is given twice.\<close>

definition template_ok :: "ssh_config \<Rightarrow> bool" where
  "template_ok s \<longleftrightarrow> config_ok s \<and> (\<forall>B \<in> set s. distinct_keys B) \<and> distinct (map blockKey s)"

lemma mergeBlock_eq:
  "mergeBlock d B =
     (if bfind d (blockKey B) = None then d @ [cloneBlock B]
      else upd_first (\<lambda>b. blockKey b = blockKey B) (\<lambda>b. mergeDirectives b B) d)"
proof (cases "findBlock d B")
  case None
  then have "bfind d (blockKey B) = None"
    by (simp add: findBlock_def bfind_def find_idx_None find_None_iff)
  with None show ?thesis by (simp add: mergeBlock_def)
next
  case (Some i)
  then have "bfind d (blockKey B) \<noteq> None"
    using find_idx_None [of "\<lambda>b. blockKey b = blockKey B" d]
    by (auto simp: findBlock_def bfind_def find_None_iff)
  then show ?thesis
    using Some find_idx_Some [of "\<lambda>b. blockKey b = blockKey B" d i "\<lambda>b. mergeDirectives b B"]
    by (auto simp: mergeBlock_def findBlock_def)
qed

definition merged_block :: "ssh_block \<Rightarrow> ssh_block option \<Rightarrow> ssh_block" where
  "merged_block B bo = (case bo of None \<Rightarrow> cloneBlock B | Some b \<Rightarrow> mergeDirectives b B)"

lemma bfind_mergeBlock:
  "bfind (mergeBlock d B) = (bfind d)(blockKey B \<mapsto> merged_block B (bfind d (blockKey B)))"
proof (cases "bfind d (blockKey B)")
  case None
  then show ?thesis
    by (auto simp: mergeBlock_eq bfind_def find_append merged_block_def fun_eq_iff split: option.splits)
next
  case (Some b)
  have "bfind (mergeBlock d B) bk = ((bfind d)(blockKey B \<mapsto> mergeDirectives b B)) bk" for bk
    using Some by (cases "bk = blockKey B")
      (auto simp: mergeBlock_eq bfind_def find_upd_first_same find_upd_first_other)
  then show ?thesis using Some by (auto simp: merged_block_def)
qed

lemma nul_free_mergeDirectives:
  "nul_free b \<Longrightarrow> nul_free B \<Longrightarrow> nul_free (mergeDirectives b B)"
proof -
  have "nul_free b \<Longrightarrow> \<forall>l \<in> set ls. no_nul l \<Longrightarrow> nul_free (foldl mergeDirective b ls)" for ls
  proof (induction ls arbitrary: b)
    case (Cons l ls)
    have "nul_free (mergeDirective b l)" using Cons.prems by (intro nul_free_mergeDirective) auto
    then show ?case using Cons by simp
  qed simp
  then show "nul_free b \<Longrightarrow> nul_free B \<Longrightarrow> nul_free (mergeDirectives b B)"
    by (simp add: mergeDirectives_def)
qed

lemma nul_free_cloneBlock: "nul_free B \<Longrightarrow> nul_free (cloneBlock B)"
  by (auto simp: cloneBlock_def)

lemma bfind_ok: "config_ok d \<Longrightarrow> bfind d bk = Some b \<Longrightarrow> nul_free b"
  unfolding bfind_def by (blast dest: find_Some_prop)

lemma set_mergeBlock:
  "x \<in> set (mergeBlock d B) \<Longrightarrow> x \<in> set d \<or> x = cloneBlock B \<or> (\<exists>b \<in> set d. x = mergeDirectives b B)"
  unfolding mergeBlock_eq by (auto split: if_splits dest: set_upd_first)

lemma config_ok_mergeBlock: "config_ok d \<Longrightarrow> nul_free B \<Longrightarrow> config_ok (mergeBlock d B)"
proof
  fix x
  assume ok: "config_ok d" "nul_free B" and "x \<in> set (mergeBlock d B)"
  then consider "x \<in> set d" | "x = cloneBlock B" | b where "b \<in> set d" "x = mergeDirectives b B"
    using set_mergeBlock by blast
  then show "nul_free x"
  proof cases
    case 1
    then show ?thesis using ok(1) by simp
  next
    case 2
    then show ?thesis using nul_free_cloneBlock [OF ok(2)] by simp
  next
    case (3 b)
    have "nul_free b" by (rule bspec [OF ok(1) 3(1)])
    then show ?thesis unfolding 3(2) by (rule nul_free_mergeDirectives [OF _ ok(2)])
  qed
qed

lemma config_ok_merge: "config_ok d \<Longrightarrow> config_ok s \<Longrightarrow> config_ok (mergeSSHConfig d s)"
  unfolding mergeSSHConfig_def
proof (induction s arbitrary: d)
  case (Cons B s)
  have "config_ok (mergeBlock d B)" by (rule config_ok_mergeBlock) (use Cons.prems in simp_all)
  moreover have "config_ok s" using Cons.prems(2) by simp
  ultimately show ?case using Cons.IH [of "mergeBlock d B"] by simp
qed simp

text \<open>A section is settled for a template section when merging that again is a no-op.\<close>

definition settled :: "ssh_block \<Rightarrow> ssh_block \<Rightarrow> bool" where
  "settled B b \<longleftrightarrow> mergeDirectives b B = b
     \<and> (\<forall>l \<in> set (block_lines B). isDirective l \<longrightarrow>
          map_option args (dfind b (directiveKey l)) = Some (args l))"

lemma settled_merged_block:
  assumes "nul_free B" "distinct_keys B" "\<And>b. bo = Some b \<Longrightarrow> nul_free b"
  shows "settled B (merged_block B bo)"
proof (cases bo)
  case None
  then show ?thesis
    using assms mergeDirectives_cloneBlock [of B] dfind_cloneBlock [of B]
    by (simp add: settled_def merged_block_def)
next
  case (Some b)
  then show ?thesis
    using assms mergeDirectives_idem [of b B] foldl_mergeDirective [of b "block_lines B"]
    by (fastforce simp: settled_def merged_block_def distinct_keys_def mergeDirectives_def)
qed

lemma mergeBlock_settled: "bfind d (blockKey B) = Some b \<Longrightarrow> settled B b \<Longrightarrow> mergeBlock d B = d"
  by (auto simp: mergeBlock_eq settled_def bfind_def intro!: upd_first_id)

lemma bfind_merge_other: "bk \<notin> blockKey ` set s \<Longrightarrow> bfind (mergeSSHConfig d s) bk = bfind d bk"
  unfolding mergeSSHConfig_def
  by (induction s arbitrary: d) (auto simp: bfind_mergeBlock)

lemma bfind_merge:
  "distinct (map blockKey s) \<Longrightarrow> B \<in> set s \<Longrightarrow>
   bfind (mergeSSHConfig d s) (blockKey B) = Some (merged_block B (bfind d (blockKey B)))"
proof (induction s arbitrary: d)
  case (Cons A s)
  show ?case
  proof (cases "B = A")
    case True
    then have "bfind (mergeSSHConfig (mergeBlock d A) s) (blockKey B) = bfind (mergeBlock d A) (blockKey B)"
      using Cons.prems by (intro bfind_merge_other) auto
    then show ?thesis using True by (simp add: mergeSSHConfig_def bfind_mergeBlock)
  next
    case False
    then have "blockKey B \<noteq> blockKey A" using Cons.prems by (auto simp: image_iff)
    then show ?thesis using Cons False by (simp add: mergeSSHConfig_def bfind_mergeBlock)
  qed
qed simp

lemma settled_merge:
  assumes "config_ok d" "template_ok s" "B \<in> set s"
  shows "\<exists>b. bfind (mergeSSHConfig d s) (blockKey B) = Some b \<and> settled B b"
  using assms bfind_merge [of s B d] bfind_ok [OF assms(1)]
  by (auto simp: template_ok_def intro!: settled_merged_block)

lemma mergeSSHConfig_idem:
  assumes "config_ok d" "template_ok s"
  shows "mergeSSHConfig (mergeSSHConfig d s) s = mergeSSHConfig d s"
proof -
  have "foldl mergeBlock c ss = c" if "\<forall>B \<in> set ss. \<exists>b. bfind c (blockKey B) = Some b \<and> settled B b" for c ss
    using that by (induction ss) (auto simp: mergeBlock_settled)
  then show ?thesis using settled_merge [OF assms] unfolding mergeSSHConfig_def by blast
qed

section \<open>The contract\<close>

definition ssh_peek :: "ssh_config \<Rightarrow> string \<times> string \<Rightarrow> string option" where
  "ssh_peek c k =
     (case bfind c (fst k) of None \<Rightarrow> None | Some b \<Rightarrow> map_option args (dfind b (snd k)))"

definition ssh_silent :: "ssh_config \<Rightarrow> string \<times> string \<Rightarrow> bool" where
  "ssh_silent s k \<longleftrightarrow>
     (\<forall>B \<in> set s. blockKey B = fst k \<longrightarrow> snd k \<notin> directiveKey ` set (directives B))"

definition ssh_fixes :: "ssh_config \<Rightarrow> string \<times> string \<Rightarrow> string option \<Rightarrow> bool" where
  "ssh_fixes s k v \<longleftrightarrow>
     (\<exists>B \<in> set s. \<exists>l \<in> set (directives B). blockKey B = fst k \<and> directiveKey l = snd k \<and> v = Some (args l))"

lemma dfind_cloneBlock_None:
  "k \<notin> directiveKey ` set (directives B) \<Longrightarrow> dfind (cloneBlock B) k = None"
  by (auto simp: dfind_def cloneBlock_def find_None_iff has_key_def split: if_splits)

lemma ssh_peek_silent:
  assumes "config_ok d" "template_ok s" "ssh_silent s k"
  shows "ssh_peek (mergeSSHConfig d s) k = ssh_peek d k"
proof (cases "fst k \<in> blockKey ` set s")
  case True
  then obtain B where B: "B \<in> set s" "fst k = blockKey B" by auto
  have nk: "snd k \<notin> directiveKey ` set (directives B)" using assms(3) B by (simp add: ssh_silent_def)
  have ok: "nul_free B" "distinct_keys B" "distinct (map blockKey s)"
    using assms(2) B by (auto simp: template_ok_def)
  have "map_option args (dfind (merged_block B (bfind d (blockKey B))) (snd k)) =
      (case bfind d (blockKey B) of None \<Rightarrow> None | Some b \<Rightarrow> map_option args (dfind b (snd k)))"
    using dfind_cloneBlock_None [OF nk] nk ok bfind_ok [OF assms(1)]
      foldl_mergeDirective [of _ "block_lines B"]
    by (auto simp: merged_block_def mergeDirectives_def distinct_keys_def split: option.splits)
  then show ?thesis by (simp add: ssh_peek_def B(2) bfind_merge [OF ok(3) B(1)])
next
  case False
  then show ?thesis by (simp add: ssh_peek_def bfind_merge_other)
qed

interpretation ssh_conf: merge_contract mergeSSHConfig config_ok template_ok ssh_peek ssh_silent ssh_fixes
proof unfold_locales
  show "config_ok d \<Longrightarrow> template_ok s \<Longrightarrow> config_ok (mergeSSHConfig d s)" for d s
    by (rule config_ok_merge) (auto simp: template_ok_def)
  show "config_ok d \<Longrightarrow> template_ok s \<Longrightarrow> ssh_silent s k \<Longrightarrow>
      ssh_peek (mergeSSHConfig d s) k = ssh_peek d k" for d s k
    by (rule ssh_peek_silent)
  show "config_ok d \<Longrightarrow> template_ok s \<Longrightarrow> ssh_fixes s k v \<Longrightarrow> ssh_peek (mergeSSHConfig d s) k = v" for d s k v
  proof -
    assume "config_ok d" "template_ok s" "ssh_fixes s k v"
    then obtain B l b where "blockKey B = fst k" "l \<in> set (directives B)" "directiveKey l = snd k"
        "v = Some (args l)" "bfind (mergeSSHConfig d s) (blockKey B) = Some b" "settled B b"
      unfolding ssh_fixes_def using settled_merge by blast
    then show "ssh_peek (mergeSSHConfig d s) k = v"
      by (auto simp: ssh_peek_def settled_def)
  qed
  show "config_ok d \<Longrightarrow> template_ok s \<Longrightarrow>
      mergeSSHConfig (mergeSSHConfig d s) s = mergeSSHConfig d s" for d s
    by (rule mergeSSHConfig_idem)
qed

end
