(* ===== verification/SSHConfigText.thy ===== *)
theory SSHConfigText
  imports SSHConfig
begin

text \<open>
  The ssh_config handler on file text: what reading, merging a rendered template and
  writing back does to the bytes of the file. A written file is parsed again at the next
  sync, so the lemmas relate a tree to the parse of its rendering (\<open>config_sim\<close>).
\<close>

section \<open>Trees that read and render alike\<close>

definition line_sim :: "ssh_line \<Rightarrow> ssh_line \<Rightarrow> bool" where
  "line_sim l l' \<longleftrightarrow> indent l = indent l' \<and> keyword l = keyword l' \<and> args l = args l'
     \<and> render_line l = render_line l'"

definition block_sim :: "ssh_block \<Rightarrow> ssh_block \<Rightarrow> bool" where
  "block_sim b b' \<longleftrightarrow> rel_option line_sim (header b) (header b')
     \<and> list_all2 line_sim (block_lines b) (block_lines b')"

abbreviation config_sim :: "ssh_config \<Rightarrow> ssh_config \<Rightarrow> bool" where
  "config_sim \<equiv> list_all2 block_sim"

lemma line_sim_refl [simp]: "line_sim l l"
  by (simp add: line_sim_def)

lemma line_sim_key: "line_sim l l' \<Longrightarrow> isDirective l = isDirective l' \<and> directiveKey l = directiveKey l'"
  by (simp add: line_sim_def isDirective_def directiveKey_def Let_def)

lemma block_sim_refl [simp]: "block_sim b b"
  by (cases "header b") (simp_all add: block_sim_def list_all2_refl)

lemma block_sim_key: "block_sim b b' \<Longrightarrow> blockKey b = blockKey b'"
  by (cases "header b"; cases "header b'") (auto simp: block_sim_def blockKey_def line_sim_def)

lemma find_idx_cong:
  "list_all2 R xs ys \<Longrightarrow> (\<And>x y. R x y \<Longrightarrow> P x = P y) \<Longrightarrow> find_idx P xs = find_idx P ys"
  by (induction rule: list_all2_induct) auto

lemma set_args_sim: "line_sim l l' \<Longrightarrow> line_sim (l\<lparr>args := a, dirty := True\<rparr>) (l'\<lparr>args := a, dirty := True\<rparr>)"
  by (simp add: line_sim_def render_line_def)

lemma last_directive_sim:
  "list_all2 line_sim ls ls' \<Longrightarrow> last_directive i ls ind pos = last_directive i ls' ind pos"
  by (induction arbitrary: i ind pos rule: list_all2_induct) (auto simp: line_sim_key, simp_all add: line_sim_def)

lemma list_all2_replace:
  "list_all2 R xs ys \<Longrightarrow> i < length xs \<Longrightarrow> R (f (xs ! i)) (g (ys ! i)) \<Longrightarrow>
   list_all2 R (xs[i := f (xs ! i)]) (ys[i := g (ys ! i)])"
  by (simp add: list_all2_update_cong)

lemma mergeDirective_sim: "block_sim b b' \<Longrightarrow> block_sim (mergeDirective b l) (mergeDirective b' l)"
proof -
  assume sim: "block_sim b b'"
  then have ls: "list_all2 line_sim (block_lines b) (block_lines b')" by (simp add: block_sim_def)
  have idx: "findDirective b k = findDirective b' k" for k
    unfolding findDirective_def by (rule find_idx_cong [OF ls]) (auto simp: line_sim_key)
  show ?thesis
  proof (cases "isDirective l")
    case True
    show ?thesis
    proof (cases "findDirective b (directiveKey l)")
      case None
      obtain ind pos where "last_directive 0 (block_lines b) (indent l) None = (ind, pos)" by force
      then show ?thesis
        using None True idx sim ls list_all2_lengthD [OF ls] last_directive_sim [OF ls, of 0 "indent l" None]
        by (auto simp: mergeDirective_def insertDirective_def block_sim_def Let_def
            intro!: list_all2_appendI list_all2_takeI list_all2_dropI split: option.splits)
    next
      case (Some i)
      then have i: "i < length (block_lines b)"
        using find_idx_Some by (auto simp: findDirective_def)
      then have "line_sim (block_lines b ! i) (block_lines b' ! i)" using ls by (simp add: list_all2_nthD)
      then show ?thesis
        using Some True idx sim ls i
        by (auto simp: mergeDirective_def block_sim_def intro!: list_all2_replace set_args_sim)
    qed
  qed (simp add: sim)
qed

lemma mergeDirectives_sim: "block_sim b b' \<Longrightarrow> block_sim (mergeDirectives b B) (mergeDirectives b' B)"
proof -
  have "block_sim b b' \<Longrightarrow> block_sim (foldl mergeDirective b ls) (foldl mergeDirective b' ls)" for ls
    by (induction ls arbitrary: b b') (auto intro: mergeDirective_sim)
  then show "block_sim b b' \<Longrightarrow> block_sim (mergeDirectives b B) (mergeDirectives b' B)"
    by (simp add: mergeDirectives_def)
qed

lemma mergeBlock_sim: "config_sim c c' \<Longrightarrow> config_sim (mergeBlock c B) (mergeBlock c' B)"
proof -
  assume sim: "config_sim c c'"
  have idx: "findBlock c B = findBlock c' B"
    unfolding findBlock_def by (rule find_idx_cong [OF sim]) (auto simp: block_sim_key)
  show ?thesis
  proof (cases "findBlock c B")
    case None
    then show ?thesis using sim idx by (simp add: mergeBlock_def list_all2_appendI)
  next
    case (Some i)
    then have i: "i < length c" using find_idx_Some by (auto simp: findBlock_def)
    then have "block_sim (c ! i) (c' ! i)" using sim by (simp add: list_all2_nthD)
    then show ?thesis using Some sim idx i
      by (auto simp: mergeBlock_def intro!: list_all2_replace mergeDirectives_sim)
  qed
qed

lemma merge_sim: "config_sim c c' \<Longrightarrow> config_sim (mergeSSHConfig c s) (mergeSSHConfig c' s)"
  unfolding mergeSSHConfig_def
  by (induction s arbitrary: c c') (auto intro: mergeBlock_sim)

lemma block_texts_sim: "block_sim b b' \<Longrightarrow> block_texts b = block_texts b'"
proof -
  have "list_all2 line_sim ls ls' \<Longrightarrow> map render_line ls = map render_line ls'" for ls ls'
    by (induction rule: list_all2_induct) (auto simp: line_sim_def)
  then show "block_sim b b' \<Longrightarrow> block_texts b = block_texts b'"
    by (cases "header b"; cases "header b'") (auto simp: block_sim_def block_texts_def line_sim_def)
qed

lemma render_sim: "config_sim c c' \<Longrightarrow> render_config c = render_config c'"
  unfolding render_config_texts config_texts_def
  by (induction rule: list_all2_induct) (auto simp: block_texts_sim)

section \<open>Lines that survive being written and read\<close>

definition line_chars :: "string \<Rightarrow> bool" where
  "line_chars t \<longleftrightarrow> CHR 0x0A \<notin> set t \<and> CHR 0x0D \<notin> set t"

definition stable_line :: "ssh_line \<Rightarrow> bool" where
  "stable_line l \<longleftrightarrow> line_sim (parseLine (render_line l)) l \<and> line_chars (render_line l)"

definition good_key :: "ssh_line \<Rightarrow> bool" where
  "good_key l \<longleftrightarrow> list_all (\<lambda>c. blank c) (indent l) \<and> keyword l \<noteq> [] \<and> list_all (\<lambda>c. \<not> key_end c) (keyword l)
     \<and> hd (keyword l) \<noteq> CHR ''#'' \<and> line_chars (keyword l)"

definition good_args :: "string \<Rightarrow> bool" where
  "good_args a \<longleftrightarrow> no_edge_space a \<and> (a = [] \<or> hd a \<noteq> CHR ''='') \<and> line_chars a"

lemma cut_space_blank: "cut_space (CHR '' '' # a) = Some a"
  by (simp add: cut_space_def space_encodings_def)

lemma trim_space_blank: "no_edge_space a \<Longrightarrow> a \<noteq> [] \<Longrightarrow> trim_space (CHR '' '' # a) = a"
proof -
  assume a: "no_edge_space a" "a \<noteq> []"
  have "trim_left (CHR '' '' # a) = trim_left a"
    by (subst trim_left.simps) (simp add: cut_space_blank)
  then show ?thesis using a by (simp add: trim_space_def no_edge_space_def trim_left_id trim_left_rev_id)
qed

lemma trim_prefix_absent: "a = [] \<or> hd a \<noteq> c \<Longrightarrow> trim_prefix [c] a = a"
  by (cases a) (auto simp: trim_prefix_def)

lemma takeWhile_stop: "list_all P xs \<Longrightarrow> ys = [] \<or> \<not> P (hd ys) \<Longrightarrow> takeWhile P (xs @ ys) = xs"
  by (induction xs) (auto simp: takeWhile_eq_Nil_iff)

lemma dropWhile_stop: "list_all P xs \<Longrightarrow> ys = [] \<or> \<not> P (hd ys) \<Longrightarrow> dropWhile P (xs @ ys) = ys"
  by (induction xs) (auto simp: dropWhile_hd_id)

lemma parseLine_fields:
  assumes "good_key l" "good_args a"
  defines "t \<equiv> indent l @ keyword l @ (if a = [] then [] else CHR '' '' # a)"
  shows "parseLine t = \<lparr>raw = t, indent = indent l, keyword = keyword l, args = a, dirty = False\<rparr>"
proof -
  let ?tail = "if a = [] then [] else CHR '' '' # a"
  let ?rest = "keyword l @ ?tail"
  have kw: "keyword l \<noteq> []" "\<not> key_end (hd (keyword l))" "hd (keyword l) \<noteq> CHR ''#''"
    using assms(1) by (auto simp: good_key_def list_all_iff)
  then have stop: "\<not> blank (hd ?rest)" by (auto simp: key_end_def)
  have ind: "list_all (\<lambda>c. blank c) (indent l)" using assms(1) by (simp add: good_key_def)
  have tw: "takeWhile (\<lambda>c. blank c) t = indent l" and dw: "dropWhile (\<lambda>c. blank c) t = ?rest"
    unfolding t_def using takeWhile_stop [OF ind] dropWhile_stop [OF ind] stop by blast+
  have key: "list_all (\<lambda>c. \<not> key_end c) (keyword l)" using assms(1) by (simp add: good_key_def)
  have tail: "?tail = [] \<or> \<not> \<not> key_end (hd ?tail)" by (simp add: key_end_def)
  have rest: "takeWhile (\<lambda>c. \<not> key_end c) ?rest = keyword l" "dropWhile (\<lambda>c. \<not> key_end c) ?rest = ?tail"
    by (rule takeWhile_stop [OF key tail], rule dropWhile_stop [OF key tail])
  have nohash: "keyword l @ x \<noteq> []" "\<not> has_prefix ''#'' (keyword l @ x)" for x
    using kw by (cases "keyword l"; simp add: has_prefix_iff)+
  have args: "trim_space (trim_prefix ''='' (trim_space (CHR '' '' # a))) = a" if "a \<noteq> []"
    using that assms(2) by (auto simp: good_args_def trim_space_blank trim_prefix_absent trim_space_id)
  show ?thesis
    unfolding parseLine_def tw dw Let_def rest by (cases "a = []") (simp_all add: nohash args, use nohash [of "[]"] in simp)
qed

lemma render_line_raw [simp]:
  "render_line \<lparr>raw = r, indent = i, keyword = k, args = a, dirty = False\<rparr> = r"
  by (simp add: render_line_def)

lemma stable_dirty:
  assumes "good_key l" "good_args (args l)" "dirty l"
  shows "stable_line l"
proof -
  have r: "render_line l = indent l @ keyword l @ (if args l = [] then [] else CHR '' '' # args l)"
    using assms(3) by (simp add: render_line_def)
  have "\<forall>c \<in> set (indent l). c = CHR '' '' \<or> c = CHR 0x09"
    using assms(1) by (simp add: good_key_def list_all_iff)
  then have "line_chars (indent l)" unfolding line_chars_def by fastforce
  then have "line_chars (render_line l)"
    using assms(1,2) by (simp add: r good_key_def good_args_def line_chars_def)
  then show ?thesis
    unfolding stable_line_def line_sim_def using parseLine_fields [OF assms(1,2)]
    by (simp add: r [symmetric])
qed

lemma stable_parsed: "line_chars r \<Longrightarrow> stable_line (parseLine r)"
  by (simp add: stable_line_def)

lemma trim_space_edges: "no_edge_space (trim_space s)"
proof -
  let ?t = "trim_left s"
  obtain p where p: "rev ?t = p @ trim_left_rev (rev ?t)" using trim_left_rev_suffix by blast
  then have pre: "?t = trim_space s @ rev p" unfolding trim_space_def by (metis rev_append rev_rev_ident)
  have "cut_space (trim_space s) = None"
  proof (rule ccontr)
    assume "cut_space (trim_space s) \<noteq> None"
    then obtain e r where "e \<in> set space_encodings" "trim_space s = e @ r"
      unfolding cut_space_def using first_cut_Some by blast
    then have "cut_space ?t \<noteq> None" unfolding cut_space_def first_cut_None pre by auto
    then show False using trim_left_no_space by simp
  qed
  moreover have "cut_space_rev (rev (trim_space s)) = None"
    by (simp add: trim_space_def trim_left_rev_no_space)
  ultimately show ?thesis by (simp add: no_edge_space_def)
qed

lemma set_trim_space: "set (trim_space s) \<subseteq> set s"
proof -
  obtain p where "s = p @ trim_left s" using trim_left_suffix by blast
  then have "set (trim_left s) \<subseteq> set s" by (metis set_append sup_ge2)
  moreover obtain q where "rev (trim_left s) = q @ trim_left_rev (rev (trim_left s))"
    using trim_left_rev_suffix by blast
  then have "set (trim_left_rev (rev (trim_left s))) \<subseteq> set (trim_left s)"
    by (metis set_append set_rev sup_ge2)
  ultimately show ?thesis by (auto simp: trim_space_def)
qed

lemma set_trim_prefix: "set (trim_prefix p s) \<subseteq> set s"
  by (auto simp: trim_prefix_def cut_prefix_Some_iff split: option.splits)

lemma parseLine_directive:
  assumes "isDirective (parseLine r)" "line_chars r"
  shows "good_key (parseLine r) \<and> no_edge_space (args (parseLine r)) \<and> line_chars (args (parseLine r))"
proof -
  let ?rest = "dropWhile (\<lambda>c. blank c) r"
  have rest: "?rest \<noteq> []" "\<not> has_prefix ''#'' ?rest"
    using assms(1) by (auto simp: parseLine_def Let_def isDirective_def split: if_splits)
  then have hash: "hd ?rest \<noteq> CHR ''#''"
    by (cases ?rest) (auto simp: has_prefix_iff)
  let ?kw = "takeWhile (\<lambda>c. \<not> key_end c) ?rest"
  have kw: "keyword (parseLine r) = ?kw"
  proof (cases "dropWhile (\<lambda>c. \<not> key_end c) ?rest")
    case Nil
    then have a: "?kw = ?rest" by (metis append_Nil2 takeWhile_dropWhile_id)
    have b: "keyword (parseLine r) = ?rest" using rest by (auto simp: parseLine_def Let_def Nil)
    show ?thesis by (rule trans [OF b a [symmetric]])
  next
    case (Cons c cs)
    show ?thesis using rest by (auto simp: parseLine_def Let_def Cons)
  qed
  have ne: "?kw \<noteq> []" using assms(1) kw by (simp add: isDirective_def)
  have "hd ?kw = hd ?rest" using ne by (cases ?rest) auto
  moreover have "set ?kw \<subseteq> set r" using set_dropWhileD set_takeWhileD by fastforce
  moreover have "indent (parseLine r) = takeWhile (\<lambda>c. blank c) r"
    by (auto simp: parseLine_def Let_def split: list.splits)
  ultimately have gk: "good_key (parseLine r)"
    using ne hash assms(2) kw unfolding good_key_def line_chars_def list_all_iff
    by (auto dest: set_takeWhileD)
  have "args (parseLine r) = [] \<or> (\<exists>u. set u \<subseteq> set r \<and> args (parseLine r) = trim_space (trim_prefix ''='' (trim_space u)))"
  proof (cases "dropWhile (\<lambda>c. \<not> key_end c) ?rest")
    case Nil
    have "args (parseLine r) = []" using rest by (auto simp: parseLine_def Let_def Nil)
    then show ?thesis by simp
  next
    case (Cons c cs)
    then have "set (c # cs) \<subseteq> set r" by (metis set_dropWhileD subsetI)
    moreover have "args (parseLine r) = trim_space (trim_prefix ''='' (trim_space (c # cs)))"
      using Cons rest by (auto simp: parseLine_def Let_def)
    ultimately show ?thesis by blast
  qed
  then have "no_edge_space (args (parseLine r)) \<and> set (args (parseLine r)) \<subseteq> set r"
  proof
    assume "args (parseLine r) = []"
    then show ?thesis using trim_space_edges [of "[]"] by (simp add: trim_space_def trim_left.simps [of "[]"] trim_left_rev.simps [of "[]"] cut_space_def cut_space_rev_def)
  next
    assume "\<exists>u. set u \<subseteq> set r \<and> args (parseLine r) = trim_space (trim_prefix ''='' (trim_space u))"
    then obtain u where u: "set u \<subseteq> set r" "args (parseLine r) = trim_space (trim_prefix ''='' (trim_space u))"
      by blast
    have "set (trim_space (trim_prefix ''='' (trim_space u))) \<subseteq> set u"
      using set_trim_space set_trim_prefix subset_trans by metis
    then show ?thesis using u(1) trim_space_edges unfolding u(2) by blast
  qed
  then show ?thesis using gk assms(2) by (auto simp: line_chars_def)
qed

section \<open>Documents that survive being written and read\<close>

text \<open>
  Every line of the tree survives, directives have a plain keyword, sections start with a
  header line and hold none, and the first section is the global one.
\<close>

definition line_ok :: "ssh_line \<Rightarrow> bool" where
  "line_ok l \<longleftrightarrow> stable_line l \<and> (isDirective l \<longrightarrow> good_key l)"

definition body_ok :: "ssh_block \<Rightarrow> bool" where
  "body_ok b \<longleftrightarrow> (\<forall>l \<in> set (block_lines b). line_ok l \<and> \<not> is_header l)"

definition section_ok :: "ssh_block \<Rightarrow> bool" where
  "section_ok b \<longleftrightarrow> body_ok b \<and> (\<exists>h. header b = Some h \<and> line_ok h \<and> is_header h)"

definition doc_ok :: "ssh_config \<Rightarrow> bool" where
  "doc_ok c \<longleftrightarrow> (\<exists>g bs. c = g # bs \<and> header g = None \<and> body_ok g \<and> (\<forall>b \<in> set bs. section_ok b))"

lemma parse_sections_body:
  "\<forall>l \<in> set ls. \<not> is_header l \<Longrightarrow>
   parse_sections b (ls @ rest) = parse_sections (b\<lparr>block_lines := block_lines b @ ls\<rparr>) rest"
  by (induction ls arbitrary: b) auto

lemma is_header_sim: "line_sim l l' \<Longrightarrow> is_header l = is_header l'"
  by (simp add: line_sim_def is_header_def)

lemma stable_sim: "line_ok l \<Longrightarrow> line_sim (parseLine (render_line l)) l"
  by (simp add: line_ok_def stable_line_def)

lemma body_parse:
  assumes "body_ok b"
  shows "list_all2 line_sim (map (\<lambda>l. parseLine (render_line l)) (block_lines b)) (block_lines b)"
    and "\<forall>l \<in> set (map (\<lambda>l. parseLine (render_line l)) (block_lines b)). \<not> is_header l"
proof -
  show "list_all2 line_sim (map (\<lambda>l. parseLine (render_line l)) (block_lines b)) (block_lines b)"
    using assms stable_sim by (auto simp: body_ok_def list_all2_map1 list_all2_same)
  show "\<forall>l \<in> set (map (\<lambda>l. parseLine (render_line l)) (block_lines b)). \<not> is_header l"
    using assms stable_sim is_header_sim by (auto simp: body_ok_def)
qed

lemma parse_sections_texts:
  assumes "\<forall>b \<in> set bs. section_ok b"
  shows "\<exists>cs. parse_sections cur (map parseLine (config_texts bs)) = cur # cs \<and> config_sim cs bs"
  using assms
proof (induction bs arbitrary: cur)
  case Nil
  then show ?case by (simp add: config_texts_def)
next
  case (Cons b bs)
  obtain h where h: "header b = Some h" "line_ok h" "is_header h" and body: "body_ok b"
    using Cons.prems by (auto simp: section_ok_def)
  let ?h = "parseLine (render_line h)"
  let ?ls = "map (\<lambda>l. parseLine (render_line l)) (block_lines b)"
  let ?b = "\<lparr>header = Some ?h, block_lines = ?ls\<rparr>"
  have sim: "line_sim ?h h" using h(2) by (rule stable_sim)
  obtain cs where cs: "parse_sections ?b (map parseLine (config_texts bs)) = ?b # cs" "config_sim cs bs"
    using Cons by force
  have "map parseLine (config_texts (b # bs)) = ?h # ?ls @ map parseLine (config_texts bs)"
    by (simp add: config_texts_def block_texts_def h(1) comp_def)
  then have "parse_sections cur (map parseLine (config_texts (b # bs))) = cur # ?b # cs"
    using is_header_sim [OF sim] h(3) parse_sections_body [OF body_parse(2) [OF body]] cs(1) by simp
  moreover have "block_sim ?b b" using body_parse(1) [OF body] sim h(1) by (simp add: block_sim_def)
  ultimately show ?case using cs(2) by (intro exI [of _ "?b # cs"]) simp
qed

lemma line_ok_chars: "line_ok l \<Longrightarrow> line_chars (render_line l)"
  by (simp add: line_ok_def stable_line_def)

lemma block_texts_chars:
  "body_ok b \<Longrightarrow> \<forall>h. header b = Some h \<longrightarrow> line_ok h \<Longrightarrow> \<forall>t \<in> set (block_texts b). line_chars t"
  using line_ok_chars by (auto simp: block_texts_def body_ok_def split: option.splits)

lemma config_texts_chars:
  assumes "doc_ok c" "t \<in> set (config_texts c)"
  shows "line_chars t"
proof -
  obtain b where b: "b \<in> set c" "t \<in> set (block_texts b)"
    using assms(2) by (auto simp: config_texts_def)
  have "body_ok b \<and> (\<forall>h. header b = Some h \<longrightarrow> line_ok h)"
    using assms(1) b(1) by (fastforce simp: doc_ok_def section_ok_def)
  then show ?thesis using block_texts_chars b(2) by blast
qed

text \<open>Reading back what was written gives a tree that reads and renders the same.\<close>

lemma parse_render_sim:
  assumes "doc_ok c"
  shows "config_sim (parseSSHConfig (render_config c)) c"
proof -
  obtain g bs where c: "c = g # bs" "header g = None" "body_ok g" "\<forall>b \<in> set bs. section_ok b"
    using assms by (auto simp: doc_ok_def)
  let ?g = "\<lparr>header = None, block_lines = map (\<lambda>l. parseLine (render_line l)) (block_lines g)\<rparr>"
  have gsim: "block_sim ?g g" using body_parse(1) [OF c(3)] c(2) by (simp add: block_sim_def)
  have "parseSSHConfig (render_config c) = parse_sections global_section (map parseLine (config_texts c))"
  proof (cases "config_texts c = []")
    case True
    then show ?thesis by (simp add: render_config_texts parseSSHConfig_def)
  next
    case False
    have chars: "\<forall>t \<in> set (config_texts c). CHR 0x0A \<notin> set t \<and> CHR 0x0D \<notin> set t"
      using config_texts_chars [OF assms] by (auto simp: line_chars_def)
    then obtain t where t: "newline_terminated (config_texts c) = t @ [CHR 0x0A]"
        "split_ch (CHR 0x0A) t = config_texts c"
      using split_newline_terminated [OF False] by blast
    have "set t \<subseteq> set (newline_terminated (config_texts c))" unfolding t(1) by auto
    moreover have "CHR 0x0D \<notin> set (newline_terminated ts)" if "\<forall>t \<in> set ts. CHR 0x0D \<notin> set t" for ts
      using that by (induction ts) auto
    ultimately have "CHR 0x0D \<notin> set t" using chars by blast
    then show ?thesis using parseSSHConfig_terminated [of t] by (simp add: render_config_texts t)
  qed
  moreover have "map parseLine (config_texts c) =
      block_lines ?g @ map parseLine (config_texts bs)"
    using c(1,2) by (simp add: config_texts_def block_texts_def comp_def)
  moreover have "\<exists>cs. parse_sections ?g (map parseLine (config_texts bs)) = ?g # cs \<and> config_sim cs bs"
    using c(4) by (rule parse_sections_texts)
  ultimately show ?thesis
    using parse_sections_body [OF body_parse(2) [OF c(3)], of global_section] gsim c(1)
    by (auto simp: global_section_def)
qed

text \<open>A document read from a file without carriage returns survives.\<close>

lemma doc_ok_sections:
  assumes "\<forall>l \<in> set ls. line_ok l" "body_ok b"
  shows "\<exists>b' bs. parse_sections b ls = b' # bs \<and> header b' = header b \<and> body_ok b'
    \<and> (\<forall>x \<in> set bs. section_ok x)"
  using assms
proof (induction b ls rule: parse_sections.induct)
  case (1 b)
  then show ?case by simp
next
  case (2 b l ls)
  show ?case
  proof (cases "is_header l")
    case True
    have "body_ok \<lparr>header = Some l, block_lines = []\<rparr>" by (simp add: body_ok_def)
    with 2 True obtain b' bs where "parse_sections \<lparr>header = Some l, block_lines = []\<rparr> ls = b' # bs"
        "header b' = Some l" "body_ok b'" "\<forall>x \<in> set bs. section_ok x"
      by auto
    with True "2.prems" show ?thesis by (auto simp: section_ok_def)
  next
    case False
    have "body_ok (b\<lparr>block_lines := block_lines b @ [l]\<rparr>)" using 2(3,4) False by (auto simp: body_ok_def)
    with 2 False show ?thesis by auto
  qed
qed

lemma line_ok_parseLine: "line_chars r \<Longrightarrow> line_ok (parseLine r)"
  using parseLine_directive stable_parsed by (auto simp: line_ok_def)

definition text_lines :: "string \<Rightarrow> ssh_line list" where
  "text_lines f = (if f = [] then [] else map parseLine (splitLines
     (trim_suffix [CHR 0x0D] (trim_suffix [CHR 0x0A] f))))"

lemma parse_text_lines: "parseSSHConfig f = parse_sections global_section (text_lines f)"
  by (simp add: parseSSHConfig_def text_lines_def)

lemma set_trim_suffix: "set (trim_suffix suf s) \<subseteq> set s"
  by (auto simp: trim_suffix_def cut_suffix_Some_iff split: option.splits)

lemma text_lines_raw:
  assumes "CHR 0x0D \<notin> set f" "l \<in> set (text_lines f)"
  shows "\<exists>r. l = parseLine r \<and> line_chars r \<and> set r \<subseteq> set f"
proof -
  let ?b = "trim_suffix [CHR 0x0D] (trim_suffix [CHR 0x0A] f)"
  have sub: "set ?b \<subseteq> set f" using set_trim_suffix by blast
  then have "CHR 0x0D \<notin> set ?b" using assms(1) by blast
  then obtain r where "r \<in> set (split_ch (CHR 0x0A) ?b)" "l = parseLine r"
    using assms(2) by (auto simp: text_lines_def splitLines_no_cr split: if_splits)
  moreover have "CHR 0x0A \<notin> set r \<and> set r \<subseteq> set ?b"
    using set_split_ch [of r "CHR 0x0A" ?b] calculation(1) by blast
  ultimately show ?thesis using sub assms(1) unfolding line_chars_def by blast
qed

lemma doc_ok_parse: "CHR 0x0D \<notin> set f \<Longrightarrow> doc_ok (parseSSHConfig f)"
proof -
  assume cr: "CHR 0x0D \<notin> set f"
  have "\<forall>l \<in> set (text_lines f). line_ok l" using text_lines_raw [OF cr] line_ok_parseLine by blast
  moreover have "body_ok global_section" by (simp add: body_ok_def global_section_def)
  ultimately have "\<exists>b' bs. parse_sections global_section (text_lines f) = b' # bs
      \<and> header b' = header global_section \<and> body_ok b' \<and> (\<forall>x \<in> set bs. section_ok x)"
    by (rule doc_ok_sections)
  then show ?thesis by (auto simp: parse_text_lines doc_ok_def global_section_def)
qed

section \<open>Merging a template keeps a document readable\<close>

definition plain_args :: "ssh_line \<Rightarrow> bool" where
  "plain_args l \<longleftrightarrow> args l = [] \<or> hd (args l) \<noteq> CHR ''=''"

definition good_directive :: "ssh_line \<Rightarrow> bool" where
  "good_directive l \<longleftrightarrow> (isDirective l \<longrightarrow> good_key l \<and> good_args (args l))"

definition all_lines :: "ssh_block \<Rightarrow> ssh_line list" where
  "all_lines b = (case header b of None \<Rightarrow> [] | Some h \<Rightarrow> [h]) @ block_lines b"

lemma last_directive_indent:
  "\<forall>l \<in> set ls. isDirective l \<longrightarrow> list_all (\<lambda>c. blank c) (indent l) \<Longrightarrow> list_all (\<lambda>c. blank c) ind \<Longrightarrow>
   list_all (\<lambda>c. blank c) (fst (last_directive i ls ind pos))"
  by (induction i ls ind pos rule: last_directive.induct) auto

lemma good_key_cong:
  "good_key l \<Longrightarrow> list_all (\<lambda>c. blank c) (indent n) \<Longrightarrow> keyword n = keyword l \<Longrightarrow> good_key n"
  by (simp add: good_key_def)

lemma line_ok_written:
  "good_key n \<Longrightarrow> good_args (args n) \<Longrightarrow> dirty n \<Longrightarrow> line_ok n"
  by (simp add: line_ok_def stable_dirty)

lemma body_ok_mergeDirective:
  assumes "body_ok b" "good_directive l" "\<not> is_header l"
  shows "body_ok (mergeDirective b l)"
proof (cases "isDirective l")
  case True
  then have l: "good_key l" "good_args (args l)" using assms(2) by (auto simp: good_directive_def)
  show ?thesis
  proof (cases "findDirective b (directiveKey l)")
    case None
    obtain ind pos where last: "last_directive 0 (block_lines b) (indent l) None = (ind, pos)" by force
    have "\<forall>x \<in> set (block_lines b). isDirective x \<longrightarrow> list_all (\<lambda>c. blank c) (indent x)"
      using assms(1) by (auto simp: body_ok_def line_ok_def good_key_def)
    then have ind: "list_all (\<lambda>c. blank c) ind"
      using last_directive_indent [of "block_lines b" "indent l" 0 None] l(1) last
      by (simp add: good_key_def)
    let ?n = "\<lparr>raw = [], indent = ind, keyword = keyword l, args = args l, dirty = True\<rparr>"
    have "good_key ?n" by (rule good_key_cong [OF l(1)]) (simp_all add: ind)
    then have n: "line_ok ?n" "\<not> is_header ?n"
      using l(2) assms(3) by (auto simp: is_header_def intro!: line_ok_written)
    let ?pos = "case pos of None \<Rightarrow> length (block_lines b) | Some i \<Rightarrow> Suc i"
    have "block_lines (mergeDirective b l) = take ?pos (block_lines b) @ [?n] @ drop ?pos (block_lines b)"
      using True None last by (simp add: mergeDirective_def insertDirective_def Let_def)
    then show ?thesis
      using n assms(1) by (auto simp: body_ok_def dest: in_set_takeD in_set_dropD)
  next
    case (Some i)
    then have b: "block_lines (mergeDirective b l) =
        upd_first (has_key (directiveKey l)) (set_args (args l)) (block_lines b)"
      using True by (simp add: mergeDirective_found)
    have "line_ok x \<and> \<not> is_header x"
      if "x \<in> set (upd_first (has_key (directiveKey l)) (set_args (args l)) (block_lines b))" for x
      using set_upd_first [OF that]
    proof
      assume "x \<in> set (block_lines b)"
      then show ?thesis using assms(1) by (simp add: body_ok_def)
    next
      assume "\<exists>y \<in> set (block_lines b). has_key (directiveKey l) y \<and> x = set_args (args l) y"
      then obtain y where y: "y \<in> set (block_lines b)" "isDirective y" "x = set_args (args l) y"
        by (auto simp: has_key_def)
      then have "good_key y" "\<not> is_header y" using assms(1) by (auto simp: body_ok_def line_ok_def)
      then show ?thesis using y(3) l(2) good_key_cong [of y x]
        by (auto simp: is_header_def good_key_def intro!: line_ok_written)
    qed
    then show ?thesis by (simp add: body_ok_def b)
  qed
qed (use assms(1) in simp)

definition tmpl_doc :: "ssh_config \<Rightarrow> bool" where
  "tmpl_doc s \<longleftrightarrow> doc_ok s \<and> (\<forall>B \<in> set s. \<forall>l \<in> set (all_lines B). good_directive l)"

lemma body_ok_mergeDirectives:
  assumes "body_ok b" "body_ok B" "\<forall>l \<in> set (block_lines B). good_directive l"
  shows "body_ok (mergeDirectives b B)"
proof -
  have "body_ok b \<Longrightarrow> \<forall>l \<in> set ls. good_directive l \<and> \<not> is_header l \<Longrightarrow> body_ok (foldl mergeDirective b ls)" for ls
  proof (induction ls arbitrary: b)
    case (Cons l ls)
    have "body_ok (mergeDirective b l)" using Cons.prems by (intro body_ok_mergeDirective) simp_all
    then show ?case using Cons.IH [of "mergeDirective b l"] Cons.prems(2) by simp
  qed simp
  moreover have "\<forall>l \<in> set (block_lines B). good_directive l \<and> \<not> is_header l"
    using assms(2,3) by (simp add: body_ok_def)
  ultimately show ?thesis using assms(1) unfolding mergeDirectives_def by blast
qed

lemma cloned_ok:
  assumes "line_ok l" "good_directive l" "isDirective l"
  shows "line_ok (cloneLineDirty l)" "is_header (cloneLineDirty l) = is_header l"
proof -
  have "good_key l" "good_args (args l)" using assms by (auto simp: good_directive_def)
  then show "line_ok (cloneLineDirty l)"
    by (intro line_ok_written) (auto simp: good_key_def)
  show "is_header (cloneLineDirty l) = is_header l" by (simp add: is_header_def)
qed

lemma header_directive: "is_header h \<Longrightarrow> isDirective h"
  by (auto simp: is_header_def isDirective_def to_lower_def)

lemma section_ok_cloneBlock:
  assumes "section_ok B" "\<forall>l \<in> set (all_lines B). good_directive l"
  shows "section_ok (cloneBlock B)"
proof -
  obtain h where h: "header B = Some h" "line_ok h" "is_header h" and B: "body_ok B"
    using assms(1) by (auto simp: section_ok_def)
  have "line_ok (cloneLineDirty h)" "is_header (cloneLineDirty h)"
    using cloned_ok [of h] h header_directive assms(2) by (auto simp: all_lines_def)
  moreover have "body_ok (cloneBlock B)"
    using B assms(2) cloned_ok by (auto simp: body_ok_def cloneBlock_def all_lines_def)
  ultimately show ?thesis using h(1) by (simp add: section_ok_def cloneBlock_def)
qed


lemma doc_ok_nth:
  "doc_ok c \<longleftrightarrow> c \<noteq> [] \<and> header (hd c) = None \<and> body_ok (hd c) \<and> (\<forall>b \<in> set (tl c). section_ok b)"
  by (cases c) (auto simp: doc_ok_def)

lemma blockKey_header: "section_ok b \<Longrightarrow> blockKey b \<noteq> blockKey global_section"
proof -
  assume "section_ok b"
  then obtain h where h: "header b = Some h" "is_header h" by (auto simp: section_ok_def)
  then show ?thesis
    by (auto simp: blockKey_def is_header_def global_section_def)
qed

lemma doc_ok_mergeBlock:
  assumes "doc_ok c" "doc_ok s" "B \<in> set s" "\<forall>l \<in> set (all_lines B). good_directive l"
  shows "doc_ok (mergeBlock c B)"
proof -
  obtain g bs where c: "c = g # bs" "header g = None" "body_ok g" "\<forall>b \<in> set bs. section_ok b"
    using assms(1) by (auto simp: doc_ok_def)
  have lines: "\<forall>l \<in> set (block_lines B). good_directive l" using assms(4) by (simp add: all_lines_def)
  have B: "body_ok B" "header B = None \<or> section_ok B"
    using assms(2,3) by (auto simp: doc_ok_def section_ok_def)
  have upd: "section_ok (mergeDirectives b B)" if "section_ok b" for b
    using that body_ok_mergeDirectives [OF _ B(1) lines] by (simp add: section_ok_def)
  show ?thesis
  proof (cases "blockKey g = blockKey B")
    case True
    then have "mergeBlock c B = mergeDirectives g B # bs"
      by (simp add: mergeBlock_eq c(1) bfind_def)
    then show ?thesis using c body_ok_mergeDirectives [OF c(3) B(1) lines] by (simp add: doc_ok_nth)
  next
    case False
    have "blockKey g = blockKey global_section" using c(2) by (simp add: blockKey_def global_section_def)
    then have "section_ok B" using False B(2) by (auto simp: blockKey_def global_section_def)
    then have clone: "section_ok (cloneBlock B)" using assms(4) by (rule section_ok_cloneBlock)
    have "section_ok x" if "x \<in> set (upd_first (\<lambda>b. blockKey b = blockKey B) (\<lambda>b. mergeDirectives b B) bs)" for x
      using set_upd_first [OF that] c(4) upd by blast
    then show ?thesis
      using c False clone by (simp add: mergeBlock_eq doc_ok_nth)
  qed
qed

lemma doc_ok_merge:
  assumes "doc_ok c" "tmpl_doc s"
  shows "doc_ok (mergeSSHConfig c s)"
proof -
  have "doc_ok c \<Longrightarrow> \<forall>B \<in> set ss. B \<in> set s \<Longrightarrow> doc_ok (foldl mergeBlock c ss)" for ss
  proof (induction ss arbitrary: c)
    case (Cons B ss)
    have B: "B \<in> set s" using Cons.prems(2) by simp
    have "doc_ok (mergeBlock c B)"
      using Cons.prems(1) B assms(2) doc_ok_mergeBlock [of c s B] unfolding tmpl_doc_def by blast
    then show ?case using Cons.IH [of "mergeBlock c B"] Cons.prems(2) by simp
  qed simp
  then show ?thesis using assms(1) by (simp add: mergeSSHConfig_def)
qed

section \<open>The handler on file text\<close>

text \<open>
  One sync of a rendered template \<open>s\<close> into the file \<open>f\<close>: \<open>Read\<close> parses both texts,
  \<open>Merge\<close> combines the trees and \<open>Write\<close> renders the result.
\<close>

definition sync_text :: "string \<Rightarrow> string \<Rightarrow> string" where
  "sync_text f s = render_config (mergeSSHConfig (parseSSHConfig f) (parseSSHConfig s))"

definition parsed_from :: "string \<Rightarrow> ssh_line \<Rightarrow> bool" where
  "parsed_from f l \<longleftrightarrow> (\<exists>r. l = parseLine r \<and> line_chars r \<and> set r \<subseteq> set f)"

lemma parse_sections_lines:
  "b' \<in> set (parse_sections b ls) \<Longrightarrow> l \<in> set (all_lines b') \<Longrightarrow> l \<in> set (all_lines b) \<or> l \<in> set ls"
proof (induction b ls rule: parse_sections.induct)
  case (2 b x ls)
  then show ?case by (auto simp: all_lines_def split: if_splits)
qed simp

lemma parsed_lines:
  assumes "CHR 0x0D \<notin> set f" "b \<in> set (parseSSHConfig f)" "l \<in> set (all_lines b)"
  shows "parsed_from f l"
proof -
  have "l \<in> set (all_lines global_section) \<or> l \<in> set (text_lines f)"
    using parse_sections_lines assms(2,3) unfolding parse_text_lines by blast
  then have "l \<in> set (text_lines f)" by (simp add: all_lines_def global_section_def)
  then show ?thesis unfolding parsed_from_def using text_lines_raw [OF assms(1)] by blast
qed

lemma parsed_no_nul: "parsed_from f l \<Longrightarrow> CHR 0x00 \<notin> set f \<Longrightarrow> no_nul l"
proof -
  have rest: "set (dropWhile (\<lambda>c. blank c) r) \<subseteq> set r" for r using set_dropWhileD by fast
  have tw: "set (takeWhile P t) \<subseteq> set t" for P and t :: string using set_takeWhileD by fast
  have "set (keyword (parseLine r)) \<subseteq> set (dropWhile (\<lambda>c. blank c) r)" for r
    using tw by (simp add: parseLine_def Let_def split: list.splits)
  then have "set (keyword (parseLine r)) \<subseteq> set r" for r using rest by (rule subset_trans)
  then show "parsed_from f l \<Longrightarrow> CHR 0x00 \<notin> set f \<Longrightarrow> no_nul l"
    unfolding parsed_from_def no_nul_def by blast
qed

lemma parsed_good: "parsed_from f l \<Longrightarrow> plain_args l \<Longrightarrow> good_directive l"
  using parseLine_directive by (auto simp: parsed_from_def good_directive_def good_args_def plain_args_def)

lemma config_ok_parse:
  assumes "CHR 0x0D \<notin> set f" "CHR 0x00 \<notin> set f"
  shows "config_ok (parseSSHConfig f)"
proof (intro ballI)
  fix b l
  assume "b \<in> set (parseSSHConfig f)" "l \<in> set (block_lines b)"
  then have "parsed_from f l" using parsed_lines [OF assms(1)] by (simp add: all_lines_def)
  then show "no_nul l" using assms(2) by (rule parsed_no_nul)
qed


section \<open>What stays in place\<close>

abbreviation template_keys :: "ssh_config \<Rightarrow> ssh_block \<Rightarrow> string set" where
  "template_keys s b \<equiv>
     directiveKey ` (\<Union>B \<in> {B \<in> set s. blockKey B = blockKey b}. set (directives B))"

definition undisturbed :: "ssh_config \<Rightarrow> ssh_block \<Rightarrow> ssh_block \<Rightarrow> bool" where
  "undisturbed s b b' \<longleftrightarrow> header b' = header b \<and>
     filter (survives (template_keys s b)) (block_lines b') =
     filter (survives (template_keys s b)) (block_lines b)"

lemma undisturbed_refl: "undisturbed s b b"
  by (simp add: undisturbed_def)

lemma blockKey_header_cong: "header b = header b' \<Longrightarrow> blockKey b = blockKey b'"
  by (simp add: blockKey_def)

lemma undisturbed_step:
  assumes "undisturbed s b x" "nul_free x" "nul_free B" "B \<in> set s" "blockKey B = blockKey x"
  shows "undisturbed s b (mergeDirectives x B)"
proof -
  have "header x = header b" using assms(1) by (simp add: undisturbed_def)
  then have "blockKey x = blockKey b" by (rule blockKey_header_cong)
  then have "B \<in> {B \<in> set s. blockKey B = blockKey b}" using assms(4,5) by simp
  then have "directiveKey ` set (directives B) \<subseteq> template_keys s b" by (intro image_mono UN_upper)
  then show ?thesis
    using survives_mergeDirectives [OF assms(2,3)] assms(1) by (simp add: undisturbed_def)
qed

lemma undisturbed_mergeBlock:
  assumes "list_all2 (undisturbed s) d (take (length d) c)" "length d \<le> length c"
    "config_ok c" "nul_free B" "B \<in> set s"
  shows "list_all2 (undisturbed s) d (take (length d) (mergeBlock c B)) \<and> length d \<le> length (mergeBlock c B)"
proof (cases "findBlock c B")
  case None
  then show ?thesis using assms by (simp add: mergeBlock_def)
next
  case (Some i)
  then have i: "i < length c" "blockKey (c ! i) = blockKey B"
    using find_idx_Some [of "\<lambda>b. blockKey b = blockKey B" c i] by (auto simp: findBlock_def)
  have "nul_free (c ! i)" by (rule bspec [OF assms(3)]) (simp add: i(1))
  have m: "mergeBlock c B = c[i := mergeDirectives (c ! i) B]" using Some by (simp add: mergeBlock_def)
  have pre: "undisturbed s (d ! j) (c ! j)" if "j < length d" for j
    using list_all2_nthD [OF assms(1) that] that assms(2) by simp
  have "undisturbed s (d ! j) (mergeBlock c B ! j)" if j: "j < length d" for j
  proof (cases "j = i")
    case True
    have "undisturbed s (d ! i) (mergeDirectives (c ! i) B)"
      using \<open>nul_free (c ! i)\<close> assms(4,5) i(2) pre j True by (intro undisturbed_step) simp_all
    then show ?thesis using True i(1) by (simp add: m)
  next
    case False
    then show ?thesis using pre [OF j] by (simp add: m)
  qed
  then show ?thesis using assms(2) by (intro conjI list_all2_all_nthI) (simp_all add: m)
qed

lemma undisturbed_merge:
  assumes "config_ok d" "config_ok s"
  shows "list_all2 (undisturbed s) d (take (length d) (mergeSSHConfig d s))"
proof -
  have "list_all2 (undisturbed s) d (take (length d) (foldl mergeBlock c ss))"
    if "list_all2 (undisturbed s) d (take (length d) c)" "length d \<le> length c" "config_ok c" "set ss \<subseteq> set s"
    for c ss
    using that
  proof (induction ss arbitrary: c)
    case (Cons B ss)
    have B: "B \<in> set s" using Cons.prems(4) by simp
    have ok: "nul_free B" by (rule bspec [OF assms(2) B])
    note step = undisturbed_mergeBlock [OF Cons.prems(1-3) ok B]
    show ?case
      using Cons.IH [OF conjunct1 [OF step] conjunct2 [OF step] config_ok_mergeBlock [OF Cons.prems(3) ok]]
        Cons.prems(4) by simp
  qed simp
  moreover have "list_all2 (undisturbed s) d (take (length d) d)"
    by (simp add: list_all2_same undisturbed_refl)
  ultimately show ?thesis using assms(1) unfolding mergeSSHConfig_def by blast
qed

section \<open>Properties\<close>

lemma render_parse_terminated:
  "CHR 0x0D \<notin> set b \<Longrightarrow> render_config (parseSSHConfig (b @ [CHR 0x0A])) = b @ [CHR 0x0A]"
  by (simp add: parseSSHConfig_terminated render_config_texts config_texts_parse_sections
      block_texts_def global_section_def comp_def newline_terminated_split)








text \<open>
  A new section whose template repeats a single-valued keyword is copied with both lines
  on the first sync, and the next sync of the unchanged template rewrites the first of them
  with the second one's arguments: the effective value in OpenSSH, where the first line
  wins, changes although nothing else did.
\<close>
theorem repeated_keyword_unstable:
  "let s = ''Host a'' @ CHR 0x0A # ''Port 1'' @ CHR 0x0A # ''Port 2'' @ [CHR 0x0A] in
   sync_text [] s = s \<and>
   sync_text (sync_text [] s) s = ''Host a'' @ CHR 0x0A # ''Port 2'' @ CHR 0x0A # ''Port 2'' @ [CHR 0x0A]"
  by code_simp

end
