(* ===== verification/Files.thy ===== *)
theory Files
  imports GoStrings
begin

text \<open>
  The file system as the program uses it: regular files with content and permission bits,
  and \<open>atomicWrite\<close> (\<open>internal/handlers/yaml.go\<close>) as the sequence of states the disk goes
  through, with every system call able to fail. A crash leaves one of those states.
\<close>

section \<open>Files\<close>

record dfile =
  content :: string
  mode :: nat

type_synonym fs = "string \<Rightarrow> dfile option"

text \<open>\<open>0600\<close>, the mode of every managed file and of what \<open>os.CreateTemp\<close> creates.\<close>

definition perm600 :: nat where
  "perm600 = 384"

datatype io_step = MkdirAll | CreateTemp | WriteTemp | CloseTemp | ChmodTemp | RenameTemp | RemoveTemp

text \<open>
  \<open>fails\<close> says which calls return an error; \<open>torn\<close> is how much a failing (or interrupted)
  write has written; \<open>tmp\<close> is the fresh name \<open>os.CreateTemp\<close> picked.
\<close>

definition remove_temp :: "(io_step \<Rightarrow> bool) \<Rightarrow> string \<Rightarrow> fs \<Rightarrow> fs" where
  "remove_temp fails tmp f = (if fails RemoveTemp then f else f(tmp := None))"

definition atomicWrite :: "(io_step \<Rightarrow> bool) \<Rightarrow> nat \<Rightarrow> string \<Rightarrow> string \<Rightarrow> string \<Rightarrow> nat \<Rightarrow> fs
    \<Rightarrow> io_step option \<times> fs list" where
  "atomicWrite fails torn tmp path data perm f =
     (let f1 = f(tmp \<mapsto> \<lparr>content = [], mode = perm600\<rparr>);
          f2 = f(tmp \<mapsto> \<lparr>content = take torn data, mode = perm600\<rparr>);
          f3 = f(tmp \<mapsto> \<lparr>content = data, mode = perm600\<rparr>);
          f4 = f(tmp \<mapsto> \<lparr>content = data, mode = perm\<rparr>);
          f5 = f(tmp := None, path \<mapsto> \<lparr>content = data, mode = perm\<rparr>)
      in if fails MkdirAll then (Some MkdirAll, [f])
         else if fails CreateTemp then (Some CreateTemp, [f])
         else if fails WriteTemp then (Some WriteTemp, [f, f1, f2, remove_temp fails tmp f2])
         else if fails CloseTemp then (Some CloseTemp, [f, f1, f2, f3, remove_temp fails tmp f3])
         else if fails ChmodTemp then (Some ChmodTemp, [f, f1, f2, f3, remove_temp fails tmp f3])
         else if fails RenameTemp then (Some RenameTemp, [f, f1, f2, f3, f4, remove_temp fails tmp f4])
         else (None, [f, f1, f2, f3, f4, f5]))"

definition write_file :: "(io_step \<Rightarrow> bool) \<Rightarrow> nat \<Rightarrow> string \<Rightarrow> string \<Rightarrow> string \<Rightarrow> nat \<Rightarrow> fs \<Rightarrow> io_step option \<times> fs" where
  "write_file fails torn tmp path data perm f = apsnd last (atomicWrite fails torn tmp path data perm f)"

text \<open>\<open>os.Chmod\<close> on an existing file.\<close>

definition chmod :: "string \<Rightarrow> nat \<Rightarrow> fs \<Rightarrow> fs" where
  "chmod path perm f = (case f path of None \<Rightarrow> f | Some x \<Rightarrow> f(path \<mapsto> x\<lparr>mode := perm\<rparr>))"

section \<open>Facts\<close>

lemma atomicWrite_nonempty [simp]: "snd (atomicWrite fails torn tmp path data perm f) \<noteq> []"
  by (simp add: atomicWrite_def Let_def)

lemma write_file_ok:
  "fst (write_file fails torn tmp path data perm f) = None \<Longrightarrow>
   snd (write_file fails torn tmp path data perm f) = f(tmp := None, path \<mapsto> \<lparr>content = data, mode = perm\<rparr>)"
  by (simp add: write_file_def atomicWrite_def Let_def split: if_splits)

lemma write_file_failed:
  "fst (write_file fails torn tmp path data perm f) \<noteq> None \<Longrightarrow> p \<noteq> tmp \<Longrightarrow>
   snd (write_file fails torn tmp path data perm f) p = f p"
  by (simp add: write_file_def atomicWrite_def remove_temp_def Let_def split: if_splits)

lemma write_file_frame:
  "p \<noteq> tmp \<Longrightarrow> p \<noteq> path \<Longrightarrow> snd (write_file fails torn tmp path data perm f) p = f p"
  by (simp add: write_file_def atomicWrite_def remove_temp_def Let_def)

section \<open>Properties\<close>



end
