(* ===== verification/Handlers.thy ===== *)
theory Handlers
  imports TOML YAML SSHConfigText Files
begin

text \<open>
  \<open>internal/handlers/handler.go\<close> and the handlers' entry points: choosing a handler for a
  format, reading, parsing, merging and rendering through values of type \<open>any\<close>, with every
  type assertion of the Go code. \<open>encoding/json\<close>, \<open>yaml.v3\<close>, \<open>ini.v1\<close> and \<open>go-netrc\<close> are the
  record \<open>codecs\<close>; a Go map that may be nil is an option.
\<close>

section \<open>Values and libraries\<close>

record netrc_cred =
  Login :: string
  Password :: string

datatype ('f, 'x, 'i, 'n) anyval =
    AMap "'f goval gomap option"
  | AText string
  | ASSH ssh_config
  | AYaml "'x ynode"
  | AIni 'i
  | ANetrc 'n
  | ANetrcData "(string \<times> netrc_cred) list"

record ('f, 'x, 'i, 'n) codecs =
  Floats :: "'f float_ops"
  JSON_Unmarshal :: "string \<Rightarrow> 'f goval gomap option option"
  JSON_Cred :: "string \<Rightarrow> (string \<times> string) option"
  JSON_MarshalIndent :: "'f goval gomap option \<Rightarrow> string option"
  YAML_Unmarshal :: "string \<Rightarrow> 'x ynode option"
  YAML_Encode :: "'x ynode \<Rightarrow> string option"
  YAML_extra :: 'x
  INI_Empty :: 'i
  INI_Load :: "string \<Rightarrow> 'i option"
  INI_Sections :: "'i \<Rightarrow> (string \<times> (string \<times> string) list) list"
  INI_HasKey :: "'i \<Rightarrow> string \<Rightarrow> string \<Rightarrow> bool"
  INI_SetValue :: "string \<Rightarrow> string \<Rightarrow> string \<Rightarrow> 'i \<Rightarrow> 'i"
  INI_NewKey :: "string \<Rightarrow> string \<Rightarrow> string \<Rightarrow> 'i \<Rightarrow> 'i"
  INI_Section :: "string \<Rightarrow> 'i \<Rightarrow> 'i"
  INI_Write :: "'i \<Rightarrow> string option"
  Netrc_New :: 'n
  Netrc_Parse :: "string \<Rightarrow> 'n option"
  Netrc_Machine :: "'n \<Rightarrow> string \<Rightarrow> bool"
  Netrc_Set :: "string \<Rightarrow> string \<Rightarrow> string \<Rightarrow> 'n \<Rightarrow> 'n"
  Netrc_Add :: "string \<Rightarrow> string \<Rightarrow> string \<Rightarrow> 'n \<Rightarrow> 'n"
  Netrc_Render :: "'n \<Rightarrow> string"

datatype handler_error =
    NoDeleteNulls string
  | UnsupportedFormat string
  | ReadFailed
  | ParseFailed
  | ParseTOMLFailed toml_error
  | WrongExisting
  | WrongIncoming
  | MergeYAMLFailed yaml_error
  | NilMapPanic
  | WrongData
  | MarshalFailed

section \<open>Choosing a handler\<close>

datatype handler =
    YAMLHandler bool
  | JSONHandler bool
  | INIHandler
  | TOMLHandler
  | TextHandler
  | NetrcHandler
  | SSHConfigHandler

definition SupportsDeleteNulls :: "string \<Rightarrow> bool" where
  "SupportsDeleteNulls format \<longleftrightarrow> format \<in> {''json'', ''yaml''}"

definition HandlerWithOptions :: "string \<Rightarrow> bool \<Rightarrow> handler_error + handler" where
  "HandlerWithOptions format deleteNulls =
     (if deleteNulls \<and> \<not> SupportsDeleteNulls format then Inl (NoDeleteNulls format)
      else if format = ''yaml'' then Inr (YAMLHandler deleteNulls)
      else if format = ''json'' then Inr (JSONHandler deleteNulls)
      else if format = ''ini'' then Inr INIHandler
      else if format = ''toml'' then Inr TOMLHandler
      else if format = ''text'' then Inr TextHandler
      else if format = ''netrc'' then Inr NetrcHandler
      else if format = ''ssh_config'' then Inr SSHConfigHandler
      else Inl (UnsupportedFormat format))"

section \<open>Reading and parsing\<close>

text \<open>What the operating system says of the target file.\<close>

datatype read_result = NotExist | Unreadable | Contents string

fun of_option :: "'e \<Rightarrow> 'a option \<Rightarrow> 'e + 'a" where
  "of_option e None = Inl e"
| "of_option e (Some a) = Inr a"

definition parse_toml_any :: "('f, 'x, 'i, 'n) codecs \<Rightarrow> string \<Rightarrow> handler_error + ('f, 'x, 'i, 'n) anyval" where
  "parse_toml_any L s =
     (case parseTOML (Floats L) s of Inl e \<Rightarrow> Inl (ParseTOMLFailed e) | Inr m \<Rightarrow> Inr (AMap (Some m)))"

definition parse_json_any :: "('f, 'x, 'i, 'n) codecs \<Rightarrow> string \<Rightarrow> handler_error + ('f, 'x, 'i, 'n) anyval" where
  "parse_json_any L s = rbind (of_option ParseFailed (JSON_Unmarshal L s)) (\<lambda>m. Inr (AMap m))"

definition parse_yaml_any :: "('f, 'x, 'i, 'n) codecs \<Rightarrow> string \<Rightarrow> handler_error + ('f, 'x, 'i, 'n) anyval" where
  "parse_yaml_any L s = rbind (of_option ParseFailed (YAML_Unmarshal L s)) (\<lambda>d. Inr (AYaml d))"

definition parse_ini_any :: "('f, 'x, 'i, 'n) codecs \<Rightarrow> string \<Rightarrow> handler_error + ('f, 'x, 'i, 'n) anyval" where
  "parse_ini_any L s = rbind (of_option ParseFailed (INI_Load L s)) (\<lambda>d. Inr (AIni d))"

text \<open>
  \<open>Read\<close>: a missing file is the empty document; so is an empty one, for the formats that
  say so (ini and netrc hand the file to the library, text and ssh_config take it as is).
\<close>

definition YAML_Read :: "('f, 'x, 'i, 'n) codecs \<Rightarrow> read_result \<Rightarrow> handler_error + ('f, 'x, 'i, 'n) anyval" where
  "YAML_Read L r =
     (case r of
        NotExist \<Rightarrow> Inr (AYaml (emptyYAMLDoc (YAML_extra L)))
      | Unreadable \<Rightarrow> Inl ReadFailed
      | Contents s \<Rightarrow> if s = [] then Inr (AYaml (emptyYAMLDoc (YAML_extra L))) else parse_yaml_any L s)"

definition JSON_Read :: "('f, 'x, 'i, 'n) codecs \<Rightarrow> read_result \<Rightarrow> handler_error + ('f, 'x, 'i, 'n) anyval" where
  "JSON_Read L r =
     (case r of
        NotExist \<Rightarrow> Inr (AMap (Some []))
      | Unreadable \<Rightarrow> Inl ReadFailed
      | Contents s \<Rightarrow> if s = [] then Inr (AMap (Some [])) else parse_json_any L s)"

definition INI_Read :: "('f, 'x, 'i, 'n) codecs \<Rightarrow> read_result \<Rightarrow> handler_error + ('f, 'x, 'i, 'n) anyval" where
  "INI_Read L r =
     (case r of
        NotExist \<Rightarrow> Inr (AIni (INI_Empty L))
      | Unreadable \<Rightarrow> Inl ParseFailed
      | Contents s \<Rightarrow> parse_ini_any L s)"

definition TOML_Read :: "('f, 'x, 'i, 'n) codecs \<Rightarrow> read_result \<Rightarrow> handler_error + ('f, 'x, 'i, 'n) anyval" where
  "TOML_Read L r =
     (case r of
        NotExist \<Rightarrow> Inr (AMap (Some []))
      | Unreadable \<Rightarrow> Inl ReadFailed
      | Contents s \<Rightarrow> if s = [] then Inr (AMap (Some [])) else parse_toml_any L s)"

definition Text_Read :: "read_result \<Rightarrow> handler_error + ('f, 'x, 'i, 'n) anyval" where
  "Text_Read r =
     (case r of NotExist \<Rightarrow> Inr (AText []) | Unreadable \<Rightarrow> Inl ReadFailed | Contents s \<Rightarrow> Inr (AText s))"

definition Netrc_Read :: "('f, 'x, 'i, 'n) codecs \<Rightarrow> read_result \<Rightarrow> handler_error + ('f, 'x, 'i, 'n) anyval" where
  "Netrc_Read L r =
     (case r of
        NotExist \<Rightarrow> Inr (ANetrc (Netrc_New L))
      | Unreadable \<Rightarrow> Inl ParseFailed
      | Contents s \<Rightarrow> rbind (of_option ParseFailed (Netrc_Parse L s)) (\<lambda>n. Inr (ANetrc n)))"

definition SSHConfig_Read :: "read_result \<Rightarrow> handler_error + ('f, 'x, 'i, 'n) anyval" where
  "SSHConfig_Read r =
     (case r of
        NotExist \<Rightarrow> Inr (ASSH (parseSSHConfig []))
      | Unreadable \<Rightarrow> Inl ReadFailed
      | Contents s \<Rightarrow> Inr (ASSH (parseSSHConfig s)))"

definition handler_Read :: "('f, 'x, 'i, 'n) codecs \<Rightarrow> handler \<Rightarrow> read_result \<Rightarrow> handler_error + ('f, 'x, 'i, 'n) anyval" where
  "handler_Read L h r =
     (case h of
        YAMLHandler dn \<Rightarrow> YAML_Read L r
      | JSONHandler dn \<Rightarrow> JSON_Read L r
      | INIHandler \<Rightarrow> INI_Read L r
      | TOMLHandler \<Rightarrow> TOML_Read L r
      | TextHandler \<Rightarrow> Text_Read r
      | NetrcHandler \<Rightarrow> Netrc_Read L r
      | SSHConfigHandler \<Rightarrow> SSHConfig_Read r)"

text \<open>\<open>Parse\<close>: \<open>None\<close> for a handler that is no \<open>Parser\<close>.\<close>

definition YAML_Parse :: "('f, 'x, 'i, 'n) codecs \<Rightarrow> string \<Rightarrow> handler_error + ('f, 'x, 'i, 'n) anyval" where
  "YAML_Parse L s = (if s = [] then Inr (AYaml (emptyYAMLDoc (YAML_extra L))) else parse_yaml_any L s)"

definition JSON_Parse :: "('f, 'x, 'i, 'n) codecs \<Rightarrow> string \<Rightarrow> handler_error + ('f, 'x, 'i, 'n) anyval" where
  "JSON_Parse L s = (if s = [] then Inr (AMap (Some [])) else parse_json_any L s)"

definition INI_Parse :: "('f, 'x, 'i, 'n) codecs \<Rightarrow> string \<Rightarrow> handler_error + ('f, 'x, 'i, 'n) anyval" where
  "INI_Parse L s = (if s = [] then Inr (AIni (INI_Empty L)) else parse_ini_any L s)"

definition TOML_Parse :: "('f, 'x, 'i, 'n) codecs \<Rightarrow> string \<Rightarrow> handler_error + ('f, 'x, 'i, 'n) anyval" where
  "TOML_Parse L s = (if s = [] then Inr (AMap (Some [])) else parse_toml_any L s)"

definition handler_Parse :: "('f, 'x, 'i, 'n) codecs \<Rightarrow> handler \<Rightarrow> string \<Rightarrow> (handler_error + ('f, 'x, 'i, 'n) anyval) option" where
  "handler_Parse L h s =
     (case h of
        YAMLHandler dn \<Rightarrow> Some (YAML_Parse L s)
      | JSONHandler dn \<Rightarrow> Some (JSON_Parse L s)
      | INIHandler \<Rightarrow> Some (INI_Parse L s)
      | TOMLHandler \<Rightarrow> Some (TOML_Parse L s)
      | TextHandler \<Rightarrow> Some (Inr (AText s))
      | NetrcHandler \<Rightarrow> None
      | SSHConfigHandler \<Rightarrow> Some (Inr (ASSH (parseSSHConfig s))))"

section \<open>Merging\<close>

text \<open>
  A write to a nil map panics, a deletion from it or from nothing does not: a JSON document
  \<open>null\<close> is unmarshalled into a nil map.
\<close>

definition merge_json_any :: "bool \<Rightarrow> 'f goval gomap option \<Rightarrow> 'f goval gomap option
    \<Rightarrow> handler_error + 'f goval gomap option" where
  "merge_json_any dn dst src =
     (let src = (case src of None \<Rightarrow> [] | Some s \<Rightarrow> s) in
      case dst of
        Some d \<Rightarrow> Inr (Some (deepMergeJSON d src dn))
      | None \<Rightarrow> if \<forall>p \<in> set src. dn \<and> snd p = GNil then Inr None else Inl NilMapPanic)"

definition merge_ini :: "('f, 'x, 'i, 'n) codecs \<Rightarrow> 'i \<Rightarrow> 'i \<Rightarrow> 'i" where
  "merge_ini L dst src =
     foldl (\<lambda>d (sec, keys).
       foldl (\<lambda>d (k, v). if INI_HasKey L d sec k then INI_SetValue L sec k v d else INI_NewKey L sec k v d)
         (INI_Section L sec d) keys)
       dst (INI_Sections L src)"

definition merge_netrc :: "('f, 'x, 'i, 'n) codecs \<Rightarrow> 'n \<Rightarrow> (string \<times> netrc_cred) list \<Rightarrow> 'n" where
  "merge_netrc L n vaultData =
     foldl (\<lambda>n (machine, cred).
       if machine = ''default'' then n
       else if Netrc_Machine L n machine then Netrc_Set L machine (Login cred) (Password cred) n
       else Netrc_Add L machine (Login cred) (Password cred) n) n vaultData"

definition YAML_Merge_any :: "bool \<Rightarrow> ('f, 'x, 'i, 'n) anyval \<Rightarrow> ('f, 'x, 'i, 'n) anyval \<Rightarrow> handler_error + ('f, 'x, 'i, 'n) anyval" where
  "YAML_Merge_any dn existing incoming =
     (case existing of
        AYaml d \<Rightarrow> (case incoming of
            AYaml s \<Rightarrow> (case YAML_Merge dn d s of Inl e \<Rightarrow> Inl (MergeYAMLFailed e) | Inr m \<Rightarrow> Inr (AYaml m))
          | _ \<Rightarrow> Inl WrongIncoming)
      | _ \<Rightarrow> Inl WrongExisting)"

definition JSON_Merge_any :: "bool \<Rightarrow> ('f, 'x, 'i, 'n) anyval \<Rightarrow> ('f, 'x, 'i, 'n) anyval \<Rightarrow> handler_error + ('f, 'x, 'i, 'n) anyval" where
  "JSON_Merge_any dn existing incoming =
     (case existing of
        AMap d \<Rightarrow> (case incoming of
            AMap s \<Rightarrow> rbind (merge_json_any dn d s) (\<lambda>m. Inr (AMap m))
          | _ \<Rightarrow> Inl WrongIncoming)
      | _ \<Rightarrow> Inl WrongExisting)"

definition TOML_Merge_any :: "('f, 'x, 'i, 'n) anyval \<Rightarrow> ('f, 'x, 'i, 'n) anyval \<Rightarrow> handler_error + ('f, 'x, 'i, 'n) anyval" where
  "TOML_Merge_any existing incoming =
     (case existing of
        AMap d \<Rightarrow> (case incoming of
            AMap s \<Rightarrow> (case d of
                Some d \<Rightarrow> Inr (AMap (Some (deepMergeTOML d (case s of None \<Rightarrow> [] | Some s \<Rightarrow> s))))
              | None \<Rightarrow> (if s = None \<or> s = Some [] then Inr (AMap None) else Inl NilMapPanic))
          | _ \<Rightarrow> Inl WrongIncoming)
      | _ \<Rightarrow> Inl WrongExisting)"

definition INI_Merge_any :: "('f, 'x, 'i, 'n) codecs \<Rightarrow> ('f, 'x, 'i, 'n) anyval \<Rightarrow> ('f, 'x, 'i, 'n) anyval \<Rightarrow> handler_error + ('f, 'x, 'i, 'n) anyval" where
  "INI_Merge_any L existing incoming =
     (case existing of
        AIni d \<Rightarrow> (case incoming of AIni s \<Rightarrow> Inr (AIni (merge_ini L d s)) | _ \<Rightarrow> Inl WrongIncoming)
      | _ \<Rightarrow> Inl WrongExisting)"

definition Text_Merge_any :: "('f, 'x, 'i, 'n) anyval \<Rightarrow> handler_error + ('f, 'x, 'i, 'n) anyval" where
  "Text_Merge_any incoming = (case incoming of AText s \<Rightarrow> Inr (AText s) | _ \<Rightarrow> Inl WrongIncoming)"

definition Netrc_Merge_any :: "('f, 'x, 'i, 'n) codecs \<Rightarrow> ('f, 'x, 'i, 'n) anyval \<Rightarrow> ('f, 'x, 'i, 'n) anyval \<Rightarrow> handler_error + ('f, 'x, 'i, 'n) anyval" where
  "Netrc_Merge_any L existing incoming =
     (case existing of
        ANetrc n \<Rightarrow> (case incoming of
            ANetrcData vd \<Rightarrow> Inr (ANetrc (merge_netrc L n vd)) | _ \<Rightarrow> Inl WrongIncoming)
      | _ \<Rightarrow> Inl WrongExisting)"

definition SSHConfig_Merge_any :: "('f, 'x, 'i, 'n) anyval \<Rightarrow> ('f, 'x, 'i, 'n) anyval \<Rightarrow> handler_error + ('f, 'x, 'i, 'n) anyval" where
  "SSHConfig_Merge_any existing incoming =
     (case existing of
        ASSH d \<Rightarrow> (case incoming of ASSH s \<Rightarrow> Inr (ASSH (mergeSSHConfig d s)) | _ \<Rightarrow> Inl WrongIncoming)
      | _ \<Rightarrow> Inl WrongExisting)"

definition handler_Merge :: "('f, 'x, 'i, 'n) codecs \<Rightarrow> handler \<Rightarrow> ('f, 'x, 'i, 'n) anyval
    \<Rightarrow> ('f, 'x, 'i, 'n) anyval \<Rightarrow> handler_error + ('f, 'x, 'i, 'n) anyval" where
  "handler_Merge L h existing incoming =
     (case h of
        YAMLHandler dn \<Rightarrow> YAML_Merge_any dn existing incoming
      | JSONHandler dn \<Rightarrow> JSON_Merge_any dn existing incoming
      | TOMLHandler \<Rightarrow> TOML_Merge_any existing incoming
      | INIHandler \<Rightarrow> INI_Merge_any L existing incoming
      | TextHandler \<Rightarrow> Text_Merge_any incoming
      | NetrcHandler \<Rightarrow> Netrc_Merge_any L existing incoming
      | SSHConfigHandler \<Rightarrow> SSHConfig_Merge_any existing incoming)"

section \<open>Rendering\<close>

text \<open>The bytes each \<open>Write\<close> hands to \<open>atomicWrite\<close>.\<close>

definition YAML_Render :: "('f, 'x, 'i, 'n) codecs \<Rightarrow> ('f, 'x, 'i, 'n) anyval \<Rightarrow> handler_error + string" where
  "YAML_Render L data = (case data of AYaml d \<Rightarrow> of_option MarshalFailed (YAML_Encode L d) | _ \<Rightarrow> Inl WrongData)"

definition JSON_Render :: "('f, 'x, 'i, 'n) codecs \<Rightarrow> ('f, 'x, 'i, 'n) anyval \<Rightarrow> handler_error + string" where
  "JSON_Render L data =
     (case data of
        AMap m \<Rightarrow> rbind (of_option MarshalFailed (JSON_MarshalIndent L m)) (\<lambda>s. Inr (s @ [NL]))
      | _ \<Rightarrow> Inl WrongData)"

definition INI_Render :: "('f, 'x, 'i, 'n) codecs \<Rightarrow> ('f, 'x, 'i, 'n) anyval \<Rightarrow> handler_error + string" where
  "INI_Render L data = (case data of AIni d \<Rightarrow> of_option MarshalFailed (INI_Write L d) | _ \<Rightarrow> Inl WrongData)"

definition TOML_Render :: "('f, 'x, 'i, 'n) codecs \<Rightarrow> ('f, 'x, 'i, 'n) anyval \<Rightarrow> handler_error + string" where
  "TOML_Render L data =
     (case data of
        AMap m \<Rightarrow> Inr (encodeTOML (Floats L) [] (case m of None \<Rightarrow> [] | Some m \<Rightarrow> m) [])
      | _ \<Rightarrow> Inl WrongData)"

definition Text_Render :: "('f, 'x, 'i, 'n) anyval \<Rightarrow> handler_error + string" where
  "Text_Render data = (case data of AText s \<Rightarrow> Inr s | _ \<Rightarrow> Inl WrongData)"

definition Netrc_Render_any :: "('f, 'x, 'i, 'n) codecs \<Rightarrow> ('f, 'x, 'i, 'n) anyval \<Rightarrow> handler_error + string" where
  "Netrc_Render_any L data = (case data of ANetrc n \<Rightarrow> Inr (Netrc_Render L n) | _ \<Rightarrow> Inl WrongData)"

definition SSHConfig_Render :: "('f, 'x, 'i, 'n) anyval \<Rightarrow> handler_error + string" where
  "SSHConfig_Render data = (case data of ASSH c \<Rightarrow> Inr (render_config c) | _ \<Rightarrow> Inl WrongData)"

definition handler_Render :: "('f, 'x, 'i, 'n) codecs \<Rightarrow> handler \<Rightarrow> ('f, 'x, 'i, 'n) anyval \<Rightarrow> handler_error + string" where
  "handler_Render L h data =
     (case h of
        YAMLHandler dn \<Rightarrow> YAML_Render L data
      | JSONHandler dn \<Rightarrow> JSON_Render L data
      | INIHandler \<Rightarrow> INI_Render L data
      | TOMLHandler \<Rightarrow> TOML_Render L data
      | TextHandler \<Rightarrow> Text_Render data
      | NetrcHandler \<Rightarrow> Netrc_Render_any L data
      | SSHConfigHandler \<Rightarrow> SSHConfig_Render data)"

lemmas handler_defs = handler_Read_def handler_Parse_def handler_Merge_def handler_Render_def
  YAML_Read_def JSON_Read_def INI_Read_def TOML_Read_def Text_Read_def Netrc_Read_def SSHConfig_Read_def
  YAML_Parse_def JSON_Parse_def INI_Parse_def TOML_Parse_def
  YAML_Merge_any_def JSON_Merge_any_def INI_Merge_any_def TOML_Merge_any_def Text_Merge_any_def
  Netrc_Merge_any_def SSHConfig_Merge_any_def
  YAML_Render_def JSON_Render_def INI_Render_def TOML_Render_def Text_Render_def Netrc_Render_any_def
  SSHConfig_Render_def

section \<open>Facts\<close>

fun is_parser :: "handler \<Rightarrow> bool" where
  "is_parser NetrcHandler = False"
| "is_parser h = True"

lemma handler_Parse_None: "handler_Parse L h s = None \<longleftrightarrow> \<not> is_parser h"
  by (cases h) (auto simp: handler_Parse_def)

lemma HandlerWithOptions_ok:
  "is_ok (HandlerWithOptions format dn) \<longleftrightarrow>
     format \<in> {''yaml'', ''json'', ''ini'', ''toml'', ''text'', ''netrc'', ''ssh_config''}
     \<and> (dn \<longrightarrow> SupportsDeleteNulls format)"
  by (simp add: HandlerWithOptions_def)

section \<open>Properties\<close>

text \<open>
  Every handler's types fit together: what \<open>Read\<close> and \<open>Parse\<close> return is accepted by
  \<open>Merge\<close> of the same handler, and what \<open>Merge\<close> returns is accepted by \<open>Write\<close>; no type
  assertion of the chain can fail.
\<close>
theorem handler_types_fit:
  assumes "handler_Read L h r = Inr ex" "handler_Parse L h s = Some (Inr inc)"
  shows "handler_Merge L h ex inc \<notin> {Inl WrongExisting, Inl WrongIncoming}
    \<and> (\<forall>m. handler_Merge L h ex inc = Inr m \<longrightarrow> handler_Render L h m \<noteq> Inl WrongData)"
proof -
  have of: "of_option e x = Inl e' \<longleftrightarrow> x = None \<and> e = e'" for x :: "'z option" and e e' :: handler_error
    by (cases x) auto
  show ?thesis
    using assms
    by (cases h; cases r)
       (auto simp: handler_defs parse_yaml_any_def parse_json_any_def parse_toml_any_def parse_ini_any_def
          merge_json_any_def rbind_Inr_iff rbind_Inl_iff Let_def of
          split: if_splits option.splits sum.splits anyval.splits)
qed

text \<open>Libraries that accept one document, for concrete runs of the handlers.\<close>

definition demo_codecs :: "(nat, unit, unit, unit) codecs" where
  "demo_codecs = \<lparr>
     Floats = \<lparr>ParseFloat = (\<lambda>_. None), FormatFloat = show_nat, IsPosInf = (\<lambda>_. False),
       IsNegInf = (\<lambda>_. False), IsNaN = (\<lambda>_. False)\<rparr>,
     JSON_Unmarshal = (\<lambda>s. if s = ''null'' then Some None else if s = ''{}'' then Some (Some []) else None),
     JSON_Cred = (\<lambda>_. None),
     JSON_MarshalIndent = (\<lambda>m. case m of None \<Rightarrow> Some ''null'' | Some m \<Rightarrow> if m = [] then Some ''{}'' else None),
     YAML_Unmarshal = (\<lambda>_. None), YAML_Encode = (\<lambda>_. None), YAML_extra = (),
     INI_Empty = (), INI_Load = (\<lambda>_. None), INI_Sections = (\<lambda>_. []), INI_HasKey = (\<lambda>_ _ _. False),
     INI_SetValue = (\<lambda>_ _ _ i. i), INI_NewKey = (\<lambda>_ _ _ i. i), INI_Section = (\<lambda>_ i. i), INI_Write = (\<lambda>_. None),
     Netrc_New = (), Netrc_Parse = (\<lambda>_. None), Netrc_Machine = (\<lambda>_ _. False), Netrc_Set = (\<lambda>_ _ _ n. n),
     Netrc_Add = (\<lambda>_ _ _ n. n), Netrc_Render = (\<lambda>_. [])\<rparr>"

theorem handler_types_fit_witness:
  "handler_Merge demo_codecs (JSONHandler False) (AMap (Some [])) (AMap (Some [])) \<notin> {Inl WrongExisting, Inl WrongIncoming}"
  using handler_types_fit [of demo_codecs "JSONHandler False" "Contents ''{}''" "AMap (Some [])" "''{}''" "AMap (Some [])"]
  by (simp add: demo_codecs_def parse_json_any_def handler_defs)

text \<open>
  A JSON file that consists of \<open>null\<close> is unmarshalled into a nil map, and merging any
  document with a key into it writes to that nil map: a run-time panic, not an error.
\<close>
theorem null_json_document_panics:
  assumes "JSON_Unmarshal L ''null'' = Some None" "src \<noteq> []"
  shows "handler_Read L (JSONHandler False) (Contents ''null'') = Inr (AMap None)
    \<and> handler_Merge L (JSONHandler False) (AMap None) (AMap (Some src)) = Inl NilMapPanic"
  using assms by (cases src) (auto simp: handler_defs parse_json_any_def merge_json_any_def)

theorem null_json_document_panics_witness:
  "handler_Merge demo_codecs (JSONHandler False) (AMap None) (AMap (Some [(''k'', GBool True)])) = Inl NilMapPanic"
  using null_json_document_panics [of demo_codecs "[(''k'', GBool True)]"] by (simp add: demo_codecs_def)

text \<open>
  \<open>delete_nulls\<close> is never silently dropped: a handler is built exactly for the seven
  formats, with the option only for the two that can express a null, and the handler that
  is built carries the option it was asked for.
\<close>
theorem HandlerWithOptions_exact:
  "HandlerWithOptions format dn = Inr h \<longleftrightarrow>
     (format, h) \<in> {(''yaml'', YAMLHandler dn), (''json'', JSONHandler dn)}
     \<or> dn = False \<and> (format, h) \<in> {(''ini'', INIHandler), (''toml'', TOMLHandler), (''text'', TextHandler),
         (''netrc'', NetrcHandler), (''ssh_config'', SSHConfigHandler)}"
proof (cases "format \<in> {''yaml'', ''json'', ''ini'', ''toml'', ''text'', ''netrc'', ''ssh_config''}")
  case True
  then show ?thesis
    by (elim insertE emptyE; cases dn; simp add: HandlerWithOptions_def SupportsDeleteNulls_def; blast?)
next
  case False
  then show ?thesis by (simp add: HandlerWithOptions_def)
qed

end
