(* ===== verification/Sync.thy ===== *)
theory Sync
  imports Handlers
begin

text \<open>
  \<open>internal/sync/engine.go\<close> and \<open>internal/sync/state.go\<close> with the rule type and its
  validation (\<open>internal/config/config.go\<close>): one rule's sync from the Vault secret to the
  written file, the skip gate, the per-rule isolation of a cycle, and the engine's state.
  The Vault client, the template engine, SHA-256 and the failures of system calls are the
  record \<open>env\<close>; a cycle takes one environment per rule, so they may change between rules.
\<close>

section \<open>Rules\<close>

record target =
  Path :: string
  Format :: string
  Template :: string
  MergeOpt :: string
  DeleteNulls :: bool

record rule =
  Name :: string
  VaultKey :: string
  Target :: target

definition Keyless :: "rule \<Rightarrow> bool" where
  "Keyless r \<longleftrightarrow> VaultKey r = []"

definition validFormats :: "string set" where
  "validFormats = {''yaml'', ''json'', ''ini'', ''toml'', ''text'', ''netrc'', ''ssh_config''}"

datatype rule_error =
    NameRequired nat
  | DuplicateName string
  | KeylessNeedsTemplate nat
  | PathRequired nat
  | InvalidFormat nat string
  | DeleteNullsUnsupported nat string

text \<open>\<open>seen\<close> is the set of names so far; Go adds the name before the later checks.\<close>

definition validateRule :: "nat \<Rightarrow> rule \<Rightarrow> string set \<Rightarrow> rule_error + string set" where
  "validateRule i r seen =
     (if Name r = [] then Inl (NameRequired i)
      else if Name r \<in> seen then Inl (DuplicateName (Name r))
      else if Keyless r \<and> Template (Target r) = [] then Inl (KeylessNeedsTemplate i)
      else if Path (Target r) = [] then Inl (PathRequired i)
      else if Format (Target r) \<notin> validFormats then Inl (InvalidFormat i (Format (Target r)))
      else if DeleteNulls (Target r) \<and> \<not> SupportsDeleteNulls (Format (Target r))
           then Inl (DeleteNullsUnsupported i (Format (Target r)))
      else Inr (insert (Name r) seen))"

fun validateRules :: "nat \<Rightarrow> rule list \<Rightarrow> string set \<Rightarrow> rule_error + string set" where
  "validateRules i [] seen = Inr seen"
| "validateRules i (r # rs) seen = rbind (validateRule i r seen) (validateRules (Suc i) rs)"

section \<open>State\<close>

record rule_state =
  VaultVersion :: nat
  LastSynced :: nat
  FileSum :: string
  RuleHash :: string

definition zero_state :: rule_state where
  "zero_state = \<lparr>VaultVersion = 0, LastSynced = 0, FileSum = [], RuleHash = []\<rparr>"

type_synonym rule_states = "string \<Rightarrow> rule_state option"

definition state_Get :: "string \<Rightarrow> rule_states \<Rightarrow> rule_state" where
  "state_Get name st = (case st name of None \<Rightarrow> zero_state | Some s \<Rightarrow> s)"

definition state_Set :: "string \<Rightarrow> rule_state \<Rightarrow> rule_states \<Rightarrow> rule_states" where
  "state_Set name rs st = st(name \<mapsto> rs)"

definition state_Prune :: "string set \<Rightarrow> rule_states \<Rightarrow> rule_states \<times> nat" where
  "state_Prune keep st = (st |` keep, card (dom st - keep))"

section \<open>The engine\<close>

record config =
  Rules :: "rule list"
  UserPrefix :: string
  Interval :: nat
  Username :: string
  DryRun :: bool

record engine =
  cfg :: config
  files :: fs
  states :: rule_states
  disk_states :: rule_states

text \<open>
  What a rule's sync meets: the secret's version and data at a path (\<open>None\<close> when there is no
  secret), the template engine, the home directory, unreadable files, failing calls.
\<close>

record ('f, 'x, 'i, 'n) env =
  Libs :: "('f, 'x, 'i, 'n) codecs"
  ReadKVv2 :: "string \<Rightarrow> unit + (nat \<times> 'f goval gomap) option"
  RenderTmpl :: "string \<Rightarrow> string \<Rightarrow> 'f goval gomap \<Rightarrow> string \<Rightarrow> string option"
  SHA256 :: "string \<Rightarrow> string"
  HomeDir :: "string option"
  Unreadables :: "string set"
  MkdirFails :: bool
  ChmodFails :: bool
  SaveFails :: bool
  IOFails :: "io_step \<Rightarrow> bool"
  Torn :: nat
  TempName :: string
  Now :: nat

definition ExpandHome :: "string option \<Rightarrow> string \<Rightarrow> string option" where
  "ExpandHome home path =
     (if path = [] then None
      else if path = ''~'' then home
      else if has_prefix ''~/'' path then map_option (\<lambda>h. path_join h (drop 2 path)) home
      else Some path)"

definition read_file :: "('f, 'x, 'i, 'n) env \<Rightarrow> fs \<Rightarrow> string \<Rightarrow> read_result" where
  "read_file E f path =
     (case f path of
        None \<Rightarrow> NotExist
      | Some x \<Rightarrow> if path \<in> Unreadables E then Unreadable else Contents (content x))"

text \<open>\<open>FileChecksum\<close> with its error dropped, as every caller does.\<close>

definition FileChecksum :: "('f, 'x, 'i, 'n) env \<Rightarrow> fs \<Rightarrow> string \<Rightarrow> string" where
  "FileChecksum E f path =
     (case read_file E f path of Contents s \<Rightarrow> ''sha256:'' @ SHA256 E s | _ \<Rightarrow> [])"

definition lengthed :: "string \<Rightarrow> string" where
  "lengthed s = show_nat (length s) @ CHR '':'' # s"

definition show_bool :: "bool \<Rightarrow> string" where
  "show_bool b = (if b then ''true'' else ''false'')"

definition rule_text :: "rule \<Rightarrow> string" where
  "rule_text r = concat (map lengthed
     [VaultKey r, Path (Target r), Format (Target r), Template (Target r), MergeOpt (Target r),
      show_bool (DeleteNulls (Target r))])"

definition ruleRenderHash :: "(string \<Rightarrow> string) \<Rightarrow> rule \<Rightarrow> string" where
  "ruleRenderHash sha r = sha (rule_text r)"

section \<open>Secrets as incoming data\<close>

fun str_of :: "'f goval option \<Rightarrow> string" where
  "str_of (Some (GStr s)) = s"
| "str_of v = []"

text \<open>
  \<open>convertToNetrcVaultData\<close>; \<open>unm\<close> is \<open>json.Unmarshal\<close> into the two string fields. A secret
  is enumerated in key order; the entries are independent.
\<close>

fun netrc_entry :: "(string \<Rightarrow> netrc_cred option) \<Rightarrow> 'f goval \<Rightarrow> netrc_cred option" where
  "netrc_entry unm (GObj m) =
     Some \<lparr>Login = str_of (map_of m ''login''), Password = str_of (map_of m ''password'')\<rparr>"
| "netrc_entry unm (GStr s) = unm s"
| "netrc_entry unm (GNum n) = unm n"
| "netrc_entry unm v = None"

definition convertToNetrcVaultData :: "(string \<Rightarrow> netrc_cred option) \<Rightarrow> 'f goval gomap \<Rightarrow> (string \<times> netrc_cred) list" where
  "convertToNetrcVaultData unm data =
     List.map_filter (\<lambda>(m, v). map_option (Pair m) (netrc_entry unm v)) data"

text \<open>\<open>parseNetrcJSON\<close>: \<open>JSON_Cred\<close> is \<open>json.Unmarshal\<close> into its struct.\<close>

definition parseNetrcJSON :: "('f, 'x, 'i, 'n) codecs \<Rightarrow> string \<Rightarrow> netrc_cred option" where
  "parseNetrcJSON L s = map_option (\<lambda>(l, p). \<lparr>Login = l, Password = p\<rparr>) (JSON_Cred L s)"

datatype text_error = NotString string | NoStrings | ManyStrings nat

fun strings_of :: "'f goval gomap \<Rightarrow> string list" where
  "strings_of [] = []"
| "strings_of ((k, GStr s) # m) = s # strings_of m"
| "strings_of ((k, v) # m) = strings_of m"

fun first_known :: "string list \<Rightarrow> 'f goval gomap \<Rightarrow> (string \<times> 'f goval) option" where
  "first_known [] data = None"
| "first_known (k # ks) data = (case map_of data k of Some v \<Rightarrow> Some (k, v) | None \<Rightarrow> first_known ks data)"

definition convertToTextData :: "'f goval gomap \<Rightarrow> text_error + string" where
  "convertToTextData data =
     (case first_known [''data'', ''value'', ''content''] data of
        Some (k, GStr s) \<Rightarrow> Inr s
      | Some (k, v) \<Rightarrow> Inl (NotString k)
      | None \<Rightarrow>
          (case strings_of data of
             [] \<Rightarrow> Inl NoStrings
           | [s] \<Rightarrow> Inr s
           | ss \<Rightarrow> Inl (ManyStrings (length ss))))"

section \<open>Syncing one rule\<close>

datatype sync_error =
    ReadVaultSecret
  | ExpandTarget
  | GetHandler handler_error
  | RenderTemplate
  | NoTemplateSupport string
  | ParseRendered handler_error
  | ConvertText text_error
  | ReadExisting handler_error
  | MergeData handler_error
  | CreateParent
  | WriteData handler_error
  | WriteFailed io_step

text \<open>A panic of the handler is not caught: it ends the process, not the rule.\<close>

datatype sync_result = SyncOK | SyncFailed sync_error | SyncPanic

definition version_unchanged :: "rule \<Rightarrow> nat \<Rightarrow> rule_state \<Rightarrow> bool" where
  "version_unchanged r version st \<longleftrightarrow> Keyless r \<or> (version = VaultVersion st \<and> VaultVersion st > 0)"

definition skip_gate :: "('f, 'x, 'i, 'n) env \<Rightarrow> rule \<Rightarrow> nat \<Rightarrow> rule_state \<Rightarrow> fs \<Rightarrow> string \<Rightarrow> bool" where
  "skip_gate E r version st f path \<longleftrightarrow>
     version_unchanged r version st \<and> RuleHash st = ruleRenderHash (SHA256 E) r
     \<and> FileChecksum E f path = FileSum st"

text \<open>\<open>os.Stat\<close> and \<open>os.Chmod\<close> to \<open>0600\<close>; a failing chmod is only logged.\<close>

definition enforce_perm :: "('f, 'x, 'i, 'n) env \<Rightarrow> string \<Rightarrow> fs \<Rightarrow> fs" where
  "enforce_perm E path f =
     (case f path of
        None \<Rightarrow> f
      | Some x \<Rightarrow> if mode x \<noteq> perm600 \<and> \<not> ChmodFails E then chmod path perm600 f else f)"

definition fetch_secret :: "('f, 'x, 'i, 'n) env \<Rightarrow> engine \<Rightarrow> rule \<Rightarrow> unit + (nat \<times> 'f goval gomap) option" where
  "fetch_secret E e r =
     (if Keyless r then Inr (Some (0, []))
      else ReadKVv2 E (UserPrefix (cfg e) @ Username (cfg e) @ ''/'' @ VaultKey r))"

definition incoming :: "('f, 'x, 'i, 'n) env \<Rightarrow> engine \<Rightarrow> rule \<Rightarrow> handler \<Rightarrow> 'f goval gomap
    \<Rightarrow> sync_error + ('f, 'x, 'i, 'n) anyval" where
  "incoming E e r h data =
     (if Template (Target r) \<noteq> [] then
        (case RenderTmpl E (Name r) (Template (Target r)) data (Username (cfg e)) of
           None \<Rightarrow> Inl RenderTemplate
         | Some rendered \<Rightarrow>
             (case handler_Parse (Libs E) h rendered of
                None \<Rightarrow> Inl (NoTemplateSupport (Format (Target r)))
              | Some (Inl err) \<Rightarrow> Inl (ParseRendered err)
              | Some (Inr v) \<Rightarrow> Inr v))
      else if Format (Target r) = ''netrc'' then
        Inr (ANetrcData (convertToNetrcVaultData (parseNetrcJSON (Libs E)) data))
      else if Format (Target r) = ''text'' then
        (case convertToTextData data of Inl err \<Rightarrow> Inl (ConvertText err) | Inr s \<Rightarrow> Inr (AText s))
      else Inr (AMap (Some data)))"

text \<open>From the chosen handler to the bytes to write.\<close>

definition merged_bytes :: "('f, 'x, 'i, 'n) env \<Rightarrow> engine \<Rightarrow> rule \<Rightarrow> handler \<Rightarrow> 'f goval gomap \<Rightarrow> string
    \<Rightarrow> sync_error + handler_error + string" where
  "merged_bytes E e r h data path =
     rbind (incoming E e r h data) (\<lambda>inc.
     case handler_Read (Libs E) h (read_file E (files e) path) of
       Inl err \<Rightarrow> Inl (ReadExisting err)
     | Inr existing \<Rightarrow>
         (case handler_Merge (Libs E) h existing inc of
            Inl err \<Rightarrow> Inl (MergeData err)
          | Inr merged \<Rightarrow>
              if MkdirFails E then Inl CreateParent
              else Inr (handler_Render (Libs E) h merged)))"

definition syncRule :: "('f, 'x, 'i, 'n) env \<Rightarrow> rule \<Rightarrow> engine \<Rightarrow> sync_result \<times> engine" where
  "syncRule E r e =
     (case fetch_secret E e r of
        Inl _ \<Rightarrow> (SyncFailed ReadVaultSecret, e)
      | Inr None \<Rightarrow> (SyncOK, e)
      | Inr (Some (version, data)) \<Rightarrow>
          (case ExpandHome (HomeDir E) (Path (Target r)) of
             None \<Rightarrow> (SyncFailed ExpandTarget, e)
           | Some path \<Rightarrow>
               if skip_gate E r version (state_Get (Name r) (states e)) (files e) path
               then (SyncOK, if DryRun (cfg e) then e else e\<lparr>files := enforce_perm E path (files e)\<rparr>)
               else case HandlerWithOptions (Format (Target r)) (DeleteNulls (Target r)) of
                 Inl err \<Rightarrow> (SyncFailed (GetHandler err), e)
               | Inr h \<Rightarrow>
                   (case merged_bytes E e r h data path of
                      Inl err \<Rightarrow> (if err = MergeData NilMapPanic then SyncPanic else SyncFailed err, e)
                    | Inr out \<Rightarrow>
                        if DryRun (cfg e) then (SyncOK, e)
                        else case out of
                          Inl err \<Rightarrow> (SyncFailed (WriteData err), e)
                        | Inr bytes \<Rightarrow>
                            (case write_file (IOFails E) (Torn E) (TempName E) path bytes perm600 (files e) of
                               (Some step, f) \<Rightarrow> (SyncFailed (WriteFailed step), e\<lparr>files := f\<rparr>)
                             | (None, f) \<Rightarrow>
                                 let f = enforce_perm E path f;
                                     st = state_Set (Name r)
                                       \<lparr>VaultVersion = version, LastSynced = Now E,
                                        FileSum = FileChecksum E f path,
                                        RuleHash = ruleRenderHash (SHA256 E) r\<rparr> (states e)
                                 in (SyncOK, e\<lparr>files := f, states := st,
                                       disk_states := (if SaveFails E then disk_states e else st)\<rparr>)))))"

section \<open>Cycles\<close>

datatype cycle_error = RuleError sync_error | Interrupted nat

record cycle =
  done_ok :: nat
  done_failed :: nat
  last_error :: "cycle_error option"
  panicked :: bool

text \<open>
  \<open>runRulesLocked\<close>: \<open>E n\<close> is the environment and \<open>cancelled n\<close> the state of the context after
  \<open>n\<close> rules were processed.
\<close>

fun run_rules :: "(nat \<Rightarrow> ('f, 'x, 'i, 'n) env) \<Rightarrow> (nat \<Rightarrow> bool) \<Rightarrow> (rule \<Rightarrow> bool) \<Rightarrow> rule list
    \<Rightarrow> cycle \<Rightarrow> engine \<Rightarrow> cycle \<times> engine" where
  "run_rules E cancelled include [] c e = (c, e)"
| "run_rules E cancelled include (r # rs) c e =
     (let n = done_ok c + done_failed c in
      if \<not> include r then run_rules E cancelled include rs c e
      else if cancelled n then
        (c\<lparr>last_error := (case last_error c of None \<Rightarrow> Some (Interrupted n) | Some err \<Rightarrow> Some err)\<rparr>, e)
      else case syncRule (E n) r e of
             (SyncPanic, e') \<Rightarrow> (c\<lparr>panicked := True\<rparr>, e')
           | (SyncFailed err, e') \<Rightarrow>
               run_rules E cancelled include rs
                 (c\<lparr>done_failed := Suc (done_failed c), last_error := Some (RuleError err)\<rparr>) e'
           | (SyncOK, e') \<Rightarrow>
               run_rules E cancelled include rs (c\<lparr>done_ok := Suc (done_ok c)\<rparr>) e')"

definition empty_cycle :: cycle where
  "empty_cycle = \<lparr>done_ok = 0, done_failed = 0, last_error = None, panicked = False\<rparr>"

definition runRulesLocked :: "(nat \<Rightarrow> ('f, 'x, 'i, 'n) env) \<Rightarrow> (nat \<Rightarrow> bool) \<Rightarrow> (rule \<Rightarrow> bool) \<Rightarrow> engine \<Rightarrow> cycle \<times> engine" where
  "runRulesLocked E cancelled include e = run_rules E cancelled include (Rules (cfg e)) empty_cycle e"

definition is_interrupted :: "cycle_error option \<Rightarrow> bool" where
  "is_interrupted err = (case err of Some (Interrupted n) \<Rightarrow> True | _ \<Rightarrow> False)"

definition syncOutcome :: "cycle_error option \<Rightarrow> nat \<Rightarrow> string" where
  "syncOutcome err failed =
     (if failed > 0 then ''error''
      else if is_interrupted err then ''cancelled''
      else if err \<noteq> None then ''error''
      else ''ok'')"

definition RunOnce :: "(nat \<Rightarrow> ('f, 'x, 'i, 'n) env) \<Rightarrow> (nat \<Rightarrow> bool) \<Rightarrow> engine \<Rightarrow> (string \<times> cycle_error option) \<times> engine" where
  "RunOnce E cancelled e =
     (let (c, e') = runRulesLocked E cancelled (\<lambda>r. True) e
      in ((syncOutcome (last_error c) (done_failed c), last_error c), e'))"

definition RunKeyless :: "(nat \<Rightarrow> ('f, 'x, 'i, 'n) env) \<Rightarrow> (nat \<Rightarrow> bool) \<Rightarrow> engine \<Rightarrow> (nat \<times> nat) \<times> engine" where
  "RunKeyless E cancelled e =
     (if filter Keyless (Rules (cfg e)) = [] then ((0, 0), e)
      else let (c, e') = runRulesLocked E cancelled Keyless e in ((done_ok c, done_failed c), e'))"

definition syncRuleByPath :: "('f, 'x, 'i, 'n) env \<Rightarrow> string \<Rightarrow> engine \<Rightarrow> sync_result option \<times> engine" where
  "syncRuleByPath E path e =
     (let vaultKey = trim_prefix (UserPrefix (cfg e) @ Username (cfg e) @ ''/'') path in
      case find (\<lambda>r. VaultKey r = vaultKey) (Rules (cfg e)) of
        None \<Rightarrow> (None, e)
      | Some r \<Rightarrow> apfst Some (syncRule E r e))"

text \<open>\<open>UpdateConfig\<close>: the new engine, and the nudges to the loop (trigger, ticker reset).\<close>

definition UpdateConfig :: "bool \<Rightarrow> rule list \<Rightarrow> nat \<Rightarrow> engine \<Rightarrow> engine \<times> bool \<times> bool" where
  "UpdateConfig saveFails rules interval e =
     (let rulesChanged = (Rules (cfg e) \<noteq> rules);
          intervalChanged = (interval > 0 \<and> interval \<noteq> Interval (cfg e));
          e1 = (if rulesChanged then e\<lparr>cfg := (cfg e)\<lparr>Rules := rules\<rparr>\<rparr> else e);
          e2 = (if intervalChanged then e1\<lparr>cfg := (cfg e1)\<lparr>Interval := interval\<rparr>\<rparr> else e1);
          (st, removed) = state_Prune (Name ` set rules) (states e2);
          e3 = (if rulesChanged
                then e2\<lparr>states := st,
                       disk_states := (if removed > 0 \<and> \<not> saveFails then st else disk_states e2)\<rparr>
                else e2)
      in (e3, rulesChanged, intervalChanged))"

section \<open>Reconnecting to the event stream\<close>

text \<open>
  The variables of \<open>runLoopAfterInitial\<close> that steer reconnection: whether \<open>eventCh\<close> and
  \<open>errCh\<close> are set, the next delay in seconds, the delays of the timer goroutines that are
  running, and whether \<open>reconnectCh\<close> holds a signal.
\<close>

record loop_state =
  event_ch :: bool
  err_ch :: bool
  reconnectDelay :: nat
  timers :: "nat list"
  reconnect_ch :: bool

definition maxReconnectDelay :: nat where
  "maxReconnectDelay = 300"

definition schedule :: "loop_state \<Rightarrow> loop_state" where
  "schedule s = s\<lparr>timers := reconnectDelay s # timers s,
     reconnectDelay := (if reconnectDelay s * 2 > maxReconnectDelay then maxReconnectDelay
                        else reconnectDelay s * 2)\<rparr>"

definition loop_start :: "bool \<Rightarrow> loop_state" where
  "loop_start subscribed =
     \<lparr>event_ch = subscribed, err_ch = subscribed, reconnectDelay = 1, timers = [], reconnect_ch = False\<rparr>"

inductive loop_step :: "loop_state \<Rightarrow> loop_state \<Rightarrow> bool" where
  tick: "loop_step s s"
| event: "event_ch s \<Longrightarrow> loop_step s s"
| event_closed: "event_ch s \<Longrightarrow> loop_step s (s\<lparr>event_ch := False\<rparr>)"
| stream_error: "err_ch s \<Longrightarrow> loop_step s (schedule (s\<lparr>event_ch := False, err_ch := False\<rparr>))"
| err_closed: "err_ch s \<Longrightarrow> loop_step s s"
| timer_fires: "t \<in> set (timers s) \<Longrightarrow> loop_step s (s\<lparr>timers := remove1 t (timers s), reconnect_ch := True\<rparr>)"
| reconnected: "reconnect_ch s \<Longrightarrow>
    loop_step s (s\<lparr>reconnect_ch := False, event_ch := True, err_ch := True, reconnectDelay := 1\<rparr>)"
| reconnect_failed: "reconnect_ch s \<Longrightarrow> loop_step s (schedule (s\<lparr>reconnect_ch := False\<rparr>))"

inductive loop_reach :: "bool \<Rightarrow> loop_state \<Rightarrow> bool" for b where
  start: "loop_reach b (loop_start b)"
| step: "loop_reach b s \<Longrightarrow> loop_step s s' \<Longrightarrow> loop_reach b s'"

inductive_cases loop_stepE: "loop_step s s'"

definition loop_inv :: "loop_state \<Rightarrow> bool" where
  "loop_inv s \<longleftrightarrow> 1 \<le> reconnectDelay s \<and> reconnectDelay s \<le> maxReconnectDelay
     \<and> (\<forall>t \<in> set (timers s). 1 \<le> t \<and> t \<le> maxReconnectDelay)
     \<and> length (timers s) + (if reconnect_ch s then 1 else 0) + (if err_ch s then 1 else 0) \<le> 1
     \<and> (event_ch s \<longrightarrow> err_ch s)"

lemma loop_inv_step: "loop_step s s' \<Longrightarrow> loop_inv s \<Longrightarrow> loop_inv s'"
proof (induction rule: loop_step.induct)
  case (timer_fires t s)
  then have "timers s = [t]" by (cases "timers s") (auto simp: loop_inv_def split: if_splits)
  then show ?case using timer_fires by (auto simp: loop_inv_def split: if_splits)
qed (auto simp: loop_inv_def schedule_def maxReconnectDelay_def split: if_splits)

lemma loop_reach_inv: "loop_reach b s \<Longrightarrow> loop_inv s"
proof (induction rule: loop_reach.induct)
  case start
  then show ?case by (simp add: loop_start_def loop_inv_def maxReconnectDelay_def)
next
  case (step s s')
  then show ?case by (blast intro: loop_inv_step)
qed

section \<open>Facts about one rule's sync\<close>

abbreviation target_path :: "('f, 'x, 'i, 'n) env \<Rightarrow> rule \<Rightarrow> string option" where
  "target_path E r \<equiv> ExpandHome (HomeDir E) (Path (Target r))"

definition written :: "('f, 'x, 'i, 'n) env \<Rightarrow> rule \<Rightarrow> nat \<Rightarrow> fs \<Rightarrow> string \<Rightarrow> engine \<Rightarrow> engine" where
  "written E r version f path e =
     (let st = state_Set (Name r) \<lparr>VaultVersion = version, LastSynced = Now E, FileSum = FileChecksum E f path,
                 RuleHash = ruleRenderHash (SHA256 E) r\<rparr> (states e)
      in e\<lparr>files := f, states := st, disk_states := (if SaveFails E then disk_states e else st)\<rparr>)"

text \<open>Everything a rule's sync can do, in one case rule.\<close>

lemma syncRule_cases:
  obtains (failed) err where "syncRule E r e = (SyncFailed err, e)"
  | (panic) "syncRule E r e = (SyncPanic, e)"
  | (missing) "syncRule E r e = (SyncOK, e)" "fetch_secret E e r = Inr None"
  | (skip) version data path where "fetch_secret E e r = Inr (Some (version, data))" "target_path E r = Some path"
      "skip_gate E r version (state_Get (Name r) (states e)) (files e) path"
      "syncRule E r e = (SyncOK, if DryRun (cfg e) then e else e\<lparr>files := enforce_perm E path (files e)\<rparr>)"
  | (dry) "syncRule E r e = (SyncOK, e)" "DryRun (cfg e)"
  | (torn) step path bytes where "target_path E r = Some path"
      "write_file (IOFails E) (Torn E) (TempName E) path bytes perm600 (files e)
        = (Some step, snd (write_file (IOFails E) (Torn E) (TempName E) path bytes perm600 (files e)))"
      "syncRule E r e = (SyncFailed (WriteFailed step),
        e\<lparr>files := snd (write_file (IOFails E) (Torn E) (TempName E) path bytes perm600 (files e))\<rparr>)"
  | (wrote) version data path bytes where "fetch_secret E e r = Inr (Some (version, data))"
      "target_path E r = Some path" "\<not> DryRun (cfg e)"
      "syncRule E r e = (SyncOK, written E r version
        ((files e)(TempName E := None, path \<mapsto> \<lparr>content = bytes, mode = perm600\<rparr>)) path e)"
proof -
  note cases = that
  show thesis
  proof (cases "fetch_secret E e r")
    case (Inl u)
    then show thesis by (intro cases(1) [of ReadVaultSecret]) (simp add: syncRule_def)
  next
    case fetched: (Inr s)
    show thesis
    proof (cases s)
      case None
      then show thesis using fetched by (intro cases(3)) (simp_all add: syncRule_def)
    next
      case (Some vd)
      obtain version data where vd: "vd = (version, data)" by force
      show thesis
      proof (cases "target_path E r")
        case None
        then show thesis using fetched Some vd by (intro cases(1) [of ExpandTarget]) (simp add: syncRule_def)
      next
        case path: (Some path)
        show thesis
        proof (cases "skip_gate E r version (state_Get (Name r) (states e)) (files e) path")
          case True
          then show thesis using fetched Some vd path by (intro cases(4)) (simp_all add: syncRule_def)
        next
          case gate: False
          show thesis
          proof (cases "HandlerWithOptions (Format (Target r)) (DeleteNulls (Target r))")
            case (Inl err)
            then show thesis using fetched Some vd path gate
              by (intro cases(1) [of "GetHandler err"]) (simp add: syncRule_def)
          next
            case h: (Inr h)
            note pre = fetched Some vd path gate h
            show thesis
            proof (cases "merged_bytes E e r h data path")
              case (Inl err)
              then show thesis using pre
                by (cases "err = MergeData NilMapPanic") (auto simp: syncRule_def intro: cases(1,2))
            next
              case out: (Inr out)
              show thesis
              proof (cases "DryRun (cfg e)")
                case True
                then show thesis using pre out by (intro cases(5)) (simp_all add: syncRule_def)
              next
                case wet: False
                show thesis
                proof (cases out)
                  case (Inl err)
                  then show thesis using pre out wet
                    by (intro cases(1) [of "WriteData err"]) (simp add: syncRule_def)
                next
                  case bytes: (Inr bytes)
                  let ?w = "write_file (IOFails E) (Torn E) (TempName E) path bytes perm600 (files e)"
                  obtain res f where w: "?w = (res, f)" by force
                  show thesis
                  proof (cases res)
                    case None
                    then have f: "f = (files e)(TempName E := None, path \<mapsto> \<lparr>content = bytes, mode = perm600\<rparr>)"
                      using write_file_ok [of "IOFails E" "Torn E" "TempName E" path bytes perm600 "files e"] w by simp
                    then have "enforce_perm E path f = f" by (simp add: enforce_perm_def)
                    then have "syncRule E r e = (SyncOK, written E r version f path e)"
                      using pre out wet bytes w None by (simp add: syncRule_def written_def Let_def)
                    then show thesis using pre wet f by (intro cases(7) [of version data path bytes]) simp_all
                  next
                    case (Some step)
                    then show thesis using pre out wet bytes w
                      by (intro cases(6) [of path bytes step]) (simp_all add: syncRule_def)
                  qed
                qed
              qed
            qed
          qed
        qed
      qed
    qed
  qed
qed

lemma enforce_perm_other: "p \<noteq> path \<Longrightarrow> enforce_perm E path f p = f p"
  by (auto simp: enforce_perm_def chmod_def split: option.splits)

lemma enforce_perm_content:
  "map_option content (enforce_perm E path f p) = map_option content (f p)"
  by (auto simp: enforce_perm_def chmod_def split: option.splits)

lemma enforce_perm_idem: "enforce_perm E path (enforce_perm E path f) = enforce_perm E path f"
  by (auto simp: enforce_perm_def chmod_def split: option.splits)

lemma FileChecksum_cong:
  assumes "map_option content (f path) = map_option content (g path)"
  shows "FileChecksum E f path = FileChecksum E g path"
  using assms by (cases "f path"; cases "g path") (auto simp: FileChecksum_def read_file_def)

lemma FileChecksum_enforce [simp]: "FileChecksum E (enforce_perm E path f) path = FileChecksum E f path"
  by (rule FileChecksum_cong) (rule enforce_perm_content)

lemma cfg_syncRule [simp]: "cfg (snd (syncRule E r e)) = cfg e"
  by (cases rule: syncRule_cases [of E r e]) (simp_all add: written_def Let_def)

lemma fetch_secret_cfg: "cfg e = cfg e' \<Longrightarrow> fetch_secret E e r = fetch_secret E e' r"
  by (simp add: fetch_secret_def)

section \<open>The rule fingerprint\<close>

lemma colon_not_digit: "digit c \<Longrightarrow> c \<noteq> CHR '':''"
  by (auto simp: digit_def less_eq_char_def)

lemma lengthed_cancel:
  assumes "lengthed a @ s = lengthed b @ t"
  shows "a = b \<and> s = t"
proof -
  have digits: "takeWhile (\<lambda>c. c \<noteq> CHR '':'') (show_nat n @ CHR '':'' # x) = show_nat n" for n x
  proof -
    have "\<forall>c \<in> set (show_nat n). c \<noteq> CHR '':''"
      using digits_show_nat [of n] colon_not_digit by (auto simp: list_all_iff)
    then show ?thesis by (simp add: takeWhile_append2)
  qed
  have eq: "show_nat (length a) @ CHR '':'' # (a @ s) = show_nat (length b) @ CHR '':'' # (b @ t)"
    using assms by (simp add: lengthed_def)
  then have "show_nat (length a) = show_nat (length b)"
    using digits [of "length a" "a @ s"] digits [of "length b" "b @ t"] by simp
  then have "length a = length b" by (simp add: show_nat_inj)
  then show ?thesis using eq by simp
qed

lemma lengthed_list_inj:
  "length xs = length ys \<Longrightarrow> concat (map lengthed xs) = concat (map lengthed ys) \<Longrightarrow> xs = ys"
  by (induction xs ys rule: list_induct2) (auto dest: lengthed_cancel)

lemma show_bool_inj: "show_bool a = show_bool b \<longleftrightarrow> a = b"
  by (cases a; cases b) (simp_all add: show_bool_def)

text \<open>The fields of a rule its output depends on.\<close>

definition same_render :: "rule \<Rightarrow> rule \<Rightarrow> bool" where
  "same_render r r' \<longleftrightarrow> VaultKey r = VaultKey r' \<and> Path (Target r) = Path (Target r')
     \<and> Format (Target r) = Format (Target r') \<and> Template (Target r) = Template (Target r')
     \<and> MergeOpt (Target r) = MergeOpt (Target r') \<and> DeleteNulls (Target r) = DeleteNulls (Target r')"

lemma rule_text_inj: "rule_text r = rule_text r' \<longleftrightarrow> same_render r r'"
proof
  assume "rule_text r = rule_text r'"
  then have "[VaultKey r, Path (Target r), Format (Target r), Template (Target r), MergeOpt (Target r),
      show_bool (DeleteNulls (Target r))] = [VaultKey r', Path (Target r'), Format (Target r'),
      Template (Target r'), MergeOpt (Target r'), show_bool (DeleteNulls (Target r'))]"
    unfolding rule_text_def by (intro lengthed_list_inj) simp_all
  then show "same_render r r'" by (simp add: same_render_def show_bool_inj)
qed (simp add: same_render_def rule_text_def)

section \<open>Facts about cycles\<close>

lemma run_rules_complete:
  assumes "run_rules E cancelled include rs c e = (c', e')" "\<not> panicked c'"
    and "\<not> is_interrupted (last_error c)" "(last_error c = None) = (done_failed c = 0)"
  shows "done_ok c \<le> done_ok c' \<and> done_failed c \<le> done_failed c'
    \<and> done_ok c' + done_failed c' \<le> done_ok c + done_failed c + length (filter include rs)
    \<and> (done_ok c' + done_failed c' < done_ok c + done_failed c + length (filter include rs) \<longrightarrow>
        cancelled (done_ok c' + done_failed c') \<and> last_error c' \<noteq> None)
    \<and> (done_failed c' > 0 \<or>
        is_interrupted (last_error c') =
          (done_ok c' + done_failed c' < done_ok c + done_failed c + length (filter include rs))
        \<and> (last_error c' \<noteq> None \<longrightarrow> is_interrupted (last_error c')))"
  using assms
proof (induction rs arbitrary: c e)
  case Nil
  then show ?case by (auto simp: is_interrupted_def)
next
  case (Cons r rs)
  let ?n = "done_ok c + done_failed c"
  show ?case
  proof (cases "include r")
    case False
    then show ?thesis using Cons by (simp add: Let_def)
  next
    case inc: True
    show ?thesis
    proof (cases "cancelled ?n")
      case True
      then have "c' = c\<lparr>last_error := (case last_error c of None \<Rightarrow> Some (Interrupted ?n) | Some err \<Rightarrow> Some err)\<rparr>"
        using Cons.prems(1) inc by (simp add: Let_def)
      then show ?thesis using inc True Cons.prems(4)
        by (auto simp: is_interrupted_def split: option.splits)
    next
      case go: False
      obtain res e1 where sr: "syncRule (E ?n) r e = (res, e1)" by force
      show ?thesis
      proof (cases res)
        case SyncPanic
        then show ?thesis using Cons.prems(1,2) inc go sr by (auto simp: Let_def)
      next
        case SyncOK
        then have run: "run_rules E cancelled include rs (c\<lparr>done_ok := Suc (done_ok c)\<rparr>) e1 = (c', e')"
          using Cons.prems(1) inc go sr by (simp add: Let_def)
        show ?thesis using Cons.IH [OF run Cons.prems(2)] Cons.prems(3,4) inc by simp
      next
        case (SyncFailed err)
        then have run: "run_rules E cancelled include rs
            (c\<lparr>done_failed := Suc (done_failed c), last_error := Some (RuleError err)\<rparr>) e1 = (c', e')"
          using Cons.prems(1) inc go sr by (simp add: Let_def)
        show ?thesis using Cons.IH [OF run Cons.prems(2)] inc by (simp add: is_interrupted_def)
      qed
    qed
  qed
qed

text \<open>Without a cancellation or a panic the engine is folded over every included rule.\<close>

lemma run_rules_fold:
  assumes "run_rules (\<lambda>_. E) (\<lambda>_. False) include rs c e = (c', e')" "\<not> panicked c'"
  shows "e' = foldl (\<lambda>e r. snd (syncRule E r e)) e (filter include rs)"
  using assms
  by (induction rs arbitrary: c e) (auto simp: Let_def split: if_splits prod.splits sync_result.splits)

lemma keyless_ignores_vault:
  "Keyless r \<Longrightarrow> syncRule (E\<lparr>ReadKVv2 := v\<rparr>) r e = syncRule E r e"
proof -
  assume k: "Keyless r"
  have inc: "incoming (E\<lparr>ReadKVv2 := v\<rparr>) = incoming E" for v
    by (intro ext) (simp add: incoming_def split: option.split)
  have rd: "read_file (E\<lparr>ReadKVv2 := v\<rparr>) = read_file E" for v
    by (intro ext) (simp add: read_file_def split: option.split)
  then have fc: "FileChecksum (E\<lparr>ReadKVv2 := v\<rparr>) = FileChecksum E" for v
    by (intro ext) (simp add: FileChecksum_def split: read_result.split)
  have mb: "merged_bytes (E\<lparr>ReadKVv2 := v\<rparr>) = merged_bytes E" for v
    by (intro ext) (simp add: merged_bytes_def inc rd cong: sum.case_cong if_cong)
  have gate: "skip_gate (E\<lparr>ReadKVv2 := v\<rparr>) = skip_gate E" for v
    by (intro ext) (simp add: skip_gate_def fc)
  have ep: "enforce_perm (E\<lparr>ReadKVv2 := v\<rparr>) = enforce_perm E" for v
    by (intro ext) (simp add: enforce_perm_def split: option.split)
  have fs: "fetch_secret (E\<lparr>ReadKVv2 := v\<rparr>) e r = Inr (Some (0, []))" "fetch_secret E e r = Inr (Some (0, []))" for v
    using k by (simp_all add: fetch_secret_def)
  have proj: "IOFails (E\<lparr>ReadKVv2 := v\<rparr>) = IOFails E" "Torn (E\<lparr>ReadKVv2 := v\<rparr>) = Torn E"
    "TempName (E\<lparr>ReadKVv2 := v\<rparr>) = TempName E" "Now (E\<lparr>ReadKVv2 := v\<rparr>) = Now E"
    "SHA256 (E\<lparr>ReadKVv2 := v\<rparr>) = SHA256 E" "SaveFails (E\<lparr>ReadKVv2 := v\<rparr>) = SaveFails E"
    "HomeDir (E\<lparr>ReadKVv2 := v\<rparr>) = HomeDir E" for v
    by simp_all
  show ?thesis unfolding syncRule_def fs gate mb fc ep proj by simp
qed

section \<open>Properties\<close>

text \<open>A concrete machine for the witnesses: SHA-256 is the identity, templates render to themselves.\<close>

definition demo_env :: "(nat, unit, unit, unit) env" where
  "demo_env = \<lparr>Libs = demo_codecs, ReadKVv2 = (\<lambda>p. Inr (Some (3, [(''data'', GStr ''x'')]))),
     RenderTmpl = (\<lambda>n t d u. Some t), SHA256 = (\<lambda>s. s), HomeDir = Some ''/h'', Unreadables = {},
     MkdirFails = False, ChmodFails = False, SaveFails = False, IOFails = (\<lambda>s. False), Torn = 0,
     TempName = ''/tmp'', Now = 7\<rparr>"

definition demo_rule :: "string \<Rightarrow> string \<Rightarrow> string \<Rightarrow> rule" where
  "demo_rule key fmt tm =
     \<lparr>Name = ''r'', VaultKey = key,
      Target = \<lparr>Path = ''/t'', Format = fmt, Template = tm, MergeOpt = [], DeleteNulls = False\<rparr>\<rparr>"

definition demo_engine :: "rule list \<Rightarrow> engine" where
  "demo_engine rs =
     \<lparr>cfg = \<lparr>Rules = rs, UserPrefix = ''u/'', Interval = 60, Username = ''me'', DryRun = False\<rparr>,
      files = Map.empty, states = Map.empty, disk_states = Map.empty\<rparr>"

lemmas demo_defs = demo_env_def demo_rule_def demo_engine_def demo_codecs_def

lemma demo_ok: "fst (syncRule demo_env (demo_rule [] ''text'' ''hi'') (demo_engine rs)) = SyncOK"
  by (simp add: demo_defs syncRule_def fetch_secret_def Keyless_def ExpandHome_def has_prefix_def
      skip_gate_def state_Get_def zero_state_def ruleRenderHash_def rule_text_def lengthed_def
      HandlerWithOptions_def SupportsDeleteNulls_def merged_bytes_def incoming_def read_file_def
      handler_defs write_file_def atomicWrite_def Let_def)

text \<open>
  C1. Syncing a rule is idempotent, for every format and whatever the libraries do: when a
  rule's sync has succeeded, running it again in the same environment changes nothing at
  all, neither the file nor the recorded state (rules with a secret that has no version are
  rewritten each time and are excluded).
\<close>
theorem syncRule_idempotent:
  assumes "syncRule E r e = (SyncOK, e')"
    and "\<And>version data. fetch_secret E e r = Inr (Some (version, data)) \<Longrightarrow> Keyless r \<or> version > 0"
  shows "syncRule E r e' = (SyncOK, e')"
proof (cases rule: syncRule_cases [of E r e])
  case (skip version data path)
  let ?f = "enforce_perm E path (files e)"
  show ?thesis
  proof (cases "DryRun (cfg e)")
    case True
    then show ?thesis using skip(4) assms(1) by simp
  next
    case False
    then have e': "e' = e\<lparr>files := ?f\<rparr>" using skip(4) assms(1) by simp
    have "fetch_secret E e' r = Inr (Some (version, data))"
      using skip(1) fetch_secret_cfg [of e' e E r] by (simp add: e')
    moreover have "skip_gate E r version (state_Get (Name r) (states e')) (files e') path"
      using skip(3) by (simp add: e' skip_gate_def)
    ultimately show ?thesis using skip(2) False by (simp add: syncRule_def e' enforce_perm_idem)
  qed
next
  case (wrote version data path bytes)
  let ?f = "(files e)(TempName E := None, path \<mapsto> \<lparr>content = bytes, mode = perm600\<rparr>)"
  have e': "e' = written E r version ?f path e" using wrote(4) assms(1) by simp
  have "cfg e' = cfg e" "files e' = ?f" by (simp_all add: e' written_def Let_def)
  moreover have "fetch_secret E e' r = Inr (Some (version, data))"
    using wrote(1) fetch_secret_cfg [of e' e E r] \<open>cfg e' = cfg e\<close> by simp
  moreover have "skip_gate E r version (state_Get (Name r) (states e')) (files e') path"
    using assms(2) [OF wrote(1)]
    by (auto simp: skip_gate_def version_unchanged_def e' written_def state_Get_def state_Set_def Let_def)
  moreover have "enforce_perm E path ?f = ?f" by (simp add: enforce_perm_def)
  ultimately have "syncRule E r e' = (SyncOK, e'\<lparr>files := files e'\<rparr>)"
    using wrote(2,3) by (simp add: syncRule_def)
  then show ?thesis by simp
qed (use assms in auto)

theorem syncRule_idempotent_witness:
  "\<exists>e'. syncRule demo_env (demo_rule [] ''text'' ''hi'') e' = (SyncOK, e')
     \<and> e' = snd (syncRule demo_env (demo_rule [] ''text'' ''hi'') (demo_engine []))"
proof -
  let ?r = "demo_rule [] ''text'' ''hi''"
  have "syncRule demo_env ?r (demo_engine []) = (SyncOK, snd (syncRule demo_env ?r (demo_engine [])))"
    using demo_ok [of "[]"] by (simp add: prod_eq_iff)
  then have "syncRule demo_env ?r (snd (syncRule demo_env ?r (demo_engine [])))
      = (SyncOK, snd (syncRule demo_env ?r (demo_engine [])))"
    by (rule syncRule_idempotent) (simp add: Keyless_def demo_rule_def)
  then show ?thesis by blast
qed

text \<open>
  A rule's sync touches nothing but its target: every other file (but the temporary one)
  and every other rule's state stay as they are, the configuration stays, a sync that fails
  or panics leaves the target file and all recorded state untouched, and a dry run leaves
  everything untouched.
\<close>
theorem syncRule_frame:
  assumes "syncRule E r e = (res, e')"
  shows "(\<forall>p. p \<noteq> TempName E \<and> target_path E r \<noteq> Some p \<longrightarrow> files e' p = files e p)
    \<and> (\<forall>n. n \<noteq> Name r \<longrightarrow> states e' n = states e n)
    \<and> cfg e' = cfg e
    \<and> (res \<noteq> SyncOK \<longrightarrow> states e' = states e \<and> disk_states e' = disk_states e
        \<and> (\<forall>p. p \<noteq> TempName E \<longrightarrow> files e' p = files e p))
    \<and> (DryRun (cfg e) \<and> res = SyncOK \<longrightarrow> e' = e)"
proof (cases rule: syncRule_cases [of E r e])
  case (torn step path bytes)
  let ?w = "write_file (IOFails E) (Torn E) (TempName E) path bytes perm600 (files e)"
  have "fst ?w \<noteq> None" using torn(2) by (metis fst_conv option.distinct(1))
  then have "\<forall>p. p \<noteq> TempName E \<longrightarrow> snd ?w p = files e p" by (auto intro: write_file_failed)
  then show ?thesis using torn(3) assms by auto
next
  case (wrote version data path bytes)
  then have "e' = written E r version ((files e)(TempName E := None, path \<mapsto> \<lparr>content = bytes, mode = perm600\<rparr>)) path e"
    "res = SyncOK" using assms by simp_all
  then show ?thesis using wrote(2,3) by (auto simp: written_def Let_def state_Set_def)
next
  case (skip version data path)
  then show ?thesis using assms by (auto simp: enforce_perm_other)
qed (use assms in auto)

theorem syncRule_frame_witness:
  "files (snd (syncRule demo_env (demo_rule [] ''text'' ''hi'') (demo_engine []))) ''/other'' = None"
proof -
  let ?r = "demo_rule [] ''text'' ''hi''"
  have "target_path demo_env ?r = Some ''/t''"
    by (simp add: demo_defs ExpandHome_def has_prefix_def)
  then show ?thesis
    using syncRule_frame [of demo_env ?r "demo_engine []" "fst (syncRule demo_env ?r (demo_engine []))"
        "snd (syncRule demo_env ?r (demo_engine []))"]
    by (simp add: demo_env_def demo_engine_def)
qed

text \<open>
  A rule is skipped only when its file is what the last sync of the same definition
  wrote: if the recorded state was left by a sync of \<open>r0\<close> that wrote \<open>c0\<close>, and SHA-256 does
  not collide on the texts involved, then a skipped rule agrees with \<open>r0\<close> in every field
  its output depends on, the secret is the recorded version, and the file still holds \<open>c0\<close>;
  so an edited template, a toggled option, a new secret version and a user's edit each
  cause a new sync.
\<close>
theorem skip_only_when_current:
  assumes "skip_gate E r version st f path"
    and "RuleHash st = ruleRenderHash (SHA256 E) r0"
    and "SHA256 E (rule_text r) = SHA256 E (rule_text r0) \<Longrightarrow> rule_text r = rule_text r0"
    and "FileSum st = ''sha256:'' @ SHA256 E c0"
    and "\<And>c. SHA256 E c = SHA256 E c0 \<Longrightarrow> c = c0"
  shows "same_render r r0 \<and> (Keyless r \<or> version = VaultVersion st) \<and> map_option content (f path) = Some c0"
proof -
  have "rule_text r = rule_text r0" using assms(1-3) by (simp add: skip_gate_def ruleRenderHash_def)
  moreover have "FileChecksum E f path = ''sha256:'' @ SHA256 E c0" using assms(1,4) by (simp add: skip_gate_def)
  then obtain c where "f path = Some c" "SHA256 E (content c) = SHA256 E c0"
    by (auto simp: FileChecksum_def read_file_def split: option.splits if_splits)
  ultimately show ?thesis
    using assms(1,5) by (auto simp: rule_text_inj skip_gate_def version_unchanged_def)
qed

theorem skip_only_when_current_witness:
  "map_option content ((Map.empty(''/t'' \<mapsto> \<lparr>content = ''hi'', mode = perm600\<rparr>)) ''/t'') = Some ''hi''"
proof -
  let ?r = "demo_rule [] ''text'' ''hi''"
  let ?st = "\<lparr>VaultVersion = 0, LastSynced = 7, FileSum = ''sha256:hi'', RuleHash = rule_text ?r\<rparr>"
  let ?f = "Map.empty(''/t'' \<mapsto> \<lparr>content = ''hi'', mode = perm600\<rparr>)"
  have "skip_gate demo_env ?r 0 ?st ?f ''/t''"
    by (simp add: skip_gate_def version_unchanged_def Keyless_def demo_env_def demo_rule_def
        ruleRenderHash_def FileChecksum_def read_file_def)
  from skip_only_when_current [OF this, of ?r "''hi''"] show ?thesis
    by (simp add: demo_env_def ruleRenderHash_def)
qed

text \<open>
  C2. One bad rule never costs the others their sync. In a cycle that is neither cancelled
  nor ended by a panic, the engine ends up as if each rule's sync had been applied in the
  order of the configuration, whatever any of them returned, and the two counts add up to
  the number of rules.
\<close>
theorem cycle_isolation:
  assumes "runRulesLocked (\<lambda>_. E) (\<lambda>_. False) include e = (c, e')" "\<not> panicked c"
  shows "e' = foldl (\<lambda>e r. snd (syncRule E r e)) e (filter include (Rules (cfg e)))
    \<and> done_ok c + done_failed c = length (filter include (Rules (cfg e)))"
proof -
  have run: "run_rules (\<lambda>_. E) (\<lambda>_. False) include (Rules (cfg e)) empty_cycle e = (c, e')"
    using assms(1) by (simp add: runRulesLocked_def)
  have "\<not> is_interrupted (last_error empty_cycle)" "(last_error empty_cycle = None) = (done_failed empty_cycle = 0)"
    by (simp_all add: empty_cycle_def is_interrupted_def)
  from run_rules_complete [OF run assms(2) this] run_rules_fold [OF run assms(2)]
  show ?thesis by (auto simp: empty_cycle_def)
qed

theorem cycle_isolation_witness:
  "done_ok (fst (runRulesLocked (\<lambda>_. demo_env) (\<lambda>_. False) (\<lambda>_. True) (demo_engine [demo_rule [] ''text'' ''hi''])))
   + done_failed (fst (runRulesLocked (\<lambda>_. demo_env) (\<lambda>_. False) (\<lambda>_. True) (demo_engine [demo_rule [] ''text'' ''hi'']))) = 1"
proof -
  let ?e = "demo_engine [demo_rule [] ''text'' ''hi'']"
  let ?run = "runRulesLocked (\<lambda>_. demo_env) (\<lambda>_. False) (\<lambda>_. True) ?e"
  have "\<not> panicked (fst ?run)"
    using demo_ok [of "[demo_rule [] ''text'' ''hi'']"]
    by (cases "syncRule demo_env (demo_rule [] ''text'' ''hi'') ?e")
       (simp add: runRulesLocked_def demo_engine_def empty_cycle_def)
  from cycle_isolation [of demo_env "\<lambda>_. True" ?e "fst ?run" "snd ?run", OF _ this] show ?thesis
    by (simp add: demo_engine_def)
qed

text \<open>
  The label of a cycle tells the truth: it is \<open>ok\<close> exactly when every rule was synced,
  \<open>error\<close> exactly when some rule failed, and \<open>cancelled\<close> exactly when none failed but the
  cycle stopped before its last rule.
\<close>
theorem cycle_outcome_exact:
  assumes "runRulesLocked E cancelled include e = (c, e')" "\<not> panicked c"
  defines "n \<equiv> length (filter include (Rules (cfg e)))"
  shows "(syncOutcome (last_error c) (done_failed c) = ''ok'' \<longleftrightarrow> done_ok c = n)
    \<and> (syncOutcome (last_error c) (done_failed c) = ''error'' \<longleftrightarrow> done_failed c > 0)
    \<and> (syncOutcome (last_error c) (done_failed c) = ''cancelled'' \<longleftrightarrow> done_failed c = 0 \<and> done_ok c < n)"
proof -
  have run: "run_rules E cancelled include (Rules (cfg e)) empty_cycle e = (c, e')"
    using assms(1) by (simp add: runRulesLocked_def)
  have "\<not> is_interrupted (last_error empty_cycle)" "(last_error empty_cycle = None) = (done_failed empty_cycle = 0)"
    by (simp_all add: empty_cycle_def is_interrupted_def)
  from run_rules_complete [OF run assms(2) this]
  have "done_ok c + done_failed c \<le> n"
    and "done_failed c > 0 \<or> is_interrupted (last_error c) = (done_ok c + done_failed c < n)
        \<and> (last_error c \<noteq> None \<longrightarrow> is_interrupted (last_error c))"
    by (simp_all add: empty_cycle_def n_def)
  then show ?thesis by (auto simp: syncOutcome_def)
qed

theorem cycle_outcome_exact_witness:
  "let c = fst (runRulesLocked (\<lambda>_. demo_env) (\<lambda>_. True) (\<lambda>_. True) (demo_engine [demo_rule [] ''text'' ''hi'']))
   in syncOutcome (last_error c) (done_failed c) = ''cancelled''"
proof -
  let ?e = "demo_engine [demo_rule [] ''text'' ''hi'']"
  let ?run = "runRulesLocked (\<lambda>_. demo_env) (\<lambda>_. True) (\<lambda>_. True) ?e"
  have c: "fst ?run = empty_cycle\<lparr>last_error := Some (Interrupted 0)\<rparr>"
    by (simp add: runRulesLocked_def demo_engine_def empty_cycle_def)
  have l: "length (filter (\<lambda>r. True) (Rules (cfg ?e))) = 1" by (simp add: demo_engine_def)
  have "\<not> panicked (fst ?run)" unfolding c by (simp add: empty_cycle_def)
  from cycle_outcome_exact [OF surjective_pairing this]
  show ?thesis unfolding c l by (simp add: empty_cycle_def)
qed

text \<open>
  The keyless pass needs no Vault: its effect and its counts do not depend on what Vault
  would answer, so it may run before there is a token.
\<close>
theorem RunKeyless_needs_no_vault:
  "RunKeyless (\<lambda>n. (E n)\<lparr>ReadKVv2 := v n\<rparr>) cancelled e = RunKeyless E cancelled e"
proof -
  have "run_rules (\<lambda>n. (E n)\<lparr>ReadKVv2 := v n\<rparr>) cancelled Keyless rs c e = run_rules E cancelled Keyless rs c e" for rs c e
    by (induction rs arbitrary: c e) (simp_all add: Let_def keyless_ignores_vault split: prod.splits sync_result.splits)
  then show ?thesis by (simp add: RunKeyless_def runRulesLocked_def)
qed

text \<open>
  A rule that validation accepts can be one that no sync can apply. A rule without a
  template in the format yaml, ini or ssh_config hands the secret's map to a handler that
  expects its own document type: unless it is skipped, its sync fails and writes nothing.
\<close>
theorem templateless_rule_always_fails:
  assumes "validateRule i r seen = Inr seen'" "Format (Target r) \<in> {''yaml'', ''ini'', ''ssh_config''}"
    and "Template (Target r) = []" "fetch_secret E e r = Inr (Some (version, data))"
    and "target_path E r = Some path"
    and "\<not> skip_gate E r version (state_Get (Name r) (states e)) (files e) path"
  shows "\<exists>err. syncRule E r e = (SyncFailed err, e)"
proof -
  have "\<not> DeleteNulls (Target r) \<or> SupportsDeleteNulls (Format (Target r))"
    using assms(1) by (auto simp: validateRule_def split: if_splits)
  then obtain h where h: "HandlerWithOptions (Format (Target r)) (DeleteNulls (Target r)) = Inr h"
      "h \<in> {YAMLHandler (DeleteNulls (Target r)), INIHandler, SSHConfigHandler}"
    using assms(2) by (auto simp: HandlerWithOptions_def)
  have inc: "incoming E e r h data = Inr (AMap (Some data))"
    using assms(2,3) by (auto simp: incoming_def)
  have bad: "\<exists>err. handler_Merge (Libs E) h ex (AMap (Some data)) = Inl err \<and> err \<noteq> NilMapPanic" for ex
    using h(2) by (auto simp: handler_defs split: anyval.splits)
  have "\<exists>err. merged_bytes E e r h data path = Inl err \<and> err \<noteq> MergeData NilMapPanic"
  proof (cases "handler_Read (Libs E) h (read_file E (files e) path)")
    case (Inl err)
    then show ?thesis by (simp add: merged_bytes_def inc)
  next
    case (Inr ex)
    then show ?thesis using bad [of ex] by (auto simp: merged_bytes_def inc)
  qed
  then show ?thesis using assms(4-6) h(1) by (auto simp: syncRule_def)
qed

theorem templateless_rule_always_fails_witness:
  "\<exists>err. syncRule demo_env (demo_rule ''k'' ''ssh_config'' []) (demo_engine []) = (SyncFailed err, demo_engine [])"
proof (rule templateless_rule_always_fails)
  let ?r = "demo_rule ''k'' ''ssh_config'' []"
  show "validateRule 0 ?r {} = Inr {''r''}"
    by (simp add: validateRule_def demo_rule_def Keyless_def validFormats_def)
  show "fetch_secret demo_env (demo_engine []) ?r = Inr (Some (3, [(''data'', GStr ''x'')]))"
    by (simp add: fetch_secret_def demo_env_def demo_rule_def Keyless_def)
  show "target_path demo_env ?r = Some ''/t''"
    by (simp add: demo_env_def demo_rule_def ExpandHome_def has_prefix_def)
qed (simp_all add: demo_rule_def demo_engine_def skip_gate_def version_unchanged_def Keyless_def
    state_Get_def zero_state_def)

text \<open>
  After a configuration change the recorded state is exactly that of the rules that
  remain: entries of removed rules are gone, those of kept rules are untouched, and a call
  that changes nothing leaves the engine as it is and nudges nobody.
\<close>
theorem UpdateConfig_state:
  assumes "UpdateConfig saveFails rules interval e = (e', trigger, reset)"
  shows "Rules (cfg e') = rules
     \<and> (trigger \<longleftrightarrow> Rules (cfg e) \<noteq> rules)
     \<and> (trigger \<longrightarrow> (\<forall>n. states e' n = (if n \<in> Name ` set rules then states e n else None)))
     \<and> (reset \<longleftrightarrow> Interval (cfg e') \<noteq> Interval (cfg e))
     \<and> (\<not> trigger \<and> \<not> reset \<longrightarrow> e' = e)
     \<and> files e' = files e"
  using assms
  by (cases "Rules (cfg e) = rules"; cases "interval > 0 \<and> interval \<noteq> Interval (cfg e)")
     (auto simp: UpdateConfig_def Let_def state_Prune_def restrict_map_def)

theorem UpdateConfig_state_witness:
  "states (fst (UpdateConfig False [] 60 ((demo_engine [demo_rule [] ''text'' ''hi''])\<lparr>states := [''r'' \<mapsto> zero_state]\<rparr>))) ''r'' = None"
proof -
  let ?e = "(demo_engine [demo_rule [] ''text'' ''hi''])\<lparr>states := [''r'' \<mapsto> zero_state]\<rparr>"
  show ?thesis
    using UpdateConfig_state [of False "[]" 60 ?e "fst (UpdateConfig False [] 60 ?e)"
        "fst (snd (UpdateConfig False [] 60 ?e))" "snd (snd (UpdateConfig False [] 60 ?e))"]
    by (simp add: demo_engine_def)
qed

text \<open>
  C3. Reconnection is bounded and single: in every reachable state of the loop the next delay
  and every running timer are between one second and five minutes, at most one attempt is
  under way (running, signalled or live), and events are only received while the stream's
  error channel is watched.
\<close>
theorem reconnect_bounded_and_single:
  assumes "loop_reach b s"
  shows "1 \<le> reconnectDelay s \<and> reconnectDelay s \<le> 300
    \<and> (\<forall>t \<in> set (timers s). 1 \<le> t \<and> t \<le> 300)
    \<and> length (timers s) + (if reconnect_ch s then 1 else 0) + (if err_ch s then 1 else 0) \<le> 1
    \<and> (event_ch s \<longrightarrow> err_ch s)"
  using loop_reach_inv [OF assms] by (simp add: loop_inv_def maxReconnectDelay_def)

theorem reconnect_bounded_and_single_witness:
  "length (timers (schedule ((loop_start True)\<lparr>event_ch := False, err_ch := False\<rparr>))) \<le> 1"
proof -
  have "loop_step (loop_start True) (schedule ((loop_start True)\<lparr>event_ch := False, err_ch := False\<rparr>))"
    by (rule loop_step.stream_error) (simp add: loop_start_def)
  then have "loop_reach True (schedule ((loop_start True)\<lparr>event_ch := False, err_ch := False\<rparr>))"
    by (rule loop_reach.step [OF loop_reach.start])
  from reconnect_bounded_and_single [OF this] show ?thesis by simp
qed

text \<open>
  A daemon whose first subscription fails never subscribes again: no step of the loop
  schedules an attempt unless a live stream has failed before, so it polls for ever, while
  the same failure after one success is retried.
\<close>
theorem unsubscribed_start_polls_forever:
  "loop_reach False s \<longleftrightarrow> s = loop_start False"
proof
  show "loop_reach False s \<Longrightarrow> s = loop_start False"
  proof (induction rule: loop_reach.induct)
    case (step s s')
    then show ?case by (auto elim!: loop_stepE simp: loop_start_def)
  qed simp
qed (simp add: loop_reach.start)

end
