(* ===== verification/SSHRemotes.thy ===== *)
theory SSHRemotes
  imports GoStrings
begin

text \<open>
  \<open>internal/sshfwd/config.go\<close> and \<open>home.go\<close>: the entries of \<open>ssh.yaml\<close>, their
  validation, the document with the sections an older build does not know, the hostname
  label and the expansion of a remote socket path. The YAML codec is a parameter of
  \<open>Load\<close> and \<open>Save\<close>; the home directory the remote reports is an argument of
  \<open>ExpandRemotePath\<close>. Host names are ASCII.
\<close>

section \<open>Entries\<close>

record remote =
  Host :: string
  Port :: int
  RemoteSocket :: string
  HostKey :: string
  Enabled :: "bool option"

definition HostnameToken :: string where
  "HostnameToken = ''{{HOSTNAME}}''"

definition DefaultRemoteSocket :: string where
  "DefaultRemoteSocket = ''~/.ssh/dotvault.'' @ HostnameToken @ ''.sock''"

definition EnabledOrDefault :: "remote \<Rightarrow> bool" where
  "EnabledOrDefault r \<longleftrightarrow> Enabled r = None \<or> Enabled r = Some True"

definition PortOrDefault :: "remote \<Rightarrow> int" where
  "PortOrDefault r = (if Port r = 0 then 22 else Port r)"

definition sameAs :: "remote \<Rightarrow> remote \<Rightarrow> bool" where
  "sameAs r q \<longleftrightarrow> equal_fold (Host r) (Host q) \<and> PortOrDefault r = PortOrDefault q
     \<and> RemoteSocket r = RemoteSocket q \<and> HostKey r = HostKey q
     \<and> EnabledOrDefault r = EnabledOrDefault q"

definition Find :: "string \<Rightarrow> remote list \<Rightarrow> nat option" where
  "Find host rs = find_idx (\<lambda>r. equal_fold (Host r) host) rs"

definition Upsert :: "remote \<Rightarrow> remote list \<Rightarrow> remote list" where
  "Upsert r rs = (case Find (Host r) rs of Some i \<Rightarrow> rs[i := r] | None \<Rightarrow> rs @ [r])"

definition Remove :: "string \<Rightarrow> remote list \<Rightarrow> bool \<times> remote list" where
  "Remove host rs = (case Find host rs of None \<Rightarrow> (False, rs) | Some i \<Rightarrow> (True, take i rs @ drop (Suc i) rs))"

section \<open>Validation\<close>

datatype remote_error =
    SocketToken | SocketEmpty | SocketNUL | SocketDotDot | SocketUser | SocketRelative
  | HostRequired | HostDash | HostAt | HostControl | HostBad
  | PortRange int

definition has_dotdot :: "string \<Rightarrow> bool" where
  "has_dotdot p \<longleftrightarrow> list_ex (\<lambda>s. s = ''..'') (split_ch (CHR ''/'') p)"

definition ValidateRemoteSocket :: "string \<Rightarrow> remote_error option" where
  "ValidateRemoteSocket p =
     (let stripped = replace_all HostnameToken ''x'' p in
      if list_ex (\<lambda>c. c \<in> set ''{}'') stripped then Some SocketToken
      else if p = [] then Some SocketEmpty
      else if CHR 0x00 \<in> set p then Some SocketNUL
      else if has_prefix ''~/'' p then
        (if has_dotdot (trim_prefix ''~/'' p) then Some SocketDotDot else None)
      else if has_prefix ''~'' p then Some SocketUser
      else if has_prefix ''/'' p then (if has_dotdot p then Some SocketDotDot else None)
      else Some SocketRelative)"

definition control_char :: "char \<Rightarrow> bool" where
  "control_char c \<longleftrightarrow> (of_char c :: nat) < 32 \<or> (of_char c :: nat) = 127"

definition ValidateHost :: "string \<Rightarrow> remote_error option" where
  "ValidateHost host =
     (if host = [] then Some HostRequired
      else if has_prefix ''-'' host then Some HostDash
      else if CHR ''@'' \<in> set host then Some HostAt
      else if list_ex control_char host then Some HostControl
      else if list_ex (\<lambda>c. c \<in> {CHR '' '', CHR 0x09, CHR 0x0D, CHR 0x0A, CHR ''/'', CHR 0x5C}) host then Some HostBad
      else None)"

definition ValidateRemote :: "remote \<Rightarrow> remote_error option" where
  "ValidateRemote r =
     (case ValidateHost (Host r) of
        Some e \<Rightarrow> Some e
      | None \<Rightarrow> if Port r < 0 \<or> 65535 < Port r then Some (PortRange (Port r))
                else ValidateRemoteSocket (RemoteSocket r))"

section \<open>The document\<close>

text \<open>
  \<open>unknown\<close> keeps the top-level sections other than \<open>remotes\<close>. A document on disk is a
  mapping from keys to YAML nodes; \<open>dec\<close> and \<open>enc\<close> are the node codec of the entries
  (\<open>Node.Decode\<close> and the marshalling of the slice).
\<close>

record 'n ssh_file =
  Remotes :: "remote list"
  unknown :: "'n gomap"

definition Load :: "('n \<Rightarrow> remote list option) \<Rightarrow> 'n gomap option \<Rightarrow> 'n ssh_file option" where
  "Load dec doc =
     (case doc of
        None \<Rightarrow> Some \<lparr>Remotes = [], unknown = []\<rparr>
      | Some m \<Rightarrow>
          (case map_of m ''remotes'' of
             None \<Rightarrow> Some \<lparr>Remotes = [], unknown = m\<rparr>
           | Some n \<Rightarrow> map_option (\<lambda>rs. \<lparr>Remotes = rs, unknown = mdel ''remotes'' m\<rparr>) (dec n)))"

definition Save :: "(remote list \<Rightarrow> 'n) \<Rightarrow> 'n ssh_file \<Rightarrow> 'n gomap" where
  "Save enc f = fold (\<lambda>(k, v). mput k v) (unknown f) (mput ''remotes'' (enc (Remotes f)) [])"

section \<open>Host name labels and expansion\<close>

definition label_char :: "char \<Rightarrow> bool" where
  "label_char c \<longleftrightarrow> c \<in> set ''abcdefghijklmnopqrstuvwxyz0123456789-''"

text \<open>\<open>None\<close> when \<open>os.Hostname\<close> fails or no usable label is left.\<close>

definition LocalHostnameLabel :: "string option \<Rightarrow> string option" where
  "LocalHostnameLabel name =
     (case name of
        None \<Rightarrow> None
      | Some h \<Rightarrow>
          (let first = takeWhile (\<lambda>c. c \<noteq> CHR ''.'') h;
               b = map (\<lambda>c. if label_char c then c else CHR ''-'') (to_lower first);
               out = trim_ch (CHR ''-'') b
           in if out = [] then None else Some out))"

datatype label_error = LabelEmpty | LabelLong nat | LabelDash | LabelChar nat

definition ValidateHostnameLabel :: "string \<Rightarrow> label_error option" where
  "ValidateHostnameLabel s =
     (if s = [] then Some LabelEmpty
      else if length s > 63 then Some (LabelLong (length s))
      else if hd s = CHR ''-'' \<or> last s = CHR ''-'' then Some LabelDash
      else map_option LabelChar (find_idx (\<lambda>c. \<not> label_char c) s))"

datatype expand_error =
    ExpandInvalid remote_error | NoLabel | ProbeFailed | HomeEmpty | HomeRelative string
  | HomeControl string | ExpandedInvalid string

text \<open>
  \<open>probe\<close> is what running \<open>echo $HOME\<close> on the remote prints, \<open>None\<close> when the command
  fails. \<open>strings.Contains\<close> is \<open>sublist\<close>.
\<close>

definition expand_home :: "string option \<Rightarrow> string \<Rightarrow> expand_error + string" where
  "expand_home probe p =
     (if \<not> has_prefix ''~/'' p then Inr p
      else (case probe of
              None \<Rightarrow> Inl ProbeFailed
            | Some out \<Rightarrow>
                (let home = trim_space out in
                 if home = [] then Inl HomeEmpty
                 else if \<not> has_prefix ''/'' home then Inl (HomeRelative home)
                 else if list_ex control_char home then Inl (HomeControl home)
                 else (let expanded = path_join home (trim_prefix ''~/'' p)
                       in if \<not> has_prefix ''/'' expanded \<or> list_ex control_char expanded
                          then Inl (ExpandedInvalid expanded) else Inr expanded))))"

definition ExpandRemotePath :: "string option \<Rightarrow> string option \<Rightarrow> string \<Rightarrow> expand_error + string" where
  "ExpandRemotePath name probe p =
     (case ValidateRemoteSocket p of
        Some e \<Rightarrow> Inl (ExpandInvalid e)
      | None \<Rightarrow>
          if sublist HostnameToken p
          then (case LocalHostnameLabel name of
                  None \<Rightarrow> Inl NoLabel
                | Some l \<Rightarrow> expand_home probe (replace_all HostnameToken l p))
          else expand_home probe p)"

section \<open>Paths without dot-dot\<close>

lemma clean_parts_append:
  "clean_parts rooted out (ps @ qs) = clean_parts rooted (rev (clean_parts rooted out ps)) qs"
  by (induction rooted out ps rule: clean_parts.induct) (auto split: list.splits)

lemma clean_parts_plain:
  "''..'' \<notin> set ps \<Longrightarrow> clean_parts rooted out ps = rev out @ filter (\<lambda>s. s \<noteq> [] \<and> s \<noteq> ''.'') ps"
  by (induction rooted out ps rule: clean_parts.induct) auto

lemma clean_parts_from:
  "''..'' \<notin> set out \<Longrightarrow> s \<in> set (clean_parts True out ps) \<Longrightarrow>
   s \<in> set out \<or> s \<in> set ps \<and> s \<noteq> [] \<and> s \<noteq> ''.'' \<and> s \<noteq> ''..''"
proof (induction ps arbitrary: out)
  case (Cons p ps)
  consider (skip) "p = [] \<or> p = ''.''" | (up) "p = ''..''" | (down) "p \<noteq> [] \<and> p \<noteq> ''.'' \<and> p \<noteq> ''..''"
    by blast
  then show ?case
  proof cases
    case skip
    then have "s \<in> set (clean_parts True out ps)" using Cons.prems by auto
    then show ?thesis using Cons.IH Cons.prems(1) by auto
  next
    case up
    then have "s \<in> set (clean_parts True (tl out) ps)" using Cons.prems by (cases out) auto
    moreover have "''..'' \<notin> set (tl out)" using Cons.prems(1) by (cases out) auto
    moreover have "set (tl out) \<subseteq> set out" by (cases out) auto
    ultimately show ?thesis using Cons.IH [of "tl out"] by auto
  next
    case down
    then have "s \<in> set (clean_parts True (p # out) ps)" using Cons.prems by simp
    moreover have "''..'' \<notin> set (p # out)" using Cons.prems(1) down by (metis set_ConsD)
    ultimately show ?thesis using Cons.IH [of "p # out"] down by auto
  qed
qed simp

lemma has_dotdot_iff: "has_dotdot p \<longleftrightarrow> ''..'' \<in> set (split_ch (CHR ''/'') p)"
  by (auto simp: has_dotdot_def list_ex_iff)

text \<open>The segments of a cleaned absolute path.\<close>

definition segs :: "string \<Rightarrow> string list" where
  "segs p = clean_parts True [] (split_ch (CHR ''/'') p)"

lemma segs_ok: "s \<in> set (segs p) \<Longrightarrow> s \<noteq> [] \<and> s \<noteq> ''.'' \<and> s \<noteq> ''..'' \<and> CHR ''/'' \<notin> set s"
  using clean_parts_from [of "[]" s "split_ch (CHR ''/'') p"] set_split_ch [of s "CHR ''/''" p]
  by (simp add: segs_def)

lemma path_clean_rooted: "path_clean (CHR ''/'' # p) = CHR ''/'' # join_str ''/'' (segs (CHR ''/'' # p))"
  by (simp add: path_clean_def segs_def)

lemma split_path_clean:
  "split_ch (CHR ''/'') (path_clean (CHR ''/'' # p))
   = [] # (if segs (CHR ''/'' # p) = [] then [[]] else segs (CHR ''/'' # p))"
proof -
  have "\<forall>s \<in> set (segs (CHR ''/'' # p)). CHR ''/'' \<notin> set s" using segs_ok by blast
  then show ?thesis by (simp add: path_clean_rooted split_join)
qed

lemma path_clean_no_dotdot: "\<not> has_dotdot (path_clean (CHR ''/'' # p))"
  using segs_ok [of "''..''" "CHR ''/'' # p"] by (auto simp: has_dotdot_iff split_path_clean)

lemma segs_idem: "segs (path_clean (CHR ''/'' # p)) = segs (CHR ''/'' # p)"
proof -
  let ?g = "segs (CHR ''/'' # p)"
  have "''..'' \<notin> set ?g" using segs_ok by blast
  moreover have "filter (\<lambda>s. s \<noteq> [] \<and> s \<noteq> ''.'') ?g = ?g"
    using segs_ok by (simp add: filter_id_conv)
  ultimately show ?thesis
    by (simp add: segs_def [of "path_clean _"] split_path_clean clean_parts_plain)
qed

lemma path_join_segs:
  assumes "\<not> has_dotdot q" "home = CHR ''/'' # h"
  shows "segs (path_join home q) = segs home @ filter (\<lambda>s. s \<noteq> [] \<and> s \<noteq> ''.'') (split_ch (CHR ''/'') q)"
    and "\<not> has_dotdot (path_join home q)" and "has_prefix ''/'' (path_join home q)"
proof -
  obtain t where join: "path_join home q = path_clean (CHR ''/'' # t)"
    and t: "CHR ''/'' # t = (if q = [] then home else home @ CHR ''/'' # q)"
    using that [of "if q = [] then h else h @ CHR ''/'' # q"] assms(2) by (simp add: path_join_def)
  show "\<not> has_dotdot (path_join home q)" by (simp add: join path_clean_no_dotdot)
  show "has_prefix ''/'' (path_join home q)" by (simp add: join path_clean_rooted has_prefix_iff)
  have "segs (path_join home q) = segs (CHR ''/'' # t)" by (simp only: join segs_idem)
  also have "\<dots> = segs home @ filter (\<lambda>s. s \<noteq> [] \<and> s \<noteq> ''.'') (split_ch (CHR ''/'') q)"
  proof (cases "q = []")
    case False
    then show ?thesis
      using assms(1) t
      by (simp add: segs_def split_ch_append_sep clean_parts_append has_dotdot_iff clean_parts_plain del: split_ch.simps)
  qed (use t in \<open>simp\<close>)
  finally show "segs (path_join home q)
      = segs home @ filter (\<lambda>s. s \<noteq> [] \<and> s \<noteq> ''.'') (split_ch (CHR ''/'') q)" .
qed

section \<open>Labels\<close>

lemma set_trim_ch: "set (trim_ch c s) \<subseteq> set s"
  unfolding trim_ch_def by (metis set_dropWhileD set_rev subset_iff)

lemma label_table:
  "list_all (\<lambda>c. ascii_lower c = c \<and> c \<noteq> CHR ''.'' \<and> c \<noteq> CHR ''/'' \<and> \<not> control_char c) ''abcdefghijklmnopqrstuvwxyz0123456789-''"
  by code_simp

lemma label_char_lower: "label_char c \<Longrightarrow> ascii_lower c = c"
  and label_char_not_sep: "label_char c \<Longrightarrow> c \<noteq> CHR ''.'' \<and> c \<noteq> CHR ''/'' \<and> \<not> control_char c"
  using label_table unfolding label_char_def list_all_iff by blast+

lemma label_char_dash [simp]: "label_char (CHR ''-'')"
  by (simp add: label_char_def)

lemma LocalHostnameLabel_label:
  assumes "LocalHostnameLabel name = Some l"
  shows "l \<noteq> [] \<and> hd l \<noteq> CHR ''-'' \<and> last l \<noteq> CHR ''-'' \<and> list_all label_char l"
proof -
  obtain b where "list_all label_char b" and l: "l = trim_ch (CHR ''-'') b" and ne: "l \<noteq> []"
    using assms
    by (force simp: LocalHostnameLabel_def Let_def list_all_iff split: option.splits if_splits)
  then have "list_all label_char l" using set_trim_ch [of "CHR ''-''" b] by (auto simp: list_all_iff)
  then show ?thesis using ne l trim_ch_hd [of "CHR ''-''" b] trim_ch_last [of "CHR ''-''" b] by simp
qed

lemma LocalHostnameLabel_id:
  assumes "l \<noteq> []" "hd l \<noteq> CHR ''-''" "last l \<noteq> CHR ''-''" "list_all label_char l"
  shows "LocalHostnameLabel (Some l) = Some l"
proof -
  have "takeWhile (\<lambda>c. c \<noteq> CHR ''.'') l = l" using assms(4) label_char_not_sep by (auto simp: list_all_iff)
  moreover have "to_lower l = l" using assms(4) label_char_lower by (simp add: to_lower_def list_all_iff map_idI)
  moreover have "map (\<lambda>c. if label_char c then c else CHR ''-'') l = l"
    using assms(4) by (simp add: list_all_iff map_idI)
  moreover have "takeWhile (\<lambda>c. c \<noteq> CHR ''.'') l = l" using calculation(1) .
  ultimately show ?thesis using assms by (simp add: LocalHostnameLabel_def Let_def trim_ch_id cong: if_cong del: takeWhile_eq_all_conv)
qed

section \<open>Entries by host\<close>

text \<open>Host names identify entries up to case; \<open>by_host\<close> is the document as a map.\<close>

definition host_key :: "remote \<Rightarrow> string" where
  "host_key r = to_lower (Host r)"

definition hosts_unique :: "remote list \<Rightarrow> bool" where
  "hosts_unique rs \<longleftrightarrow> distinct (map host_key rs)"

definition by_host :: "remote list \<Rightarrow> string \<Rightarrow> remote option" where
  "by_host rs = map_of (map (\<lambda>r. (host_key r, r)) rs)"

lemma Find_None: "Find h rs = None \<longleftrightarrow> to_lower h \<notin> host_key ` set rs"
  by (auto simp: Find_def find_idx_None equal_fold_def host_key_def image_iff)

lemma by_host_Nil [simp]: "by_host [] k = None"
  by (simp add: by_host_def)

lemma by_host_Cons: "by_host (r # rs) k = (if host_key r = k then Some r else by_host rs k)"
  by (simp add: by_host_def)

lemma by_host_append:
  "by_host (rs @ qs) k = (case by_host rs k of Some r \<Rightarrow> Some r | None \<Rightarrow> by_host qs k)"
  by (induction rs) (auto simp: by_host_Cons)

lemma Find_by_host:
  "Find h rs = Some i \<Longrightarrow> i < length rs \<and> by_host rs (to_lower h) = Some (rs ! i) \<and> host_key (rs ! i) = to_lower h"
  by (induction rs arbitrary: i)
    (auto simp: Find_def by_host_Cons equal_fold_def host_key_def split: if_splits)

lemma by_host_None: "by_host rs k = None \<longleftrightarrow> k \<notin> host_key ` set rs"
  by (auto simp: by_host_def map_of_eq_None_iff image_iff)

lemma by_host_set: "hosts_unique rs \<Longrightarrow> by_host rs k = Some r \<longleftrightarrow> r \<in> set rs \<and> host_key r = k"
  by (induction rs) (auto simp: by_host_Cons hosts_unique_def image_iff)

lemma by_host_update:
  "Find h rs = Some i \<Longrightarrow> host_key r = to_lower h \<Longrightarrow> by_host (rs[i := r]) = (by_host rs)(host_key r \<mapsto> r)"
proof (induction rs arbitrary: i)
  case (Cons a rs)
  show ?case
  proof (cases "equal_fold (Host a) h")
    case True
    with Cons.prems show ?thesis
      by (auto simp: Find_def equal_fold_def host_key_def by_host_Cons fun_eq_iff)
  next
    case False
    then obtain j where "i = Suc j" "Find h rs = Some j" using Cons.prems by (auto simp: Find_def)
    with Cons.IH [of j] Cons.prems(2) False show ?thesis
      by (auto simp: by_host_Cons fun_eq_iff host_key_def equal_fold_def)
  qed
qed (simp add: Find_def)

lemma host_keys_update:
  "Find h rs = Some i \<Longrightarrow> host_key r = to_lower h \<Longrightarrow> map host_key (rs[i := r]) = map host_key rs"
  by (metis Find_by_host list_update_id map_update)

lemma by_host_Upsert: "by_host (Upsert r rs) = (by_host rs)(host_key r \<mapsto> r)"
proof (cases "Find (Host r) rs")
  case None
  then have "by_host rs (host_key r) = None" by (simp add: by_host_None Find_None host_key_def)
  with None show ?thesis
    by (auto simp: Upsert_def by_host_append by_host_Cons fun_eq_iff split: option.splits)
qed (simp add: Upsert_def by_host_update host_key_def)

lemma hosts_unique_Upsert: "hosts_unique rs \<Longrightarrow> hosts_unique (Upsert r rs)"
  by (auto simp: Upsert_def hosts_unique_def host_keys_update host_key_def Find_None split: option.splits)

lemma by_host_Remove:
  "hosts_unique rs \<Longrightarrow> by_host (snd (Remove h rs)) = (by_host rs)(to_lower h := None)
     \<and> (fst (Remove h rs) \<longleftrightarrow> by_host rs (to_lower h) \<noteq> None) \<and> hosts_unique (snd (Remove h rs))"
proof (cases "Find h rs")
  case None
  then have "by_host rs (to_lower h) = None" by (simp add: by_host_None Find_None)
  moreover assume "hosts_unique rs"
  ultimately show ?thesis using None by (auto simp: Remove_def fun_eq_iff)
next
  case (Some i)
  assume u: "hosts_unique rs"
  let ?r = "take i rs @ drop (Suc i) rs"
  have i: "i < length rs" "host_key (rs ! i) = to_lower h" "by_host rs (to_lower h) = Some (rs ! i)"
    using Find_by_host [OF Some] by auto
  have rs: "rs = take i rs @ rs ! i # drop (Suc i) rs" using i(1) by (rule id_take_nth_drop)
  have d: "distinct (map host_key (take i rs @ rs ! i # drop (Suc i) rs))"
    using u rs by (simp add: hosts_unique_def)
  have none: "by_host (take i rs) (to_lower h) = None" "by_host (drop (Suc i) rs) (to_lower h) = None"
    using d i(2) by (auto simp: by_host_None)
  have u': "hosts_unique ?r" using d by (auto simp: hosts_unique_def)
  have "by_host rs = by_host (take i rs @ rs ! i # drop (Suc i) rs)" using rs by simp
  then have "by_host ?r = (by_host rs)(to_lower h := None)"
    using none i(2) by (auto simp: by_host_append by_host_Cons fun_eq_iff split: option.splits)
  then show ?thesis using Some u' i(3) by (auto simp: Remove_def)
qed

section \<open>Replacing the token\<close>

lemma split_ch_append_prefix:
  "c \<notin> set a \<Longrightarrow> split_ch c (a @ s) = (a @ hd (split_ch c s)) # tl (split_ch c s)"
proof (induction a)
  case (Cons x a)
  then have "x \<noteq> c" "split_ch c (a @ s) = (a @ hd (split_ch c s)) # tl (split_ch c s)" by auto
  then show ?case by simp
qed simp

lemma split_ch_hd_prefix: "\<exists>w. s = hd (split_ch c s) @ w"
proof (induction s)
  case (Cons x s)
  then show ?case by (cases "split_ch c s") auto
qed simp

lemma cut_prefix_longer: "cut_prefix old s = Some r \<Longrightarrow> cut_prefix old (s @ t) = Some (r @ t)"
  by (simp add: cut_prefix_Some_iff)

lemma replace_all_split:
  assumes "old \<noteq> []" "c \<notin> set old" "c \<notin> set new"
  shows "split_ch c (replace_all old new s) = map (replace_all old new) (split_ch c s)"
  using assms
proof (induction old new s rule: replace_all.induct)
  case (2 old new x xs)
  show ?case
  proof (cases "cut_prefix old (x # xs)")
    case None
    obtain q qs where q: "split_ch c xs = q # qs" by (metis split_ch_not_Nil neq_Nil_conv)
    obtain w where "xs = q @ w" using split_ch_hd_prefix [of xs c] q by auto
    then have "cut_prefix old (x # q) = None"
      using None cut_prefix_longer [of old "x # q" _ w] by (cases "cut_prefix old (x # q)") auto
    then show ?thesis using 2 None q by simp
  next
    case (Some r)
    then have xs: "x # xs = old @ r" by (simp add: cut_prefix_Some_iff)
    obtain q qs where q: "split_ch c r = q # qs" by (metis split_ch_not_Nil neq_Nil_conv)
    obtain y ys where old: "old = y # ys" using 2(3) by (cases old) auto
    have rep: "replace_all old new (old @ w) = new @ replace_all old new w" for w
      using cut_prefix_append [of old w] by (simp add: old del: cut_prefix_append)
    then show ?thesis
      using 2 Some q xs by (simp add: split_ch_append_prefix del: split_ch.simps(2))
  qed
qed simp

lemma replace_all_new: "replace_all old new s = s \<or> set new \<subseteq> set (replace_all old new s)"
  by (induction old new s rule: replace_all.induct) (auto split: option.splits)

lemma replace_all_no_dotdot:
  assumes "\<not> has_dotdot p" "list_all label_char l" "l \<noteq> []"
  shows "\<not> has_dotdot (replace_all HostnameToken l p)"
proof
  have chars: "c \<in> set l \<Longrightarrow> c \<noteq> CHR ''.'' \<and> c \<noteq> CHR ''/''" for c
    using assms(2) label_char_not_sep by (auto simp: list_all_iff)
  assume "has_dotdot (replace_all HostnameToken l p)"
  moreover have "split_ch (CHR ''/'') (replace_all HostnameToken l p) = map (replace_all HostnameToken l) (split_ch (CHR ''/'') p)"
    using chars by (intro replace_all_split) (auto simp: HostnameToken_def)
  ultimately obtain s where s: "s \<in> set (split_ch (CHR ''/'') p)" "replace_all HostnameToken l s = ''..''"
    by (auto simp: has_dotdot_iff)
  obtain c where "c \<in> set l" using assms(3) by (cases l) auto
  then have "\<not> set l \<subseteq> set ''..''" using chars by auto
  then have "s = ''..''" using s(2) replace_all_new [of HostnameToken l s] by auto
  then show False using s(1) assms(1) by (simp add: has_dotdot_iff)
qed

lemma replace_token_tilde: "replace_all HostnameToken l (CHR ''~'' # CHR ''/'' # p) = CHR ''~'' # CHR ''/'' # replace_all HostnameToken l p"
  and replace_token_slash: "replace_all HostnameToken l (CHR ''/'' # p) = CHR ''/'' # replace_all HostnameToken l p"
  by (simp_all add: HostnameToken_def)

section \<open>Properties\<close>

lemma fold_mput:
  "distinct (map fst u) \<Longrightarrow> keys_ok u0 \<Longrightarrow> keys_ok (fold (\<lambda>(k, v). mput k v) u u0)
     \<and> map_of (fold (\<lambda>(k, v). mput k v) u u0) = map_of u0 ++ map_of u"
proof (induction u arbitrary: u0)
  case (Cons p u)
  obtain k v where p: "p = (k, v)" by (cases p)
  then have "map_of u k = None" using Cons.prems by (auto simp: map_of_eq_None_iff)
  then show ?case using Cons p by (auto simp: map_add_def fun_eq_iff split: option.splits)
qed simp

text \<open>
  The consumer's check of a host name label is exact: it accepts the labels some host name
  gives, up to 63 bytes, and nothing else. So the two rules differ only on a longer label,
  which the producer does not refuse.
\<close>
theorem label_validator_exact:
  "ValidateHostnameLabel s = None
   \<longleftrightarrow> length s \<le> 63 \<and> (\<exists>name. LocalHostnameLabel name = Some s)"
proof -
  have "ValidateHostnameLabel s = None \<longleftrightarrow> length s \<le> 63 \<and> s \<noteq> [] \<and> hd s \<noteq> CHR ''-'' \<and> last s \<noteq> CHR ''-'' \<and> list_all label_char s"
    by (auto simp: ValidateHostnameLabel_def find_idx_None list_all_iff)
  then show ?thesis using LocalHostnameLabel_label LocalHostnameLabel_id by blast
qed

text \<open>
  An expanded socket path is absolute and has no dot-dot segment; an absolute entry stays
  where it was, with the host label for the token; a home-relative entry is the segments of
  the reported home directory followed by the entry's own, so it cannot leave that home,
  and it carries no control character.
\<close>
theorem expansion_confined:
  assumes "ExpandRemotePath name probe p = Inr e"
  shows "has_prefix ''/'' e \<and> \<not> has_dotdot e \<and>
    (\<exists>q. q = (if sublist HostnameToken p then replace_all HostnameToken (the (LocalHostnameLabel name)) p else p)
      \<and> (if has_prefix ''~/'' p
         then \<exists>out. probe = Some out \<and> \<not> list_ex control_char e
               \<and> segs e = segs (trim_space out) @ filter (\<lambda>s. s \<noteq> [] \<and> s \<noteq> ''.'') (split_ch (CHR ''/'') (drop 2 q))
         else e = q))"
proof -
  define q where "q = (if sublist HostnameToken p then replace_all HostnameToken (the (LocalHostnameLabel name)) p else p)"
  have valid: "ValidateRemoteSocket p = None"
    using assms by (auto simp: ExpandRemotePath_def split: option.splits)
  have label: "sublist HostnameToken p \<Longrightarrow> LocalHostnameLabel name \<noteq> None"
    using assms by (auto simp: ExpandRemotePath_def split: option.splits)
  have dots: "\<not> has_dotdot q'" if "\<not> has_dotdot p'"
    "q' = (if sublist HostnameToken p then replace_all HostnameToken (the (LocalHostnameLabel name)) p' else p')" for p' q'
    using that label LocalHostnameLabel_label [of name] by (auto simp: replace_all_no_dotdot)
  have rest: "expand_home probe q = Inr e"
    using assms valid label by (auto simp: ExpandRemotePath_def q_def split: option.splits)
  show ?thesis
  proof (cases "has_prefix ''~/'' p")
    case True
    then obtain t where t: "p = CHR ''~'' # CHR ''/'' # t" by (auto simp: has_prefix_iff)
    define t' where t': "t' = (if sublist HostnameToken p then replace_all HostnameToken (the (LocalHostnameLabel name)) t else t)"
    have q: "q = CHR ''~'' # CHR ''/'' # t'"
      unfolding q_def t' by (cases "sublist HostnameToken p") (simp_all only: t replace_token_tilde if_True if_False)
    have "\<not> has_dotdot t" using valid t
      by (auto simp: ValidateRemoteSocket_def Let_def has_prefix_def trim_prefix_def split: if_splits)
    then have nd: "\<not> has_dotdot t'" using dots t' by blast
    from rest q obtain out where out: "probe = Some out" "has_prefix ''/'' (trim_space out)"
      "e = path_join (trim_space out) t'" "\<not> list_ex control_char e"
      by (auto simp: expand_home_def has_prefix_def trim_prefix_def Let_def split: option.splits if_splits)
    from out(2) obtain h where h: "trim_space out = CHR ''/'' # h" by (auto simp: has_prefix_iff)
    show ?thesis
      using path_join_segs [OF nd h] out True q unfolding q_def [symmetric] by auto
  next
    case False
    then obtain t where t: "p = CHR ''/'' # t" "\<not> has_dotdot p"
      using valid by (auto simp: ValidateRemoteSocket_def Let_def has_prefix_iff split: if_splits)
    then have "\<not> has_dotdot q" using dots q_def by blast
    moreover have "\<exists>t'. q = CHR ''/'' # t'"
      unfolding q_def by (cases "sublist HostnameToken p") (simp_all only: t(1) replace_token_slash if_True if_False, blast+)
    then obtain t' where "q = CHR ''/'' # t'" ..
    moreover from this have "e = q" using rest \<open>q = CHR ''/'' # t'\<close> by (simp add: expand_home_def has_prefix_def)
    ultimately show ?thesis using False unfolding q_def [symmetric] by (auto simp: has_prefix_def)
  qed
qed

theorem expansion_confined_witness:
  "ExpandRemotePath (Some ''WS1.example'') (Some ''/home/u'') ''~/.ssh/dv.{{HOSTNAME}}.sock'' = Inr ''/home/u/.ssh/dv.ws1.sock''
   \<and> \<not> has_dotdot ''/home/u/.ssh/dv.ws1.sock''"
proof -
  have "ExpandRemotePath (Some ''WS1.example'') (Some ''/home/u'') ''~/.ssh/dv.{{HOSTNAME}}.sock'' = Inr ''/home/u/.ssh/dv.ws1.sock''"
    by code_simp
  then show ?thesis using expansion_confined by blast
qed

text \<open>
  Rewriting the file keeps everything in it: what \<open>Save\<close> writes, \<open>Load\<close> reads back as the
  same document, given a codec that reads back the entries it writes; and whatever entries
  are saved over a loaded file, every section the program does not know is still there.
\<close>
theorem Load_Save_roundtrip:
  assumes "\<And>rs. dec (enc rs) = Some rs"
  shows "(keys_ok (unknown f) \<and> ''remotes'' \<notin> fst ` set (unknown f) \<longrightarrow> Load dec (Some (Save enc f)) = Some f)
    \<and> (keys_ok m \<and> Load dec (Some m) = Some f \<longrightarrow>
        (\<forall>k. k \<noteq> ''remotes'' \<longrightarrow> map_of (Save enc (f\<lparr>Remotes := rs\<rparr>)) k = map_of m k))"
proof -
  have Save: "keys_ok (Save enc g)"
    "map_of (Save enc g) = [''remotes'' \<mapsto> enc (Remotes g)] ++ map_of (unknown g)" if "keys_ok (unknown g)" for g
    using fold_mput [of "unknown g" "mput ''remotes'' (enc (Remotes g)) []"] keys_ok_distinct [OF that]
    by (simp_all add: Save_def fun_upd_def keys_ok_Cons)
  have "Load dec (Some (Save enc f)) = Some f" if u: "keys_ok (unknown f)" "''remotes'' \<notin> fst ` set (unknown f)"
  proof -
    have none: "map_of (unknown f) ''remotes'' = None" using u(2) by (simp add: map_of_eq_None_iff)
    then have "mdel ''remotes'' (Save enc f) = unknown f"
      using Save [OF u(1)] u(1) by (intro keys_ok_ext) (auto simp: fun_eq_iff map_add_def split: option.splits)
    then show ?thesis using Save(2) [OF u(1)] none assms by (simp add: Load_def map_add_def)
  qed
  moreover have "map_of (Save enc (f\<lparr>Remotes := rs\<rparr>)) k = map_of m k"
    if m: "keys_ok m" "Load dec (Some m) = Some f" "k \<noteq> ''remotes''" for k
  proof -
    have "unknown f = m \<and> map_of m ''remotes'' = None \<or> unknown f = mdel ''remotes'' m"
      using m(2) by (auto simp: Load_def split: option.splits)
    then have "keys_ok (unknown f)" "map_of (unknown f) k = map_of m k" using m by auto
    then show ?thesis using Save(2) [of "f\<lparr>Remotes := rs\<rparr>"] m(3) by (simp add: map_add_def split: option.splits)
  qed
  ultimately show ?thesis by blast
qed

theorem Load_Save_roundtrip_witness:
  "let f = \<lparr>Remotes = [\<lparr>Host = ''a'', Port = 22, RemoteSocket = ''/s'', HostKey = [], Enabled = None\<rparr>],
            unknown = [(''defaults'', [])]\<rparr>
   in Load Some (Some (Save id f)) = Some f"
  unfolding Let_def
  by (rule Load_Save_roundtrip [THEN conjunct1, THEN mp]) (simp_all add: keys_ok_Cons)

end
