(* ===== verification/SSHTrust.thy ===== *)
theory SSHTrust
  imports SSHRemotes
begin

text \<open>
  The trust decision of the SSH forwards: the host key policy
  (\<open>internal/sshfwd/hostkey.go\<close>), the classification of a failed dial (\<open>dial.go\<close>), the
  error classes (\<open>state.go\<close>) and the live verifier (\<open>verify.go\<close>). The SSH library
  (\<open>golang.org/x/crypto/ssh\<close>) is the record \<open>sshlib\<close>, the machine at the other end of one
  dial the record \<open>peer\<close>.
\<close>

section \<open>Errors\<close>

text \<open>
  A Go error is the list of what \<open>errors.Is\<close> or \<open>errors.As\<close> finds in its chain; wrapping
  with \<open>%w\<close> adds to the front. \<open>Text\<close> is an error without a sentinel.
\<close>

datatype sentinel =
    ErrHostKeyUnknown | ErrHostKeyMismatch | ErrIdentity | ErrAuth | ErrSocketDir | ErrBind | ErrHandshake
  | ECONNREFUSED | ENETUNREACH | EHOSTUNREACH | DNSError | KeyError | Canceled | Text string

type_synonym err = "sentinel list"

definition Is :: "err \<Rightarrow> sentinel \<Rightarrow> bool" where
  "Is e s \<longleftrightarrow> List.member e s"

datatype error_class =
    ClassNone | ClassDNS | ClassUnreachable | ClassRefused | ClassHandshake | ClassAuth | ClassIdentity
  | ClassHostKey | ClassBind | ClassSocketDir | ClassOther

definition Classify :: "err option \<Rightarrow> error_class" where
  "Classify oe =
     (case oe of
        None \<Rightarrow> ClassNone
      | Some e \<Rightarrow>
          if Is e ErrHostKeyUnknown then ClassHostKey
          else if Is e ErrHostKeyMismatch then ClassHostKey
          else if Is e ECONNREFUSED then ClassRefused
          else if Is e ENETUNREACH \<or> Is e EHOSTUNREACH then ClassUnreachable
          else if Is e ErrIdentity then ClassIdentity
          else if Is e ErrAuth then ClassAuth
          else if Is e ErrSocketDir then ClassSocketDir
          else if Is e ErrBind then ClassBind
          else if Is e ErrHandshake then ClassHandshake
          else if Is e DNSError then ClassDNS
          else if Is e KeyError then ClassHostKey
          else ClassOther)"

section \<open>Keys and the policy\<close>

text \<open>
  A public key is a plain key or a certificate; equal keys have equal wire encodings.
  \<open>known_hosts\<close> is \<open>knownhosts.New\<close> on the text of the CA file: a callback that says
  what is wrong with the certificate for that host, or nothing if the file does not parse.
\<close>

datatype ('k, 'c) pubkey = PlainKey 'k | Certificate 'c

datatype cert_error = CertKeyError | CertOther string

fun cert_err :: "cert_error \<Rightarrow> sentinel" where
  "cert_err CertKeyError = KeyError"
| "cert_err (CertOther m) = Text m"

type_synonym 'c ca_callback = "string \<Rightarrow> 'c \<Rightarrow> cert_error option"

record ('k, 'c) sshlib =
  ParseAuthorizedKey :: "string \<Rightarrow> ('k, 'c) pubkey option"
  MarshalAuthorizedKey :: "('k, 'c) pubkey \<Rightarrow> string"
  FingerprintSHA256 :: "('k, 'c) pubkey \<Rightarrow> string"
  known_hosts :: "string \<Rightarrow> 'c ca_callback option"

record policy =
  CAs :: "string list"
  Pinned :: string
  Insecure :: bool

definition nl :: "char \<Rightarrow> bool" where
  "nl c \<longleftrightarrow> c = CHR 0x0A \<or> c = CHR 0x0D"

definition trim_right_nl :: "string \<Rightarrow> string" where
  "trim_right_nl s = rev (dropWhile nl (rev s))"

text \<open>The lines of the temporary file; \<open>None\<close> for an embedded newline.\<close>

fun ca_lines :: "string list \<Rightarrow> string option" where
  "ca_lines [] = Some []"
| "ca_lines (l # ls) =
     (if list_ex nl (trim_right_nl l) then None
      else map_option (\<lambda>t. trim_right_nl l @ CHR 0x0A # t) (ca_lines ls))"

text \<open>\<open>tmp_ok\<close> says whether creating, writing and closing the temporary file works.\<close>

definition buildCACallback :: "('k, 'c) sshlib \<Rightarrow> bool \<Rightarrow> policy \<Rightarrow> 'c ca_callback option" where
  "buildCACallback L tmp_ok p =
     (if \<not> tmp_ok then None
      else (case ca_lines (CAs p) of None \<Rightarrow> None | Some t \<Rightarrow> known_hosts L t))"

text \<open>The cache holds a callback only after a build that worked.\<close>

definition cachedCACallback :: "('k, 'c) sshlib \<Rightarrow> bool \<Rightarrow> policy \<Rightarrow> 'c ca_callback option
    \<Rightarrow> 'c ca_callback option \<times> 'c ca_callback option" where
  "cachedCACallback L tmp_ok p cache =
     (case cache of
        Some cb \<Rightarrow> (Some cb, Some cb)
      | None \<Rightarrow> (case buildCACallback L tmp_ok p of
                   None \<Rightarrow> (None, None)
                 | Some cb \<Rightarrow> (Some cb, Some cb)))"

definition checkCert :: "('k, 'c) sshlib \<Rightarrow> bool \<Rightarrow> policy \<Rightarrow> 'c ca_callback option \<Rightarrow> string \<Rightarrow> 'c
    \<Rightarrow> err option \<times> 'c ca_callback option" where
  "checkCert L tmp_ok p cache host cert =
     (if CAs p = [] then (Some [ErrHostKeyMismatch], cache)
      else (case cachedCACallback L tmp_ok p cache of
              (None, cache') \<Rightarrow> (Some [Text ''load configured certificate authorities''], cache')
            | (Some cb, cache') \<Rightarrow>
                (map_option (\<lambda>e. [ErrHostKeyMismatch, cert_err e]) (cb host cert), cache')))"

text \<open>The verdict on the key a host presents (\<open>None\<close> accepts) and the cache afterwards.\<close>

definition Callback :: "('k, 'c) sshlib \<Rightarrow> bool \<Rightarrow> policy \<Rightarrow> 'c ca_callback option \<Rightarrow> string \<Rightarrow> ('k, 'c) pubkey
    \<Rightarrow> err option \<times> 'c ca_callback option" where
  "Callback L tmp_ok p cache host key =
     (if Insecure p then (None, cache)
      else (case key of
              Certificate cert \<Rightarrow> checkCert L tmp_ok p cache host cert
            | PlainKey k \<Rightarrow>
                (if Pinned p \<noteq> []
                 then (case ParseAuthorizedKey L (Pinned p) of
                         None \<Rightarrow> (Some [Text ''parse pinned host key''], cache)
                       | Some pinned \<Rightarrow> if pinned = key then (None, cache)
                                        else (Some [ErrHostKeyMismatch], cache))
                 else (Some [ErrHostKeyUnknown], cache))))"

section \<open>Dialling\<close>

datatype net_error = NetRefused | NetUnreachable | HostUnreachable | NetDNS | NetOther string

fun net_err :: "net_error \<Rightarrow> err" where
  "net_err NetRefused = [ECONNREFUSED]"
| "net_err NetUnreachable = [ENETUNREACH]"
| "net_err HostUnreachable = [EHOSTUNREACH]"
| "net_err NetDNS = [DNSError]"
| "net_err (NetOther m) = [Text m]"

text \<open>
  What happens during one dial and the verification after it: \<open>tcp\<close> a failure to connect,
  \<open>hello\<close> one before the host key is presented, \<open>offers\<close> the key presented, \<open>after_key\<close>
  a failure once the key is accepted, \<open>auth_text\<close> the failures whose text mentions a
  refused credential, \<open>cancelled\<close> the context at the end of the handshake; then what
  \<open>echo $HOME\<close> prints, whether \<open>mkdir\<close> and the bind fail.
\<close>

record ('k, 'c) peer =
  tcp :: "net_error option"
  hello :: "string option"
  offers :: "('k, 'c) pubkey"
  after_key :: "string option"
  auth_text :: "err \<Rightarrow> bool"
  cancelled :: bool
  home_probe :: "string option"
  mkdir_fails :: "string option"
  bind_fails :: "string option"

definition JoinHostPort :: "string \<Rightarrow> int \<Rightarrow> string" where
  "JoinHostPort host port =
     (if CHR '':'' \<in> set host then CHR ''['' # host @ '']:'' @ show_nat (nat port)
      else host @ CHR '':'' # show_nat (nat port))"

definition dial_error :: "('k, 'c) peer \<Rightarrow> err \<Rightarrow> err" where
  "dial_error P e =
     (if cancelled P then [Canceled]
      else if Is e ErrHostKeyUnknown then e
      else if Is e KeyError then e
      else if auth_text P e then ErrAuth # e
      else ErrHandshake # e)"

text \<open>\<open>ssh.NewClientConn\<close>: the failure if any, the key the policy was shown, the CA cache.\<close>

definition handshake :: "('k, 'c) sshlib \<Rightarrow> ('k, 'c) peer \<Rightarrow> bool \<Rightarrow> policy \<Rightarrow> 'c ca_callback option \<Rightarrow> string
    \<Rightarrow> err option \<times> ('k, 'c) pubkey option \<times> 'c ca_callback option" where
  "handshake L P tmp_ok p cache addr =
     (case hello P of
        Some m \<Rightarrow> (Some [Text m], None, cache)
      | None \<Rightarrow>
          (case Callback L tmp_ok p cache addr (offers P) of
             (Some e, cache') \<Rightarrow> (Some e, Some (offers P), cache')
           | (None, cache') \<Rightarrow> (map_option (\<lambda>m. [Text m]) (after_key P), Some (offers P), cache')))"

definition Dial :: "('k, 'c) sshlib \<Rightarrow> ('k, 'c) peer \<Rightarrow> bool \<Rightarrow> nat \<Rightarrow> policy option \<Rightarrow> 'c ca_callback option
    \<Rightarrow> string \<Rightarrow> int \<Rightarrow> err option \<times> ('k, 'c) pubkey option \<times> 'c ca_callback option" where
  "Dial L P tmp_ok signers pol cache host port =
     (if signers = 0 then (Some [ErrAuth], None, cache)
      else (case pol of
              None \<Rightarrow> (Some [ErrHandshake], None, cache)
            | Some p \<Rightarrow>
                (case tcp P of
                   Some e \<Rightarrow> (Some (net_err e), None, cache)
                 | None \<Rightarrow>
                     (case handshake L P tmp_ok p cache (JoinHostPort host (if port = 0 then 22 else port)) of
                        (e, observed, cache') \<Rightarrow> (map_option (dial_error P) e, observed, cache')))))"

section \<open>The live verifier\<close>

record ('k, 'c) deps =
  complete :: bool
  Signers :: "err + nat"
  User :: "err + string"
  Policy :: "remote \<Rightarrow> policy option"

record verify_result =
  vHostKey :: string
  vFingerprint :: string
  Verified :: bool
  ResolvedSocket :: string

definition withSocketDirCause :: "string option \<Rightarrow> err \<Rightarrow> err" where
  "withSocketDirCause dirErr e = (case dirErr of None \<Rightarrow> e | Some m \<Rightarrow> e @ [ErrSocketDir, Text m])"

definition Verify :: "('k, 'c) sshlib \<Rightarrow> ('k, 'c) deps \<Rightarrow> ('k, 'c) peer \<Rightarrow> bool \<Rightarrow> 'c ca_callback option \<Rightarrow> string option
    \<Rightarrow> remote \<Rightarrow> bool \<Rightarrow> err + verify_result" where
  "Verify L D P tmp_ok cache localname r skipBindProof =
     (if \<not> complete D then Inl [Text ''incomplete Deps passed to Verify'']
      else rbind (Signers D) (\<lambda>signers. rbind (User D) (\<lambda>user.
        (case Dial L P tmp_ok signers (Policy D r) cache (Host r) (PortOrDefault r) of
           (Some e, observed, _) \<Rightarrow>
             (if Is e ErrHostKeyUnknown
              then (case observed of
                      None \<Rightarrow> Inl e
                    | Some k \<Rightarrow> Inr \<lparr>vHostKey = trim_space (MarshalAuthorizedKey L k),
                                     vFingerprint = FingerprintSHA256 L k, Verified = True, ResolvedSocket = []\<rparr>)
              else Inl e)
         | (None, _, _) \<Rightarrow>
             (case ExpandRemotePath localname (home_probe P)
                     (if RemoteSocket r = [] then DefaultRemoteSocket else RemoteSocket r) of
                Inl e \<Rightarrow> Inl [Text ''expand remote path'']
              | Inr resolved \<Rightarrow>
                  (let ok = \<lparr>vHostKey = [], vFingerprint = [],
                             Verified = (case Policy D r of Some p \<Rightarrow> \<not> Insecure p | None \<Rightarrow> False),
                             ResolvedSocket = resolved\<rparr>
                   in if skipBindProof then Inr ok
                      else (case bind_fails P of
                              Some m \<Rightarrow> Inl (withSocketDirCause (mkdir_fails P) [ErrBind, Text m])
                            | None \<Rightarrow> Inr ok)))))))"

text \<open>
  The policy the daemon builds for every dial (\<open>cmd/dotvault/sshwire.go\<close>): the entry's own
  pin under the configured authorities, with a cache that starts empty.
\<close>

definition daemon_policy :: "string list \<Rightarrow> bool \<Rightarrow> remote \<Rightarrow> policy option" where
  "daemon_policy cas insecure r = Some \<lparr>CAs = cas, Pinned = HostKey r, Insecure = insecure\<rparr>"

definition daemon_verify :: "('k, 'c) sshlib \<Rightarrow> string list \<Rightarrow> bool \<Rightarrow> err + nat \<Rightarrow> string \<Rightarrow> ('k, 'c) peer \<Rightarrow> bool
    \<Rightarrow> string option \<Rightarrow> remote \<Rightarrow> bool \<Rightarrow> err + verify_result" where
  "daemon_verify L cas insecure signers username P tmp_ok localname =
     Verify L \<lparr>complete = True, Signers = signers, User = Inr username, Policy = daemon_policy cas insecure\<rparr>
       P tmp_ok None localname"

section \<open>Facts\<close>

lemma Is_Nil [simp]: "\<not> Is [] s"
  by (simp add: Is_def)

lemma Is_Cons [simp]: "Is (x # e) s \<longleftrightarrow> x = s \<or> Is e s"
  by (auto simp: Is_def)

lemma cert_err_not [simp]: "cert_err e \<noteq> ErrHostKeyUnknown" "cert_err e \<noteq> ErrHostKeyMismatch"
  by (cases e; simp)+

lemma net_err_not [simp]: "\<not> Is (net_err e) ErrHostKeyUnknown"
  by (cases e) simp_all

text \<open>
  The only confirmable verdict is a plain key of a host that has no pin.
\<close>

lemma Callback_unknown:
  "fst (Callback L tmp_ok p cache host key) = Some e \<Longrightarrow>
   Is e ErrHostKeyUnknown \<longleftrightarrow> \<not> Insecure p \<and> Pinned p = [] \<and> (\<exists>k. key = PlainKey k)"
  by (auto simp: Callback_def checkCert_def split: if_splits pubkey.splits option.splits prod.splits)

lemma Callback_accepts:
  "fst (Callback L tmp_ok p cache host key) = None \<Longrightarrow> \<not> Insecure p \<Longrightarrow>
   (\<exists>k. key = PlainKey k \<and> Pinned p \<noteq> [] \<and> ParseAuthorizedKey L (Pinned p) = Some key)
   \<or> (\<exists>c cb. key = Certificate c \<and> CAs p \<noteq> [] \<and> fst (cachedCACallback L tmp_ok p cache) = Some cb \<and> cb host c = None)"
  by (auto simp: Callback_def checkCert_def split: if_splits pubkey.splits option.splits prod.splits)

lemma Dial_unknown:
  assumes "Dial L P tmp_ok n pol cache host port = (Some e, observed, cache')" "Is e ErrHostKeyUnknown"
  shows "\<exists>p k. pol = Some p \<and> \<not> Insecure p \<and> Pinned p = [] \<and> offers P = PlainKey k \<and> observed = Some (offers P)"
  using assms Callback_unknown [of L tmp_ok "the pol" cache "JoinHostPort host (if port = 0 then 22 else port)" "offers P"]
  by (auto simp: Dial_def handshake_def dial_error_def split: if_splits option.splits prod.splits)

lemma Dial_ok:
  assumes "Dial L P tmp_ok n pol cache host port = (None, observed, cache')"
  shows "\<exists>p. pol = Some p \<and> fst (Callback L tmp_ok p cache (JoinHostPort host (if port = 0 then 22 else port)) (offers P)) = None"
  using assms by (auto simp: Dial_def handshake_def split: if_splits option.splits prod.splits)

lemma Verify_cases:
  assumes "Verify L D P tmp_ok cache localname r skip = Inr v"
  shows "(\<exists>p k. Policy D r = Some p \<and> \<not> Insecure p \<and> Pinned p = [] \<and> offers P = PlainKey k
            \<and> v = \<lparr>vHostKey = trim_space (MarshalAuthorizedKey L (offers P)),
                   vFingerprint = FingerprintSHA256 L (offers P), Verified = True, ResolvedSocket = []\<rparr>)
       \<or> (\<exists>p. Policy D r = Some p \<and> vHostKey v = [] \<and> vFingerprint v = [] \<and> (Verified v \<longleftrightarrow> \<not> Insecure p)
            \<and> fst (Callback L tmp_ok p cache (JoinHostPort (Host r) (PortOrDefault r)) (offers P)) = None)"
proof -
  obtain n u where c: "complete D" "Signers D = Inr n" "User D = Inr u"
    using assms by (auto simp: Verify_def res_simps split: if_splits)
  obtain oe observed cache' where d: "Dial L P tmp_ok n (Policy D r) cache (Host r) (PortOrDefault r) = (oe, observed, cache')"
    by (metis prod_cases3)
  have port: "PortOrDefault r \<noteq> 0" by (simp add: PortOrDefault_def)
  show ?thesis
  proof (cases oe)
    case (Some e)
    then have unk: "Is e ErrHostKeyUnknown" using assms c d by (auto simp: Verify_def split: if_splits)
    with Dial_unknown d Some obtain p k where p: "Policy D r = Some p" "\<not> Insecure p" "Pinned p = []" "offers P = PlainKey k"
      "observed = Some (offers P)" by metis
    then have "v = \<lparr>vHostKey = trim_space (MarshalAuthorizedKey L (offers P)),
        vFingerprint = FingerprintSHA256 L (offers P), Verified = True, ResolvedSocket = []\<rparr>"
      using assms c d Some unk by (simp add: Verify_def)
    with p show ?thesis by blast
  next
    case None
    then obtain p where "Policy D r = Some p"
        "fst (Callback L tmp_ok p cache (JoinHostPort (Host r) (PortOrDefault r)) (offers P)) = None"
      using Dial_ok d port by fastforce
    then show ?thesis
      using assms c d None by (auto simp: Verify_def Let_def split: sum.splits option.splits if_splits)
  qed
qed

section \<open>Properties\<close>

text \<open>
  The policy decides exactly this: it asks for confirmation only of a plain key of a host
  without a pin, and it accepts only the pinned key, a certificate the configured
  authorities vouch for, or anything at all when verification is switched off. A changed
  key of a pinned host, and every certificate without authorities, is a mismatch.
\<close>
theorem host_key_policy_exact:
  "((\<exists>e. fst (Callback L tmp_ok p cache host key) = Some e \<and> Is e ErrHostKeyUnknown)
      \<longleftrightarrow> \<not> Insecure p \<and> Pinned p = [] \<and> (\<exists>k. key = PlainKey k))
   \<and> (fst (Callback L tmp_ok p cache host key) = None
      \<longleftrightarrow> Insecure p
        \<or> (\<exists>k. key = PlainKey k \<and> Pinned p \<noteq> [] \<and> ParseAuthorizedKey L (Pinned p) = Some key)
        \<or> (\<exists>c cb. key = Certificate c \<and> CAs p \<noteq> [] \<and> fst (cachedCACallback L tmp_ok p cache) = Some cb \<and> cb host c = None))
   \<and> ((\<exists>e. fst (Callback L tmp_ok p cache host key) = Some e \<and> Is e ErrHostKeyMismatch)
      \<longleftrightarrow> \<not> Insecure p
        \<and> ((\<exists>k q. key = PlainKey k \<and> Pinned p \<noteq> [] \<and> ParseAuthorizedKey L (Pinned p) = Some q \<and> q \<noteq> key)
           \<or> (\<exists>c. key = Certificate c
                \<and> (CAs p = [] \<or> (\<exists>cb e. fst (cachedCACallback L tmp_ok p cache) = Some cb \<and> cb host c = Some e)))))"
  by (auto simp: Callback_def checkCert_def split: if_splits pubkey.splits option.splits prod.splits)

end
