(* ===== verification/SSHRegistry.thy ===== *)
theory SSHRegistry
  imports SSHTrust
begin

text \<open>
  \<open>internal/sshfwd/registry.go\<close>: the one service layer through which \<open>ssh.yaml\<close> changes.
  \<open>Add\<close> verifies before its transaction and commits inside it, so it is the two
  definitions \<open>add_prepare\<close> and \<open>add_commit\<close>; the steps of \<open>reg_step\<close> interleave them
  with every other mutation. The verifier and the manager are interfaces: the locales
  \<open>verifier\<close> and \<open>reconciler\<close>.
\<close>

section \<open>Requests and results\<close>

record add_options =
  Force :: bool
  AcceptFingerprint :: string

record patch =
  pEnabled :: "bool option"
  pRemoteSocket :: "string option"
  pPort :: "int option"
  ReconcileDelay :: int

datatype reg_error =
    BadRemote remote_error
  | LoadFailed
  | SaveFailed
  | VerifyFailed err
  | NoFingerprint
  | UnparseableKey
  | WrongFingerprint string
  | ConfirmHostKey string string
  | ConfirmationMismatch
  | PinChanged
  | NotApplied err
  | HostNotFound
  | DelayOutOfRange int

text \<open>\<open>MaxReconcileDelay\<close> in nanoseconds.\<close>

definition MaxReconcileDelay :: int where
  "MaxReconcileDelay = 60 * 1000000000"

text \<open>
  \<open>doc\<close> is what \<open>ssh.yaml\<close> holds, \<open>mgr\<close> the manager's state. Each file access may fail:
  \<open>load_ok\<close> and \<open>save_ok\<close>; a failed save leaves the file (\<open>Save\<close> writes a temporary file
  and renames it).
\<close>

record ('n, 'm) reg =
  doc :: "'n ssh_file"
  mgr :: 'm

definition storedHostKey :: "remote list \<Rightarrow> string \<Rightarrow> string" where
  "storedHostKey rs host = (case Find host rs of Some i \<Rightarrow> HostKey (rs ! i) | None \<Rightarrow> [])"

section \<open>Adding\<close>

text \<open>
  What a successful verification pins: the checks on a reported key, then the switch on
  \<open>Verified\<close>, the fingerprint and the caller's confirmation. \<open>fp\<close> parses a key and takes
  its fingerprint.
\<close>

definition decide_pin :: "(string \<Rightarrow> string option) \<Rightarrow> add_options \<Rightarrow> string \<Rightarrow> string \<Rightarrow> verify_result
    \<Rightarrow> reg_error + string" where
  "decide_pin fp opts host existing v =
     (if vHostKey v \<noteq> [] \<and> vFingerprint v = [] then Inl NoFingerprint
      else if vHostKey v \<noteq> [] \<and> fp (vHostKey v) = None then Inl UnparseableKey
      else if vHostKey v \<noteq> [] \<and> fp (vHostKey v) \<noteq> Some (vFingerprint v) then Inl (WrongFingerprint (vFingerprint v))
      else if \<not> Verified v then Inr existing
      else if vFingerprint v = [] then Inr (if vHostKey v \<noteq> [] then vHostKey v else existing)
      else if AcceptFingerprint opts = [] then Inl (ConfirmHostKey host (vFingerprint v))
      else if AcceptFingerprint opts \<noteq> vFingerprint v then Inl ConfirmationMismatch
      else Inr (vHostKey v))"

text \<open>The first half, up to taking the transaction lock: the entry to commit and the pin it was judged against.\<close>

definition add_prepare :: "(remote \<Rightarrow> bool \<Rightarrow> err + verify_result) \<Rightarrow> (string \<Rightarrow> string option) \<Rightarrow> bool \<Rightarrow> bool
    \<Rightarrow> ('n, 'm) reg \<Rightarrow> remote \<Rightarrow> add_options \<Rightarrow> reg_error + (remote \<times> string)" where
  "add_prepare verify fp load_ok connected g r0 opts =
     (let r = (if RemoteSocket r0 = [] then r0\<lparr>RemoteSocket := DefaultRemoteSocket\<rparr> else r0) in
      case ValidateRemote r of
        Some e \<Rightarrow> Inl (BadRemote e)
      | None \<Rightarrow>
          if \<not> load_ok then Inl LoadFailed
          else (let existing = storedHostKey (Remotes (doc g)) (Host r) in
            if Force opts
            then Inr (if HostKey r = [] then r\<lparr>HostKey := existing\<rparr> else r, existing)
            else (case verify (if HostKey r = [] then r\<lparr>HostKey := existing\<rparr> else r) connected of
                    Inl e \<Rightarrow> Inl (VerifyFailed e)
                  | Inr v \<Rightarrow> rbind (decide_pin fp opts (Host r) existing v)
                               (\<lambda>pin. Inr (r\<lparr>HostKey := pin\<rparr>, existing)))))"

definition pin_conflict :: "remote list \<Rightarrow> remote \<Rightarrow> string \<Rightarrow> bool" where
  "pin_conflict rs r existing = (case Find (Host r) rs of Some i \<Rightarrow> HostKey (rs ! i) \<noteq> existing | None \<Rightarrow> False)"

text \<open>
  Saving a new list of entries and reconciling: the common tail of every mutation. The
  value is returned together with the error when the file has moved but the running set
  has not.
\<close>

definition apply_remotes :: "(remote list \<Rightarrow> 'm \<Rightarrow> err option \<times> 'm) \<Rightarrow> remote list \<Rightarrow> ('n, 'm) reg
    \<Rightarrow> reg_error option \<times> ('n, 'm) reg" where
  "apply_remotes reconcile rs g =
     (case reconcile rs (mgr g) of
        (e, m) \<Rightarrow> (map_option NotApplied e, \<lparr>doc = (doc g)\<lparr>Remotes := rs\<rparr>, mgr = m\<rparr>))"

definition add_commit :: "(remote list \<Rightarrow> 'm \<Rightarrow> err option \<times> 'm) \<Rightarrow> bool \<Rightarrow> bool \<Rightarrow> remote \<times> string \<Rightarrow> ('n, 'm) reg
    \<Rightarrow> (remote option \<times> reg_error option) \<times> ('n, 'm) reg" where
  "add_commit reconcile load_ok save_ok p g =
     (case p of (r, existing) \<Rightarrow>
        if \<not> load_ok then ((None, Some LoadFailed), g)
        else if pin_conflict (Remotes (doc g)) r existing then ((None, Some PinChanged), g)
        else if \<not> save_ok then ((None, Some SaveFailed), g)
        else apfst (\<lambda>e. (Some r, e)) (apply_remotes reconcile (Upsert r (Remotes (doc g))) g))"

text \<open>\<open>Registry.Add\<close> with nothing in between.\<close>

definition Add :: "(remote list \<Rightarrow> 'm \<Rightarrow> err option \<times> 'm) \<Rightarrow> (remote \<Rightarrow> bool \<Rightarrow> err + verify_result)
    \<Rightarrow> (string \<Rightarrow> string option) \<Rightarrow> bool \<Rightarrow> bool \<Rightarrow> bool \<Rightarrow> bool \<Rightarrow> remote \<Rightarrow> add_options \<Rightarrow> ('n, 'm) reg
    \<Rightarrow> (remote option \<times> reg_error option) \<times> ('n, 'm) reg" where
  "Add reconcile verify fp load1_ok load2_ok save_ok connected r opts g =
     (case add_prepare verify fp load1_ok connected g r opts of
        Inl e \<Rightarrow> ((None, Some e), g)
      | Inr p \<Rightarrow> add_commit reconcile load2_ok save_ok p g)"

section \<open>The other mutations\<close>

definition patched :: "patch \<Rightarrow> remote \<Rightarrow> remote" where
  "patched p r = r\<lparr>Enabled := (case pEnabled p of None \<Rightarrow> Enabled r | Some b \<Rightarrow> Some b),
                   RemoteSocket := (case pRemoteSocket p of None \<Rightarrow> RemoteSocket r | Some s \<Rightarrow> s),
                   Port := (case pPort p of None \<Rightarrow> Port r | Some n \<Rightarrow> n)\<rparr>"

text \<open>The last component says that a deferred reconcile was queued.\<close>

definition Patch :: "(remote list \<Rightarrow> 'm \<Rightarrow> err option \<times> 'm) \<Rightarrow> bool \<Rightarrow> bool \<Rightarrow> string \<Rightarrow> patch \<Rightarrow> ('n, 'm) reg
    \<Rightarrow> (remote option \<times> reg_error option) \<times> ('n, 'm) reg \<times> bool" where
  "Patch reconcile load_ok save_ok host p g =
     (if ReconcileDelay p < 0 \<or> MaxReconcileDelay < ReconcileDelay p
      then ((None, Some (DelayOutOfRange (ReconcileDelay p))), g, False)
      else if \<not> load_ok then ((None, Some LoadFailed), g, False)
      else (case Find host (Remotes (doc g)) of
              None \<Rightarrow> ((None, Some HostNotFound), g, False)
            | Some i \<Rightarrow>
                (let rs = Remotes (doc g); r = patched p (rs ! i) in
                 case ValidateRemote r of
                   Some e \<Rightarrow> ((None, Some (BadRemote e)), g, False)
                 | None \<Rightarrow>
                     if \<not> save_ok then ((None, Some SaveFailed), g, False)
                     else if 0 < ReconcileDelay p
                     then ((Some r, None), g\<lparr>doc := (doc g)\<lparr>Remotes := rs[i := r]\<rparr>\<rparr>, True)
                     else (case apply_remotes reconcile (rs[i := r]) g of
                             (e, g') \<Rightarrow> ((Some r, e), g', False)))))"

definition RemoveHost :: "(remote list \<Rightarrow> 'm \<Rightarrow> err option \<times> 'm) \<Rightarrow> bool \<Rightarrow> bool \<Rightarrow> string \<Rightarrow> ('n, 'm) reg
    \<Rightarrow> (bool \<times> reg_error option) \<times> ('n, 'm) reg" where
  "RemoveHost reconcile load_ok save_ok host g =
     (if \<not> load_ok then ((False, Some LoadFailed), g)
      else (case Remove host (Remotes (doc g)) of
              (False, _) \<Rightarrow> ((False, None), g)
            | (True, rs) \<Rightarrow>
                if \<not> save_ok then ((False, Some SaveFailed), g)
                else apfst (\<lambda>e. (True, e)) (apply_remotes reconcile rs g)))"

text \<open>\<open>Resync\<close>, and what a deferred reconcile does when its delay is over.\<close>

definition Resync :: "(remote list \<Rightarrow> 'm \<Rightarrow> err option \<times> 'm) \<Rightarrow> bool \<Rightarrow> ('n, 'm) reg \<Rightarrow> reg_error option \<times> ('n, 'm) reg" where
  "Resync reconcile load_ok g =
     (if \<not> load_ok then (Some LoadFailed, g) else apply_remotes reconcile (Remotes (doc g)) g)"

section \<open>Adding by cases\<close>

definition defaulted :: "remote \<Rightarrow> remote" where
  "defaulted r = (if RemoteSocket r = [] then r\<lparr>RemoteSocket := DefaultRemoteSocket\<rparr> else r)"

lemma defaulted_fields [simp]: "HostKey (defaulted r) = HostKey r" "Host (defaulted r) = Host r"
  "host_key (defaulted r) = host_key r"
  by (simp_all add: defaulted_def host_key_def)

lemma ValidateRemote_HostKey [simp]: "ValidateRemote (r\<lparr>HostKey := k\<rparr>) = ValidateRemote r"
  by (simp add: ValidateRemote_def cong: option.case_cong)

definition asked :: "('n, 'm) reg \<Rightarrow> remote \<Rightarrow> remote" where
  "asked g r = (if HostKey r = [] then (defaulted r)\<lparr>HostKey := storedHostKey (Remotes (doc g)) (Host r)\<rparr> else defaulted r)"

lemma add_prepare_eq:
  "add_prepare verify fp lo conn g r opts =
     (case ValidateRemote (defaulted r) of
        Some e \<Rightarrow> Inl (BadRemote e)
      | None \<Rightarrow>
          if \<not> lo then Inl LoadFailed
          else if Force opts then Inr (asked g r, storedHostKey (Remotes (doc g)) (Host r))
          else (case verify (asked g r) conn of
                  Inl e \<Rightarrow> Inl (VerifyFailed e)
                | Inr v \<Rightarrow> rbind (decide_pin fp opts (Host r) (storedHostKey (Remotes (doc g)) (Host r)) v)
                             (\<lambda>pin. Inr ((defaulted r)\<lparr>HostKey := pin\<rparr>, storedHostKey (Remotes (doc g)) (Host r)))))"
  by (simp add: add_prepare_def asked_def Let_def defaulted_def [symmetric] cong: option.case_cong sum.case_cong if_cong)

lemma add_prepare_Inr:
  assumes "add_prepare verify fp lo conn g r opts = Inr (q, ex)"
  shows "ex = storedHostKey (Remotes (doc g)) (Host r)" "host_key q = host_key r" "Host q = Host r"
    "ValidateRemote q = None"
    "Force opts \<Longrightarrow> q = asked g r"
    "\<not> Force opts \<Longrightarrow> \<exists>v. verify (asked g r) conn = Inr v \<and> decide_pin fp opts (Host r) ex v = Inr (HostKey q)"
  using assms
  by (auto simp: add_prepare_eq asked_def host_key_def defaulted_def res_simps split: option.splits if_splits sum.splits)

lemma add_prepare_Inl:
  assumes "add_prepare verify fp lo conn g r opts = Inl (ConfirmHostKey h f)"
  shows "\<exists>v. verify (asked g r) conn = Inr v \<and> vFingerprint v = f \<and> f \<noteq> [] \<and> Verified v \<and> AcceptFingerprint opts = []"
  using assms
  by (auto simp: add_prepare_eq decide_pin_def res_simps split: option.splits if_splits sum.splits)

lemma decide_pin_Inr:
  "decide_pin fp opts h ex v = Inr pin \<Longrightarrow>
   pin = ex \<or> Verified v \<and> pin = vHostKey v \<and> (vHostKey v \<noteq> [] \<longrightarrow> fp (vHostKey v) = Some (vFingerprint v))
             \<and> AcceptFingerprint opts = vFingerprint v \<and> vFingerprint v \<noteq> []"
  by (auto simp: decide_pin_def split: if_splits)

section \<open>The interfaces\<close>

text \<open>
  What the registry relies on in a verifier: a host judged against a pin has nothing to
  report, so it can neither be asked about nor get another pin.
\<close>

locale verifier =
  fixes verify :: "remote \<Rightarrow> bool \<Rightarrow> err + verify_result"
  assumes pinned_silent: "verify r b = Inr v \<Longrightarrow> HostKey r \<noteq> [] \<Longrightarrow> vHostKey v = [] \<and> vFingerprint v = []"
begin

lemma pinned_keeps_pin:
  assumes "add_prepare verify fp lo conn g r opts = Inr (q, ex)" "\<not> Force opts"
    and "HostKey r \<noteq> [] \<or> ex \<noteq> []"
  shows "HostKey q = ex"
proof -
  obtain v where v: "verify (asked g r) conn = Inr v" "decide_pin fp opts (Host r) ex v = Inr (HostKey q)"
    using add_prepare_Inr(6) [OF assms(1,2)] by blast
  have "HostKey (asked g r) \<noteq> []"
    using assms(3) add_prepare_Inr(1) [OF assms(1)] by (auto simp: asked_def)
  then have "vHostKey v = []" "vFingerprint v = []" using pinned_silent [OF v(1)] by auto
  then show ?thesis using decide_pin_Inr [OF v(2)] by auto
qed

lemma pinned_never_asks:
  assumes "HostKey r \<noteq> [] \<or> storedHostKey (Remotes (doc g)) (Host r) \<noteq> []"
  shows "add_prepare verify fp lo conn g r opts \<noteq> Inl (ConfirmHostKey h f)"
proof
  assume "add_prepare verify fp lo conn g r opts = Inl (ConfirmHostKey h f)"
  then obtain v where v: "verify (asked g r) conn = Inr v" "vFingerprint v \<noteq> []"
    using add_prepare_Inl by blast
  have "HostKey (asked g r) \<noteq> []" using assms by (auto simp: asked_def)
  then show False using pinned_silent [OF v(1)] v(2) by auto
qed

lemma new_pin_echoed:
  assumes "add_prepare verify fp lo conn g r opts = Inr (q, ex)" "\<not> Force opts" "HostKey q \<noteq> ex"
  shows "fp (HostKey q) = Some (AcceptFingerprint opts) \<and> ex = [] \<and> HostKey r = []"
proof -
  have "HostKey r = []" "ex = []" using assms pinned_keeps_pin by blast+
  moreover obtain v where "verify (asked g r) conn = Inr v" "decide_pin fp opts (Host r) ex v = Inr (HostKey q)"
    using add_prepare_Inr(6) [OF assms(1,2)] by blast
  ultimately show ?thesis using decide_pin_Inr [of fp opts "Host r" ex v "HostKey q"] assms(3) by auto
qed

end

text \<open>
  What it relies on in the manager: from a good state, a reconcile without an error serves
  exactly the given list, and every reconcile ends in a good state.
\<close>

locale reconciler =
  fixes reconcile :: "remote list \<Rightarrow> 'm \<Rightarrow> err option \<times> 'm" and good :: "'m \<Rightarrow> bool"
    and serves :: "'m \<Rightarrow> remote list \<Rightarrow> bool"
  assumes reconciled: "good m \<Longrightarrow> reconcile rs m = (None, m') \<Longrightarrow> serves m' rs"
    and stays_good: "good m \<Longrightarrow> reconcile rs m = (e, m') \<Longrightarrow> good m'"
begin

lemma apply_serves:
  "good (mgr g) \<Longrightarrow> apply_remotes reconcile rs g = (e, g') \<Longrightarrow>
   good (mgr g') \<and> (e = None \<longrightarrow> serves (mgr g') (Remotes (doc g')))"
  using reconciled stays_good by (auto simp: apply_remotes_def split: prod.splits)

lemma add_commit_serves:
  "good (mgr g) \<Longrightarrow> add_commit reconcile lo so p g = ((v, e), g') \<Longrightarrow>
   good (mgr g') \<and> (e = None \<longrightarrow> serves (mgr g') (Remotes (doc g')))"
  using apply_serves [of g _ e g']
  by (auto simp: add_commit_def apfst_def map_prod_def split: if_splits prod.splits)

lemma Patch_serves:
  "good (mgr g) \<Longrightarrow> Patch reconcile lo so h p g = ((v, e), g', d) \<Longrightarrow>
   good (mgr g') \<and> (e = None \<and> \<not> d \<longrightarrow> serves (mgr g') (Remotes (doc g')))"
  using apply_serves [of g _ e g']
  by (auto simp: Patch_def Let_def split: if_splits prod.splits option.splits)

lemma RemoveHost_serves:
  "good (mgr g) \<Longrightarrow> RemoveHost reconcile lo so h g = ((v, e), g') \<Longrightarrow>
   good (mgr g') \<and> (v \<and> e = None \<longrightarrow> serves (mgr g') (Remotes (doc g')))"
  using apply_serves [of g _ e g']
  by (auto simp: RemoveHost_def apfst_def map_prod_def split: if_splits prod.splits bool.splits)

lemma Resync_serves:
  "good (mgr g) \<Longrightarrow> Resync reconcile lo g = (e, g') \<Longrightarrow>
   good (mgr g') \<and> (e = None \<longrightarrow> serves (mgr g') (Remotes (doc g')))"
  using apply_serves [of g _ e g'] by (auto simp: Resync_def split: if_splits)

end

section \<open>What each operation does to the file\<close>

lemma doc_apply [simp]: "doc (snd (apply_remotes reconcile rs g)) = (doc g)\<lparr>Remotes := rs\<rparr>"
  by (simp add: apply_remotes_def split: prod.splits)

lemma add_commit_cases:
  "add_commit reconcile lo so (r, ex) g = ((v, e), g') \<Longrightarrow>
   (v = None \<and> e \<noteq> None \<and> g' = g)
   \<or> (v = Some r \<and> \<not> pin_conflict (Remotes (doc g)) r ex \<and> doc g' = (doc g)\<lparr>Remotes := Upsert r (Remotes (doc g))\<rparr>)"
  using doc_apply [of reconcile "Upsert r (Remotes (doc g))" g]
  by (auto simp: add_commit_def apfst_def map_prod_def split: if_splits prod.splits simp del: doc_apply)

lemma Patch_cases:
  "Patch reconcile lo so h p g = ((v, e), g', d) \<Longrightarrow>
   (v = None \<and> e \<noteq> None \<and> g' = g \<and> \<not> d)
   \<or> (\<exists>i. Find h (Remotes (doc g)) = Some i \<and> v = Some (patched p (Remotes (doc g) ! i))
        \<and> ValidateRemote (patched p (Remotes (doc g) ! i)) = None
        \<and> doc g' = (doc g)\<lparr>Remotes := (Remotes (doc g))[i := patched p (Remotes (doc g) ! i)]\<rparr>)"
  by (auto simp: Patch_def Let_def apply_remotes_def split: if_splits prod.splits option.splits)

lemma RemoveHost_cases:
  "RemoveHost reconcile lo so h g = ((v, e), g') \<Longrightarrow>
   (\<not> v \<and> g' = g) \<or> (v \<and> fst (Remove h (Remotes (doc g))) \<and> doc g' = (doc g)\<lparr>Remotes := snd (Remove h (Remotes (doc g)))\<rparr>)"
  by (auto simp: RemoveHost_def apply_remotes_def split: if_splits prod.splits bool.splits)

lemma Resync_doc: "doc (snd (Resync reconcile lo g)) = doc g"
  by (simp add: Resync_def)

section \<open>Concurrent requests\<close>

text \<open>
  \<open>pending\<close> holds the Adds between their verification and their transaction, \<open>deferred\<close>
  counts the reconciles waiting out a delay. \<open>approved\<close> records, for the proofs only, the
  pins somebody stood for: a forced Add that names a key, or a verified key whose
  fingerprint the caller repeated. In each step the verifier, the manager and the file
  system answer anything.
\<close>

record ('n, 'm) sys =
  core :: "('n, 'm) reg"
  pending :: "(remote \<times> string) list"
  deferred :: nat
  approved :: "(string \<times> string) set"

definition approval :: "(remote \<Rightarrow> bool \<Rightarrow> err + verify_result) \<Rightarrow> (string \<Rightarrow> string option) \<Rightarrow> bool \<Rightarrow> ('n, 'm) reg
    \<Rightarrow> remote \<Rightarrow> add_options \<Rightarrow> (string \<times> string) set" where
  "approval verify fp conn g r opts =
     (if Force opts then {(host_key r, HostKey r)}
      else (case verify (asked g r) conn of
              Inl e \<Rightarrow> {}
            | Inr v \<Rightarrow> if Verified v \<and> fp (vHostKey v) = Some (AcceptFingerprint opts)
                       then {(host_key r, vHostKey v)} else {}))"

inductive reg_step :: "('n, 'm) sys \<Rightarrow> ('n, 'm) sys \<Rightarrow> bool" where
  verified: "add_prepare verify fp lo conn (core s) r opts = Inr p \<Longrightarrow>
     reg_step s (s\<lparr>pending := p # pending s, approved := approved s \<union> approval verify fp conn (core s) r opts\<rparr>)"
| committed: "p \<in> set (pending s) \<Longrightarrow> add_commit reconcile lo so p (core s) = (res, g) \<Longrightarrow>
     reg_step s (s\<lparr>core := g, pending := remove1 p (pending s)\<rparr>)"
| patched: "Patch reconcile lo so h p (core s) = (res, g, d) \<Longrightarrow>
     reg_step s (s\<lparr>core := g, deferred := (if d then Suc (deferred s) else deferred s)\<rparr>)"
| removed: "RemoveHost reconcile lo so h (core s) = (res, g) \<Longrightarrow> reg_step s (s\<lparr>core := g\<rparr>)"
| resynced: "Resync reconcile lo (core s) = (res, g) \<Longrightarrow> reg_step s (s\<lparr>core := g\<rparr>)"
| deferred_fires: "0 < deferred s \<Longrightarrow> Resync reconcile lo (core s) = (res, g) \<Longrightarrow>
     reg_step s (s\<lparr>core := g, deferred := deferred s - 1\<rparr>)"

inductive reg_run :: "('n, 'm) reg \<Rightarrow> ('n, 'm) sys \<Rightarrow> bool" for g0 where
  start: "reg_run g0 \<lparr>core = g0, pending = [], deferred = 0, approved = {}\<rparr>"
| move: "reg_run g0 s \<Longrightarrow> reg_step s s' \<Longrightarrow> reg_run g0 s'"

inductive_cases reg_stepE: "reg_step s s'"

definition pins :: "remote list \<Rightarrow> (string \<times> string) set" where
  "pins rs = {(host_key r, HostKey r) | r. r \<in> set rs \<and> HostKey r \<noteq> []}"

definition sound_file :: "remote list \<Rightarrow> bool" where
  "sound_file rs \<longleftrightarrow> hosts_unique rs \<and> (\<forall>r \<in> set rs. ValidateRemote r = None)"

definition reg_inv :: "('n, 'm) reg \<Rightarrow> ('n, 'm) sys \<Rightarrow> bool" where
  "reg_inv g0 s \<longleftrightarrow> pins (Remotes (doc (core s))) \<subseteq> pins (Remotes (doc g0)) \<union> approved s
     \<and> (\<forall>p \<in> set (pending s). (HostKey (fst p) \<noteq> [] \<longrightarrow>
           (host_key (fst p), HostKey (fst p)) \<in> pins (Remotes (doc g0)) \<union> approved s)
         \<and> ValidateRemote (fst p) = None)
     \<and> (sound_file (Remotes (doc g0)) \<longrightarrow> sound_file (Remotes (doc (core s))))
     \<and> unknown (doc (core s)) = unknown (doc g0)"

lemma set_Upsert: "x \<in> set (Upsert r rs) \<Longrightarrow> x = r \<or> x \<in> set rs"
  by (auto simp: Upsert_def split: option.splits dest: set_update_subset_insert [THEN subsetD])

lemma set_Remove: "set (snd (Remove h rs)) \<subseteq> set rs"
  by (auto simp: Remove_def split: option.splits dest: in_set_takeD in_set_dropD)

lemma pins_storedHostKey:
  "storedHostKey rs h \<noteq> [] \<Longrightarrow> (to_lower h, storedHostKey rs h) \<in> pins rs"
  unfolding storedHostKey_def pins_def
  by (auto split: option.splits dest!: Find_by_host) (metis nth_mem)

lemma sound_Upsert: "sound_file rs \<Longrightarrow> ValidateRemote r = None \<Longrightarrow> sound_file (Upsert r rs)"
  by (auto simp: sound_file_def hosts_unique_Upsert dest: set_Upsert)

lemma sound_Remove: "sound_file rs \<Longrightarrow> sound_file (snd (Remove h rs))"
  using by_host_Remove [of rs h] set_Remove [of h rs] by (auto simp: sound_file_def)

lemma patched_fields [simp]: "Host (patched p r) = Host r" "HostKey (patched p r) = HostKey r" "host_key (patched p r) = host_key r"
  by (simp_all add: patched_def host_key_def)

lemma patched_entry:
  assumes "Find h rs = Some i"
  shows "pins (rs[i := patched p (rs ! i)]) \<subseteq> pins rs"
    and "sound_file rs \<Longrightarrow> ValidateRemote (patched p (rs ! i)) = None \<Longrightarrow> sound_file (rs[i := patched p (rs ! i)])"
proof -
  have i: "i < length rs" "host_key (rs ! i) = to_lower h" using Find_by_host [OF assms] by auto
  have keys: "map host_key (rs[i := patched p (rs ! i)]) = map host_key rs"
    using host_keys_update [OF assms] i(2) by simp
  have mem: "x \<in> set (rs[i := patched p (rs ! i)]) \<Longrightarrow> x = patched p (rs ! i) \<or> x \<in> set rs" for x
    using set_update_subset_insert by fastforce
  show "pins (rs[i := patched p (rs ! i)]) \<subseteq> pins rs"
    using mem i(1) by (auto simp: pins_def) (metis nth_mem patched_fields(2,3))
  show "sound_file rs \<Longrightarrow> ValidateRemote (patched p (rs ! i)) = None \<Longrightarrow> sound_file (rs[i := patched p (rs ! i)])"
    using mem keys by (auto simp: sound_file_def hosts_unique_def)
qed

lemma prepared_approved:
  assumes "add_prepare verify fp lo conn g r opts = Inr (q, ex)" "HostKey q \<noteq> []"
  shows "(host_key q, HostKey q) \<in> pins (Remotes (doc g)) \<union> approval verify fp conn g r opts"
proof -
  note a = add_prepare_Inr [OF assms(1)]
  have stored: "ex \<noteq> [] \<Longrightarrow> (host_key q, ex) \<in> pins (Remotes (doc g))"
    using pins_storedHostKey a(1,2) by (simp add: host_key_def)
  show ?thesis
  proof (cases "Force opts")
    case True
    then show ?thesis using a(5) stored assms(2) a(1,2) by (auto simp: approval_def asked_def split: if_splits)
  next
    case False
    then obtain v where v: "verify (asked g r) conn = Inr v" "decide_pin fp opts (Host r) ex v = Inr (HostKey q)"
      using a(6) by blast
    from decide_pin_Inr [OF v(2)] show ?thesis
      using stored assms(2) v(1) False a(2) by (auto simp: approval_def)
  qed
qed

text \<open>One preservation lemma per kind of step.\<close>

lemma reg_inv_core:
  assumes "reg_inv g0 s"
    and "pins (Remotes (doc g)) \<subseteq> pins (Remotes (doc g0)) \<union> approved s"
    and "sound_file (Remotes (doc (core s))) \<Longrightarrow> sound_file (Remotes (doc g))"
    and "unknown (doc g) = unknown (doc (core s))" and "set P \<subseteq> set (pending s)"
  shows "reg_inv g0 (s\<lparr>core := g, pending := P, deferred := n\<rparr>)"
  using assms by (auto simp: reg_inv_def)

lemma reg_inv_verified:
  assumes "reg_inv g0 s" "add_prepare verify fp lo conn (core s) r opts = Inr p"
  shows "reg_inv g0 (s\<lparr>pending := p # pending s, approved := approved s \<union> approval verify fp conn (core s) r opts\<rparr>)"
proof -
  obtain q ex where p: "p = (q, ex)" by (cases p)
  then have "HostKey q \<noteq> [] \<longrightarrow> (host_key q, HostKey q)
      \<in> pins (Remotes (doc g0)) \<union> (approved s \<union> approval verify fp conn (core s) r opts)"
    using prepared_approved assms by (fastforce simp: reg_inv_def)
  moreover have "ValidateRemote q = None" using add_prepare_Inr(4) assms(2) p by blast
  ultimately show ?thesis using assms(1) p by (auto simp: reg_inv_def)
qed

lemma reg_inv_committed:
  assumes "reg_inv g0 s" "p \<in> set (pending s)" "add_commit reconcile lo so p (core s) = (res, g)"
  shows "reg_inv g0 (s\<lparr>core := g, pending := remove1 p (pending s)\<rparr>)"
proof -
  obtain q ex v e where p: "p = (q, ex)" "res = (v, e)" by (cases p, cases res)
  have sub: "set (remove1 p (pending s)) \<subseteq> set (pending s)" by (rule set_remove1_subset)
  have q: "HostKey q \<noteq> [] \<longrightarrow> (host_key q, HostKey q) \<in> pins (Remotes (doc g0)) \<union> approved s"
    "ValidateRemote q = None" using assms(1,2) p by (auto simp: reg_inv_def)
  consider "g = core s" | "doc g = (doc (core s))\<lparr>Remotes := Upsert q (Remotes (doc (core s)))\<rparr>"
    using add_commit_cases assms(3) p by blast
  then have "reg_inv g0 (s\<lparr>core := g, pending := remove1 p (pending s), deferred := deferred s\<rparr>)"
  proof cases
    case 1
    then show ?thesis using assms(1) sub by (intro reg_inv_core) (auto simp: reg_inv_def)
  next
    case 2
    have "pins (Upsert q rs) \<subseteq> pins rs \<union> (if HostKey q = [] then {} else {(host_key q, HostKey q)})" for rs
      by (auto simp: pins_def dest!: set_Upsert)
    then have "pins (Remotes (doc g)) \<subseteq> pins (Remotes (doc g0)) \<union> approved s"
      using 2 q(1) assms(1) by (fastforce simp: reg_inv_def split: if_splits)
    then show ?thesis using assms(1) sub 2 q(2) sound_Upsert by (intro reg_inv_core) auto
  qed
  then show ?thesis by simp
qed

lemma reg_inv_step: "reg_step s s' \<Longrightarrow> reg_inv g0 s \<Longrightarrow> reg_inv g0 s'"
proof (induction rule: reg_step.induct)
  case (patched reconcile lo so h p s res g d)
  obtain v e where res: "res = (v, e)" by (cases res)
  have old: "pins (Remotes (doc (core s))) \<subseteq> pins (Remotes (doc g0)) \<union> approved s"
    using patched.prems by (simp add: reg_inv_def)
  consider "g = core s"
    | i where "Find h (Remotes (doc (core s))) = Some i" "ValidateRemote (patched p (Remotes (doc (core s)) ! i)) = None"
        "doc g = (doc (core s))\<lparr>Remotes := (Remotes (doc (core s)))[i := patched p (Remotes (doc (core s)) ! i)]\<rparr>"
    using Patch_cases patched.hyps res by blast
  then have "reg_inv g0 (s\<lparr>core := g, pending := pending s, deferred := (if d then Suc (deferred s) else deferred s)\<rparr>)"
  proof cases
    case 1
    then show ?thesis using patched.prems old by (intro reg_inv_core) auto
  next
    case 2
    show ?thesis using patched.prems patched_entry [OF 2(1), of p] 2 old by (intro reg_inv_core) auto
  qed
  then show ?case by simp
next
  case (removed reconcile lo so h s res g)
  obtain v e where res: "res = (v, e)" by (cases res)
  have old: "pins (Remotes (doc (core s))) \<subseteq> pins (Remotes (doc g0)) \<union> approved s"
    using removed.prems by (simp add: reg_inv_def)
  have "pins (snd (Remove h rs)) \<subseteq> pins rs" for rs using set_Remove [of h rs] by (auto simp: pins_def)
  then have "reg_inv g0 (s\<lparr>core := g, pending := pending s, deferred := deferred s\<rparr>)"
    using RemoveHost_cases [of reconcile lo so h "core s" v e g] removed res old sound_Remove
    by (intro reg_inv_core) (auto, fastforce+)
  then show ?case by simp
next
  case (resynced reconcile lo s res g)
  then have "doc g = doc (core s)" using Resync_doc by (metis snd_conv)
  then show ?case using resynced.prems by (simp add: reg_inv_def)
next
  case (deferred_fires s reconcile lo res g)
  then have "doc g = doc (core s)" using Resync_doc by (metis snd_conv)
  then show ?case using deferred_fires.prems by (simp add: reg_inv_def)
qed (use reg_inv_verified reg_inv_committed in blast)+

lemma reg_inv_start: "reg_inv g0 \<lparr>core = g0, pending = [], deferred = 0, approved = {}\<rparr>"
  by (simp add: reg_inv_def)

section \<open>Properties\<close>

text \<open>
  C12. Whatever requests interleave and whatever verifiers, managers and file accesses answer,
  every pin in the file was there at the start or was approved: named by a forced Add, or
  verified with its own fingerprint repeated by the caller. Host names stay unique up to
  case, entries stay valid, and unknown sections of the file stay.
\<close>
theorem pin_provenance:
  assumes "reg_run g0 s"
  shows "pins (Remotes (doc (core s))) \<subseteq> pins (Remotes (doc g0)) \<union> approved s
    \<and> (sound_file (Remotes (doc g0)) \<longrightarrow> sound_file (Remotes (doc (core s))))
    \<and> unknown (doc (core s)) = unknown (doc g0)"
proof -
  have "reg_inv g0 s" using assms
  proof induction
    case start
    then show ?case by (rule reg_inv_start)
  next
    case (move s s')
    then show ?case using reg_inv_step by blast
  qed
  then show ?thesis by (simp add: reg_inv_def)
qed

text \<open>
  C14. An Add is atomic at its transaction: whatever happened between its verification and its
  commit, if the commit succeeds then running the whole Add at that moment, with the same
  answer of the verifier, does exactly the same. The one exception is a pinned host removed
  in between, which the late commit brings back with the old pin.
\<close>
theorem Add_linearizable:
  assumes "add_prepare verify fp lo conn g1 r opts = Inr p"
    and "add_commit reconcile True so p g2 = ((Some q, e), g3)"
    and "Find (Host r) (Remotes (doc g2)) \<noteq> None \<or> snd p = []"
  shows "Add reconcile verify fp True True so conn r opts g2 = ((Some q, e), g3)"
proof -
  obtain r' ex where p: "p = (r', ex)" by (cases p)
  have host: "Host r' = Host r" and ex: "ex = storedHostKey (Remotes (doc g1)) (Host r)"
    using add_prepare_Inr(1,3) assms(1) p by blast+
  have "\<not> pin_conflict (Remotes (doc g2)) r' ex" using assms(2) p by (auto simp: add_commit_def split: if_splits)
  then have same: "storedHostKey (Remotes (doc g2)) (Host r) = ex"
    using assms(3) p host by (auto simp: pin_conflict_def storedHostKey_def split: option.splits)
  then have "asked g2 r = asked g1 r" by (simp add: asked_def ex)
  moreover have "lo" using assms(1) by (auto simp: add_prepare_eq split: option.splits if_splits)
  ultimately have "add_prepare verify fp True conn g2 r opts = Inr p"
    using assms(1) same by (simp only: add_prepare_eq ex)
  then show ?thesis using assms(2) by (simp add: Add_def)
qed

interpretation live: verifier "daemon_verify L cas insecure signers username P tmp_ok localname"
  for L cas insecure signers username P tmp_ok localname
  by unfold_locales (auto simp: daemon_verify_def daemon_policy_def dest!: Verify_cases)


text \<open>
  Finding: a key the caller supplies is checked but never stored. An unforced Add of a host
  that is not in the file, with the host's own key in the request, verifies against that
  key and then commits the entry without any pin.
\<close>
theorem explicit_pin_is_dropped:
  fixes g :: "('n, 'm) reg"
  assumes "HostKey r \<noteq> []" "\<not> Force opts" "Find (Host r) (Remotes (doc g)) = None"
    and "Add reconcile (daemon_verify L cas insecure signers username P tmp_ok localname) fp l1 l2 so conn r opts g
           = ((Some q, e), g')"
  shows "HostKey q = []"
proof -
  obtain q' ex where p: "add_prepare (daemon_verify L cas insecure signers username P tmp_ok localname) fp l1 conn g r opts = Inr (q', ex)"
      "add_commit reconcile l2 so (q', ex) g = ((Some q, e), g')"
    using assms(4) by (auto simp: Add_def split: sum.splits)
  then have "HostKey q' = ex" using live.pinned_keeps_pin assms(1,2) by blast
  then show ?thesis
    using add_commit_cases [OF p(2)] add_prepare_Inr(1) [OF p(1)] assms(3) by (auto simp: storedHostKey_def)
qed

section \<open>Instances\<close>

definition demo_lib :: "(string, unit) sshlib" where
  "demo_lib = \<lparr>ParseAuthorizedKey = (\<lambda>s. if s = [] then None else Some (PlainKey s)),
     MarshalAuthorizedKey = (\<lambda>k. case k of PlainKey s \<Rightarrow> s | Certificate c \<Rightarrow> ''cert''),
     FingerprintSHA256 = (\<lambda>k. case k of PlainKey s \<Rightarrow> ''fp-'' @ s | Certificate c \<Rightarrow> ''fp''),
     known_hosts = (\<lambda>t. None)\<rparr>"

definition demo_peer :: "string \<Rightarrow> (string, unit) peer" where
  "demo_peer k = \<lparr>tcp = None, hello = None, offers = PlainKey k, after_key = None, auth_text = (\<lambda>e. False),
     cancelled = False, home_probe = Some ''/h'', mkdir_fails = None, bind_fails = None\<rparr>"

definition demo_fp :: "string \<Rightarrow> string option" where
  "demo_fp s = map_option (FingerprintSHA256 demo_lib) (ParseAuthorizedKey demo_lib s)"

definition demo_remote :: "string \<Rightarrow> remote" where
  "demo_remote k = \<lparr>Host = ''a.b'', Port = 0, RemoteSocket = ''/run/s'', HostKey = k, Enabled = None\<rparr>"

definition demo_reg :: "remote list \<Rightarrow> (unit, remote list) reg" where
  "demo_reg rs = \<lparr>doc = \<lparr>Remotes = rs, unknown = []\<rparr>, mgr = rs\<rparr>"

definition demo_reconcile :: "remote list \<Rightarrow> remote list \<Rightarrow> err option \<times> remote list" where
  "demo_reconcile rs m = (None, rs)"

definition demo_opts :: "string \<Rightarrow> add_options" where
  "demo_opts a = \<lparr>Force = False, AcceptFingerprint = a\<rparr>"

definition demo_verify :: "string \<Rightarrow> remote \<Rightarrow> bool \<Rightarrow> err + verify_result" where
  "demo_verify k = daemon_verify demo_lib [] False (Inr 1) ''u'' (demo_peer k) True (Some ''ws'')"

lemmas demo_ssh_defs = demo_lib_def demo_peer_def demo_fp_def demo_remote_def demo_reg_def demo_reconcile_def
  demo_opts_def demo_verify_def

lemma demo_first_use: "Add demo_reconcile (demo_verify ''k'') demo_fp True True True False (demo_remote []) (demo_opts []) (demo_reg [])
    = ((None, Some (ConfirmHostKey ''a.b'' ''fp-k'')), demo_reg [])"
  by code_simp

lemma demo_repeat: "add_prepare (demo_verify ''k'') demo_fp True False (demo_reg []) (demo_remote []) (demo_opts ''fp-k'')
    = Inr (demo_remote ''k'', [])"
  by code_simp

section \<open>Witnesses\<close>

theorem pin_provenance_witness:
  "\<exists>s :: (unit, remote list) sys. reg_run (demo_reg []) s \<and> Remotes (doc (core s)) = [demo_remote ''k'']
     \<and> pins (Remotes (doc (core s))) \<subseteq> {(''a.b'', ''k'')} \<and> sound_file (Remotes (doc (core s)))"
proof -
  define p where "p = (demo_remote ''k'', [] :: string)"
  define s0 :: "(unit, remote list) sys" where "s0 = \<lparr>core = demo_reg [], pending = [], deferred = 0, approved = {}\<rparr>"
  define s1 where "s1 = s0\<lparr>pending := p # pending s0, approved := approved s0 \<union>
      approval (demo_verify ''k'') demo_fp False (core s0) (demo_remote []) (demo_opts ''fp-k'')\<rparr>"
  define s2 where "s2 = s1\<lparr>core := demo_reg [demo_remote ''k''], pending := remove1 p (pending s1)\<rparr>"
  have core: "core s0 = demo_reg []" "core s1 = demo_reg []" "p \<in> set (pending s1)"
    by (simp_all add: s0_def s1_def)
  have "approval (demo_verify ''k'') demo_fp False (demo_reg [] :: (unit, remote list) reg) (demo_remote []) (demo_opts ''fp-k'')
      = {(''a.b'', ''k'')}" by code_simp
  then have ap: "approved s2 = {(''a.b'', ''k'')}" by (simp add: s2_def s1_def core(1)) (simp add: s0_def)
  have "reg_step s0 s1"
    unfolding s1_def by (rule reg_step.verified [where lo = True]) (simp only: core p_def demo_repeat)
  moreover have "add_commit demo_reconcile True True p (core s1) = ((Some (demo_remote ''k''), None), demo_reg [demo_remote ''k''])"
    unfolding core p_def by code_simp
  then have "reg_step s1 s2" unfolding s2_def by (rule reg_step.committed [OF core(3)])
  moreover have "reg_run (demo_reg []) s0" unfolding s0_def by (rule reg_run.start)
  ultimately have run: "reg_run (demo_reg []) s2" using reg_run.move by blast
  have "sound_file (Remotes (doc (demo_reg [] :: (unit, remote list) reg)))" "Remotes (doc (core s2)) = [demo_remote ''k'']"
      "pins (Remotes (doc (demo_reg [] :: (unit, remote list) reg))) = {}"
    by (simp_all add: s2_def demo_reg_def sound_file_def hosts_unique_def pins_def)
  then show ?thesis using pin_provenance [OF run] run ap by (intro exI [of _ s2]) simp
qed

theorem Add_linearizable_witness:
  "Add demo_reconcile (demo_verify ''k'') demo_fp True True True False (demo_remote []) (demo_opts ''fp-k'')
      (demo_reg [] :: (unit, remote list) reg)
   = ((Some (demo_remote ''k''), None), demo_reg [demo_remote ''k''])"
proof (rule Add_linearizable)
  show "add_prepare (demo_verify ''k'') demo_fp True False (demo_reg [] :: (unit, remote list) reg) (demo_remote []) (demo_opts ''fp-k'')
      = Inr (demo_remote ''k'', [])" by code_simp
  show "add_commit demo_reconcile True True (demo_remote ''k'', []) (demo_reg [] :: (unit, remote list) reg)
      = ((Some (demo_remote ''k''), None), demo_reg [demo_remote ''k''])" by code_simp
qed simp


theorem explicit_pin_is_dropped_witness:
  "\<exists>q e g'. Add demo_reconcile (demo_verify ''k'') demo_fp True True True False (demo_remote ''k'') (demo_opts [])
      (demo_reg [] :: (unit, remote list) reg) = ((Some q, e), g') \<and> HostKey q = []"
proof -
  have a: "Add demo_reconcile (demo_verify ''k'') demo_fp True True True False (demo_remote ''k'') (demo_opts [])
      (demo_reg [] :: (unit, remote list) reg) = ((Some (demo_remote []), None), demo_reg [demo_remote []])"
    by code_simp
  have "HostKey (demo_remote []) = []"
    by (rule explicit_pin_is_dropped [OF _ _ _ a [unfolded demo_verify_def]]) (simp_all add: demo_ssh_defs Find_def)
  with a show ?thesis by blast
qed

end
