(* ===== verification/SSHManager.thy ===== *)
theory SSHManager
  imports SSHRegistry
begin

text \<open>
  \<open>internal/sshfwd/manager.go\<close>: the running set and its reconciliation with the configured
  entries. It provides the interface \<open>reconciler\<close> of the registry.
\<close>

section \<open>The running set\<close>

text \<open>
  \<open>started\<close> identifies the goroutine of a remote (unused while it is not running); \<open>live\<close>
  is the set of goroutines started and not yet stopped, each with its host.
\<close>

record mremote =
  mcfg :: remote
  running :: bool
  started :: nat

record manager =
  remotes :: "string \<Rightarrow> mremote option"
  closed :: bool
  fresh :: nat
  live :: "(nat \<times> string) set"

definition NewManager :: manager where
  "NewManager = \<lparr>remotes = Map.empty, closed = False, fresh = 0, live = {}\<rparr>"

definition normalizeHost :: "string \<Rightarrow> string" where
  "normalizeHost host = to_lower host"

text \<open>The desired entries by normalised host; an error for an invalid or a repeated one.\<close>

fun invalid_remote :: "remote list \<Rightarrow> bool" where
  "invalid_remote [] = False"
| "invalid_remote (r # rs) = (ValidateRemote r \<noteq> None \<or> invalid_remote rs)"

fun desired_from :: "remote list \<Rightarrow> (string \<Rightarrow> remote option) \<Rightarrow> (string \<Rightarrow> remote option) option" where
  "desired_from [] d = Some d"
| "desired_from (r # rs) d =
     (case d (normalizeHost (Host r)) of
        Some dup \<Rightarrow> None
      | None \<Rightarrow> desired_from rs (d(normalizeHost (Host r) \<mapsto> r)))"

definition victim :: "(string \<Rightarrow> remote option) \<Rightarrow> string \<Rightarrow> mremote \<Rightarrow> bool" where
  "victim desired key mr =
     (case desired key of
        None \<Rightarrow> True
      | Some want \<Rightarrow>
          if \<not> EnabledOrDefault want then running mr \<or> \<not> sameAs (mcfg mr) want
          else \<not> sameAs (mcfg mr) want)"

definition runners :: "(string \<Rightarrow> mremote option) \<Rightarrow> (nat \<times> string) set" where
  "runners rm = {p. case rm (snd p) of None \<Rightarrow> False | Some mr \<Rightarrow> running mr \<and> started mr = fst p}"

text \<open>Phase 1, under the lock: the victims leave the map. Phase 2 stops them outside it.\<close>

definition take_victims :: "(string \<Rightarrow> remote option) \<Rightarrow> manager \<Rightarrow> manager \<times> (nat \<times> string) set" where
  "take_victims desired m =
     (let gone = (\<lambda>key. case remotes m key of None \<Rightarrow> None | Some mr \<Rightarrow> if victim desired key mr then Some mr else None);
          kept = (\<lambda>key. case remotes m key of None \<Rightarrow> None | Some mr \<Rightarrow> if victim desired key mr then None else Some mr)
      in (m\<lparr>remotes := kept\<rparr>, runners gone))"

definition stop_runners :: "(nat \<times> string) set \<Rightarrow> manager \<Rightarrow> manager" where
  "stop_runners V m = m\<lparr>live := live m - V\<rparr>"

text \<open>Phase 3, under the lock again: start what is desired and missing.\<close>

definition start_remote :: "remote \<Rightarrow> manager \<Rightarrow> manager" where
  "start_remote r m =
     (let key = normalizeHost (Host r) in
      case remotes m key of
        Some mr \<Rightarrow> m
      | None \<Rightarrow>
          if \<not> EnabledOrDefault r
          then m\<lparr>remotes := (remotes m)(key \<mapsto> \<lparr>mcfg = r, running = False, started = 0\<rparr>)\<rparr>
          else m\<lparr>remotes := (remotes m)(key \<mapsto> \<lparr>mcfg = r, running = True, started = fresh m\<rparr>),
                 fresh := Suc (fresh m), live := insert (fresh m, key) (live m)\<rparr>)"

definition start_missing :: "remote list \<Rightarrow> manager \<Rightarrow> manager" where
  "start_missing rs m = fold start_remote rs m"

definition Reconcile :: "remote list \<Rightarrow> manager \<Rightarrow> err option \<times> manager" where
  "Reconcile rs m =
     (if invalid_remote rs then (Some [Text ''invalid remote''], m)
      else (case desired_from rs Map.empty of
              None \<Rightarrow> (Some [Text ''duplicate remote host''], m)
            | Some desired \<Rightarrow>
                if closed m then (Some [Text ''Reconcile called after Close''], m)
                else (case take_victims desired m of
                        (m1, V) \<Rightarrow> (None, start_missing rs (stop_runners V m1)))))"

definition Close :: "manager \<Rightarrow> manager" where
  "Close m = stop_runners (runners (remotes m)) (m\<lparr>closed := True, remotes := Map.empty\<rparr>)"

section \<open>Facts about one reconcile\<close>

definition good_manager :: "manager \<Rightarrow> bool" where
  "good_manager m \<longleftrightarrow>
     (\<forall>key mr. remotes m key = Some mr \<longrightarrow> host_key (mcfg mr) = key \<and> (running mr \<longleftrightarrow> EnabledOrDefault (mcfg mr)))
     \<and> runners (remotes m) \<subseteq> live m \<and> (\<forall>p \<in> live m. fst p < fresh m)
     \<and> (closed m \<longrightarrow> remotes m = Map.empty)"

definition serves :: "manager \<Rightarrow> remote list \<Rightarrow> bool" where
  "serves m rs \<longleftrightarrow>
     (\<forall>key. case by_host rs key of
              None \<Rightarrow> remotes m key = None
            | Some r \<Rightarrow> \<exists>mr. remotes m key = Some mr \<and> sameAs (mcfg mr) r \<and> (running mr \<longleftrightarrow> EnabledOrDefault r))"

lemma normalize_key: "normalizeHost (Host r) = host_key r"
  by (simp add: normalizeHost_def host_key_def)

lemma sameAs_refl [simp]: "sameAs r r"
  by (simp add: sameAs_def)

lemma sameAs_enabled: "sameAs r q \<Longrightarrow> EnabledOrDefault r = EnabledOrDefault q"
  and sameAs_key: "sameAs r q \<Longrightarrow> host_key r = host_key q"
  by (simp_all add: sameAs_def host_key_def equal_fold_def)

lemma desired_from_Some:
  "desired_from rs d = Some e \<Longrightarrow> hosts_unique rs \<and> (\<forall>r \<in> set rs. d (host_key r) = None)
     \<and> e = (\<lambda>key. case by_host rs key of Some r \<Rightarrow> Some r | None \<Rightarrow> d key)"
proof (induction rs arbitrary: d)
  case (Cons r rs)
  have none: "d (host_key r) = None" and rec: "desired_from rs (d(host_key r \<mapsto> r)) = Some e"
    using Cons.prems by (auto simp: normalize_key split: option.splits)
  note IH = Cons.IH [OF rec]
  have "host_key r \<notin> host_key ` set rs" using IH by auto
  moreover have "\<forall>q \<in> set rs. d (host_key q) = None" using IH by (auto split: if_splits)
  ultimately show ?case using IH none
    by (auto simp: hosts_unique_def by_host_Cons fun_eq_iff by_host_None split: option.splits)
qed (simp add: hosts_unique_def)

lemma desired_from_by_host: "desired_from rs Map.empty = Some d \<Longrightarrow> hosts_unique rs \<and> d = by_host rs"
  by (auto dest!: desired_from_Some simp: fun_eq_iff split: option.splits)

lemma desired_from_None: "hosts_unique rs \<Longrightarrow> \<forall>r \<in> set rs. d (host_key r) = None \<Longrightarrow> desired_from rs d \<noteq> None"
proof (induction rs arbitrary: d)
  case (Cons r rs)
  then have "desired_from rs (d(host_key r \<mapsto> r)) \<noteq> None"
    by (intro Cons.IH) (auto simp: hosts_unique_def image_iff)
  then show ?case using Cons.prems by (simp add: normalize_key)
qed simp

lemma start_remote_remotes:
  "remotes (start_remote r m) key =
     (if key = host_key r \<and> remotes m key = None
      then Some \<lparr>mcfg = r, running = EnabledOrDefault r, started = (if EnabledOrDefault r then fresh m else 0)\<rparr>
      else remotes m key)"
  by (auto simp: start_remote_def Let_def normalize_key split: option.splits)

lemma start_missing_simps [simp]: "start_missing [] m = m" "start_missing (r # rs) m = start_missing rs (start_remote r m)"
  by (simp_all add: start_missing_def)

lemma start_missing_kept: "remotes m key = Some mr \<Longrightarrow> remotes (start_missing rs m) key = Some mr"
  by (induction rs arbitrary: m) (auto simp: start_missing_def start_remote_remotes)

lemma start_missing_new:
  "hosts_unique rs \<Longrightarrow> remotes m key = None \<Longrightarrow>
   (case by_host rs key of
      None \<Rightarrow> remotes (start_missing rs m) key = None
    | Some r \<Rightarrow> \<exists>n. remotes (start_missing rs m) key = Some \<lparr>mcfg = r, running = EnabledOrDefault r, started = n\<rparr>)"
proof (induction rs arbitrary: m)
  case (Cons r rs)
  show ?case
  proof (cases "host_key r = key")
    case True
    then obtain n where n: "remotes (start_remote r m) key = Some \<lparr>mcfg = r, running = EnabledOrDefault r, started = n\<rparr>"
      using Cons.prems by (simp add: start_remote_remotes)
    then have "remotes (start_missing rs (start_remote r m)) key = Some \<lparr>mcfg = r, running = EnabledOrDefault r, started = n\<rparr>"
      by (rule start_missing_kept)
    then show ?thesis using True by (simp add: by_host_Cons start_missing_def)
  next
    case False
    then have "remotes (start_remote r m) key = None" using Cons.prems by (simp add: start_remote_remotes)
    moreover have "hosts_unique rs" using Cons.prems by (simp add: hosts_unique_def)
    ultimately have "case by_host rs key of
        None \<Rightarrow> remotes (start_missing rs (start_remote r m)) key = None
      | Some r' \<Rightarrow> \<exists>n. remotes (start_missing rs (start_remote r m)) key = Some \<lparr>mcfg = r', running = EnabledOrDefault r', started = n\<rparr>"
      using Cons.IH by blast
    then show ?thesis using False by (simp only: by_host_Cons start_missing_simps if_False)
  qed
qed (simp add: start_missing_def)

lemma runners_iff: "(n, key) \<in> runners rm \<longleftrightarrow> (\<exists>mr. rm key = Some mr \<and> running mr \<and> started mr = n)"
  by (simp add: runners_def split: option.splits)

lemma closed_start [simp]: "closed (start_remote r m) = closed m" "closed (start_missing rs m) = closed m"
  by (simp_all add: start_remote_def Let_def split: option.splits)
    (induction rs arbitrary: m, simp_all add: start_remote_def Let_def split: option.splits)

lemma runners_new:
  "rm key = None \<Longrightarrow> runners (rm(key \<mapsto> mr)) = (if running mr then insert (started mr, key) (runners rm) else runners rm)"
  by (auto simp: runners_iff split: if_splits)

lemma good_start_remote:
  assumes "good_manager m" "\<not> closed m"
  shows "good_manager (start_remote r m)"
proof (cases "remotes m (host_key r)")
  case None
  with assms show ?thesis
    by (cases "EnabledOrDefault r")
      (auto simp: good_manager_def start_remote_def Let_def normalize_key runners_new less_SucI split: if_splits)
qed (use assms in \<open>simp add: start_remote_def Let_def normalize_key\<close>)

lemma good_start_missing: "good_manager m \<Longrightarrow> \<not> closed m \<Longrightarrow> good_manager (start_missing rs m)"
  by (induction rs arbitrary: m) (auto simp: good_start_remote)

lemma live_start_missing:
  "live m = runners (remotes m) \<union> X \<Longrightarrow> live (start_missing rs m) = runners (remotes (start_missing rs m)) \<union> X"
proof (induction rs arbitrary: m)
  case (Cons r rs)
  have "live (start_remote r m) = runners (remotes (start_remote r m)) \<union> X"
    using Cons.prems by (auto simp: start_remote_def Let_def runners_new split: option.splits)
  then show ?case using Cons.IH by simp
qed simp

lemma take_victims_runners:
  assumes "take_victims d m = (m1, V)"
  shows "runners (remotes m) = runners (remotes m1) \<union> V" "runners (remotes m1) \<inter> V = {}"
    "live m1 = live m" "fresh m1 = fresh m" "closed m1 = closed m"
    "remotes m1 key = (case remotes m key of None \<Rightarrow> None | Some mr \<Rightarrow> if victim d key mr then None else Some mr)"
  using assms by (auto simp: take_victims_def Let_def runners_iff split: option.splits if_splits)

lemma good_take_victims:
  assumes "good_manager m" "take_victims d m = (m1, V)"
  shows "good_manager m1" "good_manager (stop_runners V m1)"
  using assms(1) take_victims_runners [OF assms(2)]
  by (auto simp: good_manager_def stop_runners_def fun_eq_iff split: option.splits if_splits)

lemma Reconcile_ok:
  assumes "Reconcile rs m = (None, m')"
  shows "\<not> closed m" "hosts_unique rs"
    "\<exists>m1 V. take_victims (by_host rs) m = (m1, V) \<and> m' = start_missing rs (stop_runners V m1)"
  using assms desired_from_by_host
  by (auto simp: Reconcile_def split: if_splits option.splits prod.splits dest: desired_from_by_host)

lemma Reconcile_good: "good_manager m \<Longrightarrow> Reconcile rs m = (e, m') \<Longrightarrow> good_manager m'"
proof (cases e)
  case None
  assume g: "good_manager m" and r: "Reconcile rs m = (e, m')"
  from Reconcile_ok [OF r [unfolded None]] obtain m1 V where
    m1: "\<not> closed m" "take_victims (by_host rs) m = (m1, V)" "m' = start_missing rs (stop_runners V m1)" by blast
  have "\<not> closed (stop_runners V m1)" using take_victims_runners(5) [OF m1(2)] m1(1) by (simp add: stop_runners_def)
  then show ?thesis using good_take_victims(2) [OF g m1(2)] m1(3) good_start_missing by simp
qed (auto simp: Reconcile_def split: if_splits option.splits prod.splits)

lemma Reconcile_key:
  assumes "good_manager m" "Reconcile rs m = (None, m')"
  shows "case by_host rs key of
           None \<Rightarrow> remotes m' key = None
         | Some r \<Rightarrow> (\<exists>mr. remotes m' key = Some mr \<and> sameAs (mcfg mr) r \<and> (running mr \<longleftrightarrow> EnabledOrDefault r))
             \<and> (\<forall>mr. remotes m key = Some mr \<and> sameAs (mcfg mr) r \<longrightarrow> remotes m' key = Some mr)"
proof -
  from Reconcile_ok [OF assms(2)] obtain m1 V where m1: "hosts_unique rs"
    "take_victims (by_host rs) m = (m1, V)" "m' = start_missing rs (stop_runners V m1)" by blast
  have rem: "remotes (stop_runners V m1) key = (case remotes m key of None \<Rightarrow> None | Some mr \<Rightarrow> if victim (by_host rs) key mr then None else Some mr)"
    using take_victims_runners(6) [OF m1(2)] by (simp add: stop_runners_def)
  show ?thesis
  proof (cases "remotes (stop_runners V m1) key")
    case None
    have "case by_host rs key of None \<Rightarrow> remotes m' key = None
        | Some r \<Rightarrow> \<exists>n. remotes m' key = Some \<lparr>mcfg = r, running = EnabledOrDefault r, started = n\<rparr>"
      unfolding m1(3) by (rule start_missing_new [OF m1(1) None])
    moreover have "\<not> (\<exists>mr r. remotes m key = Some mr \<and> by_host rs key = Some r \<and> sameAs (mcfg mr) r)"
      using rem None assms(1) sameAs_enabled
      by (auto simp: victim_def good_manager_def split: option.splits if_splits)
    ultimately show ?thesis by (auto split: option.splits)
  next
    case (Some mr)
    then have mr: "remotes m key = Some mr" "\<not> victim (by_host rs) key mr"
      using rem by (auto split: option.splits if_splits)
    have "remotes m' key = Some mr" unfolding m1(3) using Some by (rule start_missing_kept)
    moreover have "running mr \<longleftrightarrow> EnabledOrDefault (mcfg mr)" using assms(1) mr(1) by (auto simp: good_manager_def)
    ultimately show ?thesis
      using mr sameAs_enabled by (auto simp: victim_def split: option.splits if_splits)
  qed
qed

interpretation manager: reconciler Reconcile good_manager serves
proof
  fix m rs m' e
  show "good_manager m \<Longrightarrow> Reconcile rs m = (None, m') \<Longrightarrow> serves m' rs"
    unfolding serves_def using Reconcile_key [of m rs m'] by (metis (mono_tags, lifting) option.case_eq_if)
  show "good_manager m \<Longrightarrow> Reconcile rs m = (e, m') \<Longrightarrow> good_manager m'"
    by (rule Reconcile_good)
qed

section \<open>Overlapping calls\<close>

text \<open>
  \<open>Reconcile\<close> gives up the lock while it stops its victims, so calls overlap with each other
  and with \<open>Close\<close>: \<open>inflight\<close> holds the reconciles past phase 1 with the goroutines they
  still have to stop, \<open>closing\<close> what a \<open>Close\<close> still has to stop.
\<close>

record mgr_sys =
  man :: manager
  inflight :: "(remote list \<times> (nat \<times> string) set) list"
  closing :: "(nat \<times> string) set list"

definition finish_reconcile :: "remote list \<Rightarrow> manager \<Rightarrow> manager" where
  "finish_reconcile rs m = (if closed m then m else start_missing rs m)"

inductive mgr_step :: "mgr_sys \<Rightarrow> mgr_sys \<Rightarrow> bool" where
  begun: "\<not> invalid_remote rs \<Longrightarrow> desired_from rs Map.empty = Some d \<Longrightarrow> \<not> closed (man s) \<Longrightarrow>
     take_victims d (man s) = (m1, V) \<Longrightarrow> mgr_step s (s\<lparr>man := m1, inflight := (rs, V) # inflight s\<rparr>)"
| stopped: "inflight s = us @ (rs, V) # vs \<Longrightarrow>
     mgr_step s (s\<lparr>man := stop_runners V (man s), inflight := us @ (rs, {}) # vs\<rparr>)"
| finished: "inflight s = us @ (rs, {}) # vs \<Longrightarrow>
     mgr_step s (s\<lparr>man := finish_reconcile rs (man s), inflight := us @ vs\<rparr>)"
| close_begun:
    "mgr_step s (s\<lparr>man := (man s)\<lparr>closed := True, remotes := Map.empty\<rparr>, closing := runners (remotes (man s)) # closing s\<rparr>)"
| close_stopped: "closing s = us @ V # vs \<Longrightarrow>
     mgr_step s (s\<lparr>man := stop_runners V (man s), closing := us @ vs\<rparr>)"

inductive mgr_run :: "mgr_sys \<Rightarrow> bool" where
  new: "mgr_run \<lparr>man = NewManager, inflight = [], closing = []\<rparr>"
| moved: "mgr_run s \<Longrightarrow> mgr_step s s' \<Longrightarrow> mgr_run s'"

text \<open>Nobody is forgotten: a live goroutine is in the map, or somebody is about to stop it.\<close>

definition nobody_lost :: "mgr_sys \<Rightarrow> bool" where
  "nobody_lost s \<longleftrightarrow> live (man s) \<subseteq> runners (remotes (man s)) \<union> \<Union> (snd ` set (inflight s)) \<union> \<Union> (set (closing s))
     \<and> (closed (man s) \<longrightarrow> remotes (man s) = Map.empty)"

lemma nobody_lost_step: "mgr_step s s' \<Longrightarrow> nobody_lost s \<Longrightarrow> nobody_lost s'"
proof (induction rule: mgr_step.induct)
  case (begun rs d s m1 V)
  then show ?case using take_victims_runners [OF begun.hyps(4)] by (auto simp: nobody_lost_def)
next
  case (finished s us rs vs)
  let ?X = "\<Union> (snd ` set (us @ vs)) \<union> \<Union> (set (closing s))"
  have old: "live (man s) \<subseteq> runners (remotes (man s)) \<union> ?X" "closed (man s) \<longrightarrow> remotes (man s) = Map.empty"
    using finished by (auto simp: nobody_lost_def)
  have "live (start_missing rs m) \<subseteq> runners (remotes (start_missing rs m)) \<union> X"
    if "live m \<subseteq> runners (remotes m) \<union> X" for m X
    using that
  proof (induction rs arbitrary: m)
    case (Cons r rs)
    have "live (start_remote r m) \<subseteq> runners (remotes (start_remote r m)) \<union> X"
      using Cons.prems by (auto simp: start_remote_def Let_def runners_new split: option.splits)
    then show ?case using Cons.IH by simp
  qed simp
  from this [OF old(1)] show ?case using old by (auto simp: nobody_lost_def finish_reconcile_def)
qed (auto simp: nobody_lost_def stop_runners_def runners_def)

lemma mgr_run_nobody_lost: "mgr_run s \<Longrightarrow> nobody_lost s"
proof (induction rule: mgr_run.induct)
  case new
  then show ?case by (simp add: nobody_lost_def NewManager_def)
next
  case (moved s s')
  then show ?case using nobody_lost_step by blast
qed

section \<open>Instances\<close>

definition demo_host :: "string \<Rightarrow> bool option \<Rightarrow> remote" where
  "demo_host h en = \<lparr>Host = h, Port = 0, RemoteSocket = ''/run/s'', HostKey = [], Enabled = en\<rparr>"

lemma good_NewManager: "good_manager NewManager" "live NewManager = runners (remotes NewManager)"
  by (auto simp: good_manager_def NewManager_def runners_def)

lemma Reconcile_succeeds:
  "\<not> invalid_remote rs \<Longrightarrow> hosts_unique rs \<Longrightarrow> \<not> closed m \<Longrightarrow> fst (Reconcile rs m) = None"
  using desired_from_None [of rs Map.empty] by (auto simp: Reconcile_def split: option.splits prod.splits)

lemma demo_reconcile_ok: "fst (Reconcile [demo_host ''a'' None, demo_host ''b'' (Some False)] NewManager) = None"
proof (rule Reconcile_succeeds)
  show "\<not> invalid_remote [demo_host ''a'' None, demo_host ''b'' (Some False)]" by code_simp
  show "hosts_unique [demo_host ''a'' None, demo_host ''b'' (Some False)]" by code_simp
qed (simp add: NewManager_def)

section \<open>Properties\<close>

text \<open>
  C15. A reconcile that returns no error serves exactly the configured list: every enabled entry
  runs, a disabled one has an idle row, any other host is gone; a remote whose entry has
  not changed in meaning is the very same one, still running if it was; and no goroutine
  exists beyond those of the map, so none was left behind and none doubled.
\<close>
theorem Reconcile_exact:
  assumes "good_manager m" "live m = runners (remotes m)" "Reconcile rs m = (None, m')"
  shows "(case by_host rs key of
            None \<Rightarrow> remotes m' key = None
          | Some r \<Rightarrow> (\<exists>mr. remotes m' key = Some mr \<and> sameAs (mcfg mr) r \<and> (running mr \<longleftrightarrow> EnabledOrDefault r))
              \<and> (\<forall>mr. remotes m key = Some mr \<and> sameAs (mcfg mr) r \<longrightarrow> remotes m' key = Some mr))
    \<and> live m' = runners (remotes m') \<and> good_manager m'"
proof -
  from Reconcile_ok [OF assms(3)] obtain m1 V where m1:
    "take_victims (by_host rs) m = (m1, V)" "m' = start_missing rs (stop_runners V m1)" by blast
  have "live (stop_runners V m1) = runners (remotes (stop_runners V m1)) \<union> {}"
    using take_victims_runners [OF m1(1)] assms(2) by (auto simp: stop_runners_def)
  from live_start_missing [OF this] have "live m' = runners (remotes m')" by (simp add: m1(2))
  then show ?thesis using Reconcile_key [OF assms(1,3)] Reconcile_good [OF assms(1,3)] by blast
qed

theorem Reconcile_exact_witness:
  "\<exists>m'. Reconcile [demo_host ''a'' None, demo_host ''b'' (Some False)] NewManager = (None, m')
     \<and> live m' = runners (remotes m') \<and> (\<exists>mr. remotes m' ''a'' = Some mr \<and> running mr)"
proof -
  obtain m' where m': "Reconcile [demo_host ''a'' None, demo_host ''b'' (Some False)] NewManager = (None, m')"
    using demo_reconcile_ok by (metis prod.collapse)
  have "by_host [demo_host ''a'' None, demo_host ''b'' (Some False)] ''a'' = Some (demo_host ''a'' None)"
    "EnabledOrDefault (demo_host ''a'' None)" by code_simp+
  then show ?thesis using Reconcile_exact [OF good_NewManager m', of "''a''"] m' by auto
qed

text \<open>
  C16. Nothing comes back after \<open>Close\<close>: however reconciles and closes overlap, once the manager
  is closed and the calls in flight have returned, no remote is in the map and no goroutine
  lives.
\<close>
theorem nothing_survives_close:
  assumes "mgr_run s" "closed (man s)" "inflight s = []" "closing s = []"
  shows "remotes (man s) = Map.empty \<and> live (man s) = {}"
proof -
  have "nobody_lost s" using mgr_run_nobody_lost [OF assms(1)] .
  then show ?thesis using assms(2-) by (auto simp: nobody_lost_def runners_def)
qed

theorem nothing_survives_close_witness:
  "\<exists>s. mgr_run s \<and> closed (man s) \<and> fresh (man s) = 0 \<and> live (man s) = {}"
proof -
  define s0 where "s0 = \<lparr>man = NewManager, inflight = [], closing = []\<rparr>"
  define s1 where "s1 = s0\<lparr>man := (man s0)\<lparr>closed := True, remotes := Map.empty\<rparr>, closing := runners (remotes (man s0)) # closing s0\<rparr>"
  define s2 where "s2 = s1\<lparr>man := stop_runners (runners (remotes (man s0))) (man s1), closing := []\<rparr>"
  have "mgr_step s0 s1" unfolding s1_def by (rule mgr_step.close_begun)
  moreover have "closing s1 = [] @ runners (remotes (man s0)) # []" by (simp add: s1_def s0_def)
  then have "mgr_step s1 s2" unfolding s2_def using mgr_step.close_stopped by (metis append_Nil)
  moreover have "mgr_run s0" unfolding s0_def by (rule mgr_run.new)
  ultimately have r: "mgr_run s2" using mgr_run.moved by blast
  have c: "closed (man s2)" "inflight s2 = []" "closing s2 = []" "fresh (man s2) = 0"
    by (simp_all add: s2_def s1_def s0_def stop_runners_def NewManager_def)
  show ?thesis using nothing_survives_close [OF r c(1-3)] r c by blast
qed

text \<open>
  The file and the running set agree: whenever a mutation of the registry (or a resync)
  reports no error and deferred nothing, the manager serves exactly the entries the file
  then holds. And even when one fails, the manager stays in a good state.
\<close>
theorem mutations_keep_running_set:
  assumes "good_manager (mgr g)"
  shows "(add_commit Reconcile lo so p g = ((v1, e1), g1)
        \<longrightarrow> good_manager (mgr g1) \<and> (e1 = None \<longrightarrow> serves (mgr g1) (Remotes (doc g1))))
    \<and> (Patch Reconcile lo so h q g = ((v2, e2), g2, d)
        \<longrightarrow> good_manager (mgr g2) \<and> (e2 = None \<and> \<not> d \<longrightarrow> serves (mgr g2) (Remotes (doc g2))))
    \<and> (RemoveHost Reconcile lo so h g = ((v3, e3), g3)
        \<longrightarrow> good_manager (mgr g3) \<and> (v3 \<and> e3 = None \<longrightarrow> serves (mgr g3) (Remotes (doc g3))))
    \<and> (Resync Reconcile lo g = (e4, g4)
        \<longrightarrow> good_manager (mgr g4) \<and> (e4 = None \<longrightarrow> serves (mgr g4) (Remotes (doc g4))))"
proof (intro conjI [OF impI] conjI [OF impI] conjI [OF impI] impI)
  show "good_manager (mgr g1) \<and> (e1 = None \<longrightarrow> serves (mgr g1) (Remotes (doc g1)))"
    if "add_commit Reconcile lo so p g = ((v1, e1), g1)"
    by (rule manager.add_commit_serves [OF assms that])
  show "good_manager (mgr g2) \<and> (e2 = None \<and> \<not> d \<longrightarrow> serves (mgr g2) (Remotes (doc g2)))"
    if "Patch Reconcile lo so h q g = ((v2, e2), g2, d)"
    by (rule manager.Patch_serves [OF assms that])
  show "good_manager (mgr g3) \<and> (v3 \<and> e3 = None \<longrightarrow> serves (mgr g3) (Remotes (doc g3)))"
    if "RemoveHost Reconcile lo so h g = ((v3, e3), g3)"
    by (rule manager.RemoveHost_serves [OF assms that])
  show "good_manager (mgr g4) \<and> (e4 = None \<longrightarrow> serves (mgr g4) (Remotes (doc g4)))"
    if "Resync Reconcile lo g = (e4, g4)"
    by (rule manager.Resync_serves [OF assms that])
qed

theorem mutations_keep_running_set_witness:
  "\<exists>e g'. Resync Reconcile True \<lparr>doc = \<lparr>Remotes = [demo_host ''a'' None], unknown = [] :: unit gomap\<rparr>, mgr = NewManager\<rparr> = (e, g')
     \<and> e = None \<and> serves (mgr g') (Remotes (doc g'))"
proof -
  let ?g = "\<lparr>doc = \<lparr>Remotes = [demo_host ''a'' None], unknown = [] :: unit gomap\<rparr>, mgr = NewManager\<rparr>"
  have "\<not> invalid_remote [demo_host ''a'' None]" "hosts_unique [demo_host ''a'' None]" by code_simp+
  then have "fst (Reconcile [demo_host ''a'' None] NewManager) = None"
    by (intro Reconcile_succeeds) (simp_all add: NewManager_def)
  then obtain g' where g': "Resync Reconcile True ?g = (None, g')"
    by (cases "Reconcile [demo_host ''a'' None] NewManager") (simp add: Resync_def apply_remotes_def)
  have "good_manager (mgr ?g)" by (simp add: good_NewManager)
  from mutations_keep_running_set [OF this, THEN conjunct2, THEN conjunct2, THEN conjunct2, THEN mp, OF g'] g'
  show ?thesis by blast
qed

text \<open>
  Finding: only the callers serialise reconciles. Two overlapping calls can run two
  connections for one host at the same time: the second starts the replacement while the
  first is still stopping the outgoing one.
\<close>

lemma mgr_begin:
  assumes "mgr_run s" "\<not> invalid_remote rs" "hosts_unique rs" "\<not> closed (man s)"
  shows "mgr_run (s\<lparr>man := fst (take_victims (by_host rs) (man s)),
            inflight := (rs, snd (take_victims (by_host rs) (man s))) # inflight s\<rparr>)"
proof -
  obtain d where "desired_from rs Map.empty = Some d" using desired_from_None [OF assms(3), of Map.empty] by auto
  moreover have "d = by_host rs" using desired_from_by_host [OF calculation] by simp
  ultimately show ?thesis using mgr_run.moved [OF assms(1) mgr_step.begun [OF assms(2) _ assms(4)]]
    by (metis prod.collapse)
qed

lemma overlapping_reconciles_double:
  "\<exists>s. mgr_run s \<and> (0, ''a'') \<in> live (man s) \<and> (1, ''a'') \<in> live (man s) \<and> \<not> closed (man s)"
proof -
  define a b where "a = demo_host ''a'' None" and "b = (demo_host ''a'' None)\<lparr>Port := 2222\<rparr>"
  have ok: "\<not> invalid_remote [a]" "\<not> invalid_remote [b]" "hosts_unique [a]" "hosts_unique [b]"
    unfolding a_def b_def by code_simp+
  have facts: "by_host [a] = [''a'' \<mapsto> a]" "by_host [b] = [''a'' \<mapsto> b]" "\<not> sameAs a b" "EnabledOrDefault a" "EnabledOrDefault b"
      "normalizeHost (Host a) = ''a''" "normalizeHost (Host b) = ''a''"
  proof -
    have k: "host_key a = ''a''" "host_key b = ''a''" unfolding a_def b_def by code_simp+
    then show "by_host [a] = [''a'' \<mapsto> a]" "by_host [b] = [''a'' \<mapsto> b]" by (auto simp: by_host_Cons fun_eq_iff)
    show "\<not> sameAs a b" "EnabledOrDefault a" "EnabledOrDefault b" unfolding a_def b_def by code_simp+
    show "normalizeHost (Host a) = ''a''" "normalizeHost (Host b) = ''a''" using k by (simp_all add: normalize_key)
  qed
  define m1 where "m1 = \<lparr>remotes = [''a'' \<mapsto> \<lparr>mcfg = a, running = True, started = 0\<rparr>], closed = False, fresh = 1, live = {(0, ''a'')}\<rparr>"
  define m2 where "m2 = m1\<lparr>remotes := Map.empty\<rparr>"
  define m3 where "m3 = m2\<lparr>remotes := [''a'' \<mapsto> \<lparr>mcfg = b, running = True, started = 1\<rparr>], fresh := 2, live := {(0, ''a''), (1, ''a'')}\<rparr>"
  have t: "take_victims (by_host [a]) NewManager = (NewManager, {})"
      "take_victims (by_host [b]) m1 = (m2, {(0, ''a'')})" "take_victims (by_host [b]) m2 = (m2, {})"
    by (auto simp: take_victims_def NewManager_def m1_def m2_def runners_def Let_def facts victim_def fun_eq_iff split: if_splits option.splits)
  have st: "start_missing [a] NewManager = m1" "start_missing [b] m2 = m3"
    by (auto simp: start_remote_def NewManager_def m1_def m2_def m3_def Let_def facts)
  have fin: "mgr_run (s\<lparr>man := start_missing rs (man s), inflight := vs\<rparr>)"
    if "mgr_run s" "inflight s = (rs, {}) # vs" "\<not> closed (man s)" for s rs vs
    using mgr_run.moved [OF that(1) mgr_step.finished [of s "[]" rs vs]] that by (simp add: finish_reconcile_def)
  have "mgr_run \<lparr>man = NewManager, inflight = [([a], {})], closing = []\<rparr>"
    using mgr_begin [OF mgr_run.new ok(1,3)] t(1) by (simp add: NewManager_def)
  then have "mgr_run \<lparr>man = m1, inflight = [], closing = []\<rparr>" using fin [of _ "[a]" "[]"] st(1) by (fastforce simp: NewManager_def)
  then have "mgr_run \<lparr>man = m2, inflight = [([b], {(0, ''a'')})], closing = []\<rparr>"
    using mgr_begin [OF _ ok(2,4)] t(2) by (fastforce simp: m1_def)
  then have "mgr_run \<lparr>man = m2, inflight = [([b], {}), ([b], {(0, ''a'')})], closing = []\<rparr>"
    using mgr_begin [OF _ ok(2,4)] t(3) by (fastforce simp: m1_def m2_def)
  then have "mgr_run \<lparr>man = m3, inflight = [([b], {(0, ''a'')})], closing = []\<rparr>"
    using fin [of _ "[b]" "[([b], {(0, ''a'')})]"] st(2) by (fastforce simp: m1_def m2_def)
  then show ?thesis by (fastforce simp: m3_def m2_def m1_def)
qed

end
