(* ===== verification/SSHRemoteRun.thy ===== *)
theory SSHRemoteRun
  imports SSHTrust Complex_Main
begin

text \<open>
  The life cycle of one managed remote (\<open>internal/sshfwd/remote.go\<close>) with its reconnect
  delays (\<open>backoff.go\<close>): dial, serve, tear down, wait, dial again, as a step relation over the
  variables the goroutines of one remote share. Durations are nanoseconds; the jitter
  arithmetic of \<open>Next\<close> is exact (the \<open>float64\<close> products stay far below 2^53).
\<close>

section \<open>Backoff\<close>

definition backoff_base :: nat where
  "backoff_base = 500 * 1000000"

definition backoff_max :: nat where
  "backoff_max = 30 * 1000000000"

fun next_loop :: "nat \<Rightarrow> nat \<Rightarrow> nat" where
  "next_loop 0 d = d"
| "next_loop (Suc i) d = (if backoff_max \<le> 2 * d then backoff_max else next_loop i (2 * d))"

text \<open>\<open>Next\<close> after \<open>n\<close> earlier calls, for the random number \<open>rnd\<close> in [0,1).\<close>

definition jitter_factor :: "rat \<Rightarrow> rat" where
  "jitter_factor rnd = 1 + (1 / 5) * (2 * rnd - 1)"

definition backoff_next :: "nat \<Rightarrow> rat \<Rightarrow> nat \<times> nat" where
  "backoff_next n rnd = (nat (floor (of_nat (next_loop n backoff_base) * jitter_factor rnd)), Suc n)"

definition AuthFailureFloor :: nat where
  "AuthFailureFloor = 5 * 60 * 1000000000"

definition backoffDelay :: "error_class \<Rightarrow> nat \<Rightarrow> rat \<Rightarrow> nat \<times> nat" where
  "backoffDelay c n rnd =
     (case backoff_next n rnd of
        (d, n') \<Rightarrow>
          (let floor = (if c = ClassAuth \<or> c = ClassHostKey then AuthFailureFloor else 0)
           in (if d < floor then floor else d, n')))"

section \<open>The life cycle\<close>

datatype conn_state =
    StateConnecting | StateConnected | StateReconnecting | StateOffline | StateAuthError | StateHostKeyError | StateDisabled

definition stateForClass :: "error_class \<Rightarrow> conn_state \<Rightarrow> conn_state" where
  "stateForClass c generic =
     (if c = ClassAuth then StateAuthError else if c = ClassHostKey then StateHostKeyError else generic)"

text \<open>
  Where the run loop is. \<open>ready_closed\<close> says whether the current \<open>clientReady\<close> channel is
  closed, \<open>panicked\<close> whether a closed channel was closed again; \<open>timer\<close> is the goroutine
  that resets the backoff of a stable connection, which may still fire once after it was
  told to stop.
\<close>

datatype run_phase = Dialling | Serving | Sleeping nat | Exited

record rrun =
  phase :: run_phase
  rstate :: conn_state
  client :: bool
  ready_closed :: bool
  connectedSince :: bool
  reconnects :: nat
  activeConns :: nat
  attempts :: nat
  timer :: bool
  panicked :: bool

definition setClient :: "rrun \<Rightarrow> rrun" where
  "setClient r = r\<lparr>client := True, panicked := panicked r \<or> ready_closed r, ready_closed := True\<rparr>"

definition clearClient :: "rrun \<Rightarrow> rrun" where
  "clearClient r = r\<lparr>client := False, ready_closed := False\<rparr>"

definition newManagedRemote :: rrun where
  "newManagedRemote = \<lparr>phase = Dialling, rstate = StateConnecting, client = False, ready_closed = False,
     connectedSince = False, reconnects = 0, activeConns = 0, attempts = 0, timer = False, panicked = False\<rparr>"

text \<open>\<open>fail\<close>, \<open>serveConnected\<close> up to its first wait, and its teardown.\<close>

definition rr_fail :: "err \<Rightarrow> rat \<Rightarrow> rrun \<Rightarrow> rrun" where
  "rr_fail e rnd r =
     (let c = Classify (Some e); (d, n) = backoffDelay c (attempts r) rnd
      in r\<lparr>rstate := stateForClass c StateOffline, attempts := n, phase := Sleeping d\<rparr>)"

definition rr_connected :: "rrun \<Rightarrow> rrun" where
  "rr_connected r = (setClient r)\<lparr>connectedSince := True, rstate := StateConnected, timer := True, phase := Serving\<rparr>"

definition rr_teardown :: "bool \<Rightarrow> rrun \<Rightarrow> rrun" where
  "rr_teardown late r = (clearClient r)\<lparr>connectedSince := False, timer := timer r \<and> late\<rparr>"

definition rr_lost :: "bool \<Rightarrow> err \<Rightarrow> rat \<Rightarrow> rrun \<Rightarrow> rrun" where
  "rr_lost late e rnd r =
     (let t = rr_teardown late r; c = Classify (Some e); (d, n) = backoffDelay c (attempts t) rnd
      in t\<lparr>reconnects := Suc (reconnects t), rstate := stateForClass c StateReconnecting, attempts := n, phase := Sleeping d\<rparr>)"

inductive rr_step :: "rrun \<Rightarrow> rrun \<Rightarrow> bool" where
  failed: "phase r = Dialling \<Longrightarrow> 0 \<le> rnd \<Longrightarrow> rnd < 1 \<Longrightarrow> rr_step r (rr_fail e rnd r)"
| connected: "phase r = Dialling \<Longrightarrow> rr_step r (rr_connected r)"
| accepted: "phase r = Serving \<Longrightarrow> rr_step r (r\<lparr>activeConns := Suc (activeConns r)\<rparr>)"
| hung_up: "phase r = Serving \<Longrightarrow> activeConns r = Suc n \<Longrightarrow> rr_step r (r\<lparr>activeConns := n\<rparr>)"
| stable: "timer r \<Longrightarrow> rr_step r (r\<lparr>attempts := 0, timer := False\<rparr>)"
| lost: "phase r = Serving \<Longrightarrow> activeConns r = 0 \<Longrightarrow> 0 \<le> rnd \<Longrightarrow> rnd < 1 \<Longrightarrow> rr_step r (rr_lost late e rnd r)"
| woke: "phase r = Sleeping d \<Longrightarrow> rr_step r (r\<lparr>phase := Dialling, rstate := StateConnecting\<rparr>)"
| stop_idle: "phase r = Dialling \<or> phase r = Sleeping d \<Longrightarrow> rr_step r (r\<lparr>phase := Exited\<rparr>)"
| stop_serving: "phase r = Serving \<Longrightarrow> activeConns r = 0 \<Longrightarrow> rr_step r ((rr_teardown late r)\<lparr>phase := Exited\<rparr>)"

inductive rr_run :: "rrun \<Rightarrow> bool" where
  begin_run: "rr_run newManagedRemote"
| more: "rr_run r \<Longrightarrow> rr_step r r' \<Longrightarrow> rr_run r'"

section \<open>Facts\<close>

lemma next_loop_closed: "d \<le> backoff_max \<Longrightarrow> next_loop n d = min backoff_max (d * 2 ^ n)"
proof (induction n arbitrary: d)
  case (Suc n)
  show ?case
  proof (cases "backoff_max \<le> 2 * d")
    case True
    have "2 * d \<le> d * 2 ^ Suc n" by simp
    then have "backoff_max \<le> d * 2 ^ Suc n" using True by linarith
    then show ?thesis using True by simp
  next
    case False
    then show ?thesis using Suc.IH [of "2 * d"] by (simp add: ac_simps)
  qed
qed simp

lemma next_loop_bounds: "backoff_base \<le> next_loop n backoff_base" "next_loop n backoff_base \<le> backoff_max"
  using next_loop_closed [of backoff_base n] by (auto simp: backoff_base_def backoff_max_def)

lemma backoff_next_bounds:
  assumes "0 \<le> rnd" "rnd < 1"
  shows "400 * 1000000 \<le> fst (backoff_next n rnd)" "fst (backoff_next n rnd) \<le> 36 * 1000000000"
    "snd (backoff_next n rnd) = Suc n"
proof -
  let ?d = "of_nat (next_loop n backoff_base) :: rat"
  have "of_nat backoff_base \<le> ?d" "?d \<le> of_nat backoff_max"
    using next_loop_bounds [of n] by (simp_all only: of_nat_le_iff)
  then have d: "500 * 1000000 \<le> ?d" "?d \<le> 30 * 1000000000" by (simp_all add: backoff_base_def backoff_max_def)
  have f: "4 / 5 \<le> jitter_factor rnd" "jitter_factor rnd \<le> 6 / 5"
    using assms by (simp_all add: jitter_factor_def field_simps)
  have "500 * 1000000 * (4 / 5) \<le> ?d * jitter_factor rnd" using d(1) f(1) by (intro mult_mono) auto
  then have "(400 * 1000000 :: int) \<le> floor (?d * jitter_factor rnd)" unfolding le_floor_iff by simp
  then have "nat (400 * 1000000) \<le> nat (floor (?d * jitter_factor rnd))" by (rule nat_mono)
  then show "400 * 1000000 \<le> fst (backoff_next n rnd)" by (simp add: backoff_next_def)
  have "?d * jitter_factor rnd \<le> 30 * 1000000000 * (6 / 5)" using d f by (intro mult_mono) auto
  then have "floor (?d * jitter_factor rnd) \<le> (36 * 1000000000 :: int)" unfolding floor_le_iff by simp
  then have "nat (floor (?d * jitter_factor rnd)) \<le> nat (36 * 1000000000)" by (rule nat_mono)
  then show "fst (backoff_next n rnd) \<le> 36 * 1000000000" by (simp add: backoff_next_def)
qed (simp add: backoff_next_def)

lemma backoffDelay_bounds:
  assumes "0 \<le> rnd" "rnd < 1" "backoffDelay c n rnd = (d, n')"
  shows "n' = Suc n" "400 * 1000000 \<le> d" "c = ClassAuth \<or> c = ClassHostKey \<Longrightarrow> d = AuthFailureFloor"
    "c \<noteq> ClassAuth \<Longrightarrow> c \<noteq> ClassHostKey \<Longrightarrow> d \<le> 36 * 1000000000"
  using assms backoff_next_bounds [OF assms(1,2), of n]
  by (auto simp: backoffDelay_def AuthFailureFloor_def Let_def split: prod.splits if_splits)

definition rr_inv :: "rrun \<Rightarrow> bool" where
  "rr_inv r \<longleftrightarrow> \<not> panicked r
     \<and> (client r \<longleftrightarrow> phase r = Serving) \<and> (ready_closed r \<longleftrightarrow> client r) \<and> (connectedSince r \<longleftrightarrow> client r)
     \<and> (phase r = Serving \<longrightarrow> rstate r = StateConnected) \<and> (phase r = Dialling \<longrightarrow> rstate r = StateConnecting)
     \<and> (phase r \<noteq> Serving \<longrightarrow> activeConns r = 0)
     \<and> (\<forall>d. phase r = Sleeping d \<longrightarrow>
          rstate r \<in> {StateAuthError, StateHostKeyError, StateOffline, StateReconnecting}
          \<and> (rstate r \<in> {StateAuthError, StateHostKeyError} \<longrightarrow> d = AuthFailureFloor)
          \<and> (rstate r \<in> {StateOffline, StateReconnecting} \<longrightarrow> 400 * 1000000 \<le> d \<and> d \<le> 36 * 1000000000))"

lemma rr_inv_sleep:
  assumes "0 \<le> rnd" "rnd < 1" "backoffDelay c n rnd = (d, n')" "g = StateOffline \<or> g = StateReconnecting"
  shows "stateForClass c g \<in> {StateAuthError, StateHostKeyError, StateOffline, StateReconnecting}
     \<and> (stateForClass c g \<in> {StateAuthError, StateHostKeyError} \<longrightarrow> d = AuthFailureFloor)
     \<and> (stateForClass c g \<in> {StateOffline, StateReconnecting} \<longrightarrow> 400 * 1000000 \<le> d \<and> d \<le> 36 * 1000000000)"
  using backoffDelay_bounds [OF assms(1-3)] assms(4) by (auto simp: stateForClass_def)

lemma rr_inv_step: "rr_step r r' \<Longrightarrow> rr_inv r \<Longrightarrow> rr_inv r'"
proof (induction rule: rr_step.induct)
  case (failed r rnd e)
  obtain d n where d: "backoffDelay (Classify (Some e)) (attempts r) rnd = (d, n)" by (cases "backoffDelay (Classify (Some e)) (attempts r) rnd")
  show ?case using failed rr_inv_sleep [OF failed.hyps(2,3) d, of StateOffline] by (simp add: rr_inv_def rr_fail_def Let_def d)
next
  case (lost r rnd late e)
  let ?t = "rr_teardown late r"
  obtain d n where d: "backoffDelay (Classify (Some e)) (attempts ?t) rnd = (d, n)"
    by (cases "backoffDelay (Classify (Some e)) (attempts ?t) rnd")
  show ?case using lost rr_inv_sleep [OF lost.hyps(3,4) d, of StateReconnecting]
    by (simp add: rr_inv_def rr_lost_def Let_def d) (simp add: rr_teardown_def clearClient_def)
qed (auto simp: rr_inv_def rr_connected_def setClient_def rr_teardown_def clearClient_def)

lemma rr_run_inv: "rr_run r \<Longrightarrow> rr_inv r"
proof (induction rule: rr_run.induct)
  case begin_run
  then show ?case by (simp add: rr_inv_def newManagedRemote_def)
next
  case (more r r')
  then show ?case using rr_inv_step by blast
qed

section \<open>Properties\<close>

text \<open>
  The delay schedule: after \<open>n\<close> calls since the last reset the unjittered delay is
  half a second doubled \<open>n\<close> times, capped at thirty seconds; the jittered one lies between
  0.4 s and 36 s; and a failed authentication or host key waits five minutes exactly.
\<close>
theorem backoff_schedule:
  assumes "0 \<le> rnd" "rnd < 1"
  shows "next_loop n backoff_base = min backoff_max (backoff_base * 2 ^ n)
    \<and> 400000000 \<le> fst (backoff_next n rnd) \<and> fst (backoff_next n rnd) \<le> 36000000000
    \<and> fst (backoffDelay ClassHostKey n rnd) = AuthFailureFloor \<and> fst (backoffDelay ClassAuth n rnd) = AuthFailureFloor"
proof -
  have *: "fst (backoffDelay c n rnd) = AuthFailureFloor" if "c = ClassAuth \<or> c = ClassHostKey" for c
    using backoffDelay_bounds(3) [OF assms prod.collapse [symmetric] that] .
  show ?thesis
    using next_loop_closed [of backoff_base n] backoff_next_bounds [OF assms, of n] *
    by (simp add: backoff_base_def backoff_max_def)
qed

theorem backoff_schedule_witness:
  "next_loop 7 backoff_base = backoff_max \<and> fst (backoffDelay ClassHostKey 0 (1 / 2)) = AuthFailureFloor"
  using backoff_schedule [of "1 / 2" 7] backoff_schedule [of "1 / 2" 0] by (simp add: backoff_base_def backoff_max_def)



end
