(* ===== verification/SSHForward.thy ===== *)
theory SSHForward
  imports SSHTrust
begin

text \<open>
  \<open>internal/sshfwd/forward.go\<close>: binding the remote socket, with the decision whether a path
  in the way is a stale socket that may be unlinked; the quoting of paths for the remote
  shell; and the tracker that closes the relayed connections at shutdown. What the remote
  sshd answers is the record \<open>sshd\<close>.
\<close>

section \<open>Claiming the socket path\<close>

datatype dial_reply = Connected | Rejected bool | TransportError string

text \<open>\<open>Rejected True\<close> is the rejection reason \<open>ConnectionFailed\<close>. \<open>None\<close> is success throughout.\<close>

record sshd =
  mkdir_reply :: "string option"
  bind_reply :: "string option"
  dial_socket :: dial_reply
  scratch_name :: "string option"
  bind_scratch :: "string option"
  dial_scratch :: dial_reply
  unlink_reply :: "string option"
  rebind_reply :: "string option"

text \<open>What is done to the remote, in order.\<close>

datatype remote_action =
    MakeDir | Bind string | DialPath string | Unlink string | CloseListener string

text \<open>Whether client-initiated opens work at all: \<open>Inr\<close> the answer, \<open>Inl\<close> inconclusive.\<close>

definition directStreamLocalWorks :: "sshd \<Rightarrow> (err + bool) \<times> remote_action list" where
  "directStreamLocalWorks D =
     (case scratch_name D of
        None \<Rightarrow> (Inl [Text ''generate scratch probe path''], [])
      | Some p \<Rightarrow>
          (case bind_scratch D of
             Some m \<Rightarrow> (Inl [Text m], [Bind p])
           | None \<Rightarrow>
               (case dial_scratch D of
                  Connected \<Rightarrow> Inr True
                | Rejected r \<Rightarrow> Inr False
                | TransportError m \<Rightarrow> Inl [Text m],
                [Bind p, DialPath p, CloseListener p, Unlink p])))"

definition liveListenerAt :: "sshd \<Rightarrow> string \<Rightarrow> (err + bool) \<times> remote_action list" where
  "liveListenerAt D socket =
     (case dial_socket D of
        Connected \<Rightarrow> (Inr True, [DialPath socket])
      | TransportError m \<Rightarrow> (Inl [Text m], [DialPath socket])
      | Rejected False \<Rightarrow> (Inl [Text ''rejected''], [DialPath socket])
      | Rejected True \<Rightarrow>
          (case directStreamLocalWorks D of
             (Inl e, acts) \<Rightarrow> (Inl e, DialPath socket # acts)
           | (Inr False, acts) \<Rightarrow> (Inl [Text ''direct-streamlocal does not work''], DialPath socket # acts)
           | (Inr True, acts) \<Rightarrow> (Inr False, DialPath socket # acts)))"

text \<open>\<open>ServeForward\<close> up to the accept loop: an error, or the listener is bound.\<close>

definition ServeForward :: "sshd \<Rightarrow> string \<Rightarrow> err option \<times> remote_action list" where
  "ServeForward D socket =
     (let fail = (\<lambda>e. Some (withSocketDirCause (mkdir_reply D) e)) in
      case bind_reply D of
        None \<Rightarrow> (None, [MakeDir, Bind socket])
      | Some m \<Rightarrow>
          (case liveListenerAt D socket of
             (Inl e, acts) \<Rightarrow> (fail [ErrBind, Text m], [MakeDir, Bind socket] @ acts)
           | (Inr True, acts) \<Rightarrow> (fail [ErrBind, Text m], [MakeDir, Bind socket] @ acts)
           | (Inr False, acts) \<Rightarrow>
               (case unlink_reply D of
                  Some u \<Rightarrow> (fail [ErrBind, Text m], [MakeDir, Bind socket] @ acts @ [Unlink socket])
                | None \<Rightarrow>
                    (case rebind_reply D of
                       Some m2 \<Rightarrow> fail [ErrBind, Text m2]
                     | None \<Rightarrow> None,
                     [MakeDir, Bind socket] @ acts @ [Unlink socket, Bind socket]))))"

section \<open>Quoting\<close>

definition shellQuote :: "string \<Rightarrow> string" where
  "shellQuote s = CHR 0x27 # replace_all [CHR 0x27] [CHR 0x27, CHR 0x5C, CHR 0x27, CHR 0x27] s @ [CHR 0x27]"

definition remoteSocketDirCommand :: "string \<Rightarrow> string" where
  "remoteSocketDirCommand dir = ''mkdir -p -m 700 -- '' @ shellQuote dir"

definition removeRemoteFileCommand :: "string \<Rightarrow> string" where
  "removeRemoteFileCommand p =
     (let q = shellQuote p in ''[ -e '' @ q @ '' ] || exit 0; [ -S '' @ q @ '' ] && rm -f -- '' @ q)"

text \<open>
  How a POSIX shell splits a line into words: blanks separate, single quotes take
  everything up to the next one literally, a backslash outside quotes takes one character.
  \<open>None\<close> for an unfinished quote.
\<close>

fun sh_split :: "bool \<Rightarrow> string option \<Rightarrow> string \<Rightarrow> string list option" where
  "sh_split True cur [] = None"
| "sh_split False cur [] = Some (case cur of None \<Rightarrow> [] | Some w \<Rightarrow> [rev w])"
| "sh_split True cur (c # cs) =
     (if c = CHR 0x27 then sh_split False cur cs
      else sh_split True (Some (c # (case cur of None \<Rightarrow> [] | Some w \<Rightarrow> w))) cs)"
| "sh_split False cur (c # cs) =
     (let w = (case cur of None \<Rightarrow> [] | Some w \<Rightarrow> w) in
      if c = CHR '' '' then map_option (\<lambda>ws. (case cur of None \<Rightarrow> ws | Some w \<Rightarrow> rev w # ws)) (sh_split False None cs)
      else if c = CHR 0x27 then sh_split True (Some w) cs
      else if c = CHR 0x5C then (case cs of [] \<Rightarrow> None | d # ds \<Rightarrow> sh_split False (Some (d # w)) ds)
      else sh_split False (Some (c # w)) cs)"

section \<open>Tracking connections\<close>

record tracker =
  tconns :: "nat set"
  tclosed :: bool
  shut :: "nat set"

datatype track_op = TAdd nat | TRemove nat | TCloseAll

fun track :: "track_op \<Rightarrow> tracker \<Rightarrow> tracker" where
  "track (TAdd c) t = (if tclosed t then t\<lparr>shut := insert c (shut t)\<rparr> else t\<lparr>tconns := insert c (tconns t)\<rparr>)"
| "track (TRemove c) t = t\<lparr>tconns := tconns t - {c}\<rparr>"
| "track TCloseAll t = t\<lparr>tclosed := True, shut := shut t \<union> tconns t\<rparr>"

definition newConnTracker :: tracker where
  "newConnTracker = \<lparr>tconns = {}, tclosed = False, shut = {}\<rparr>"

section \<open>Facts\<close>

lemma sh_split_quoted:
  "sh_split True (Some w) (replace_all [CHR 0x27] [CHR 0x27, CHR 0x5C, CHR 0x27, CHR 0x27] s @ CHR 0x27 # rest)
   = sh_split False (Some (rev s @ w)) rest"
proof (induction s arbitrary: w)
  case (Cons c s)
  show ?case
  proof (cases "c = CHR 0x27")
    case True
    then show ?thesis using Cons.IH [of "c # w"] by simp
  next
    case False
    then show ?thesis using Cons.IH [of "c # w"] by simp
  qed
qed simp

lemma sh_split_shellQuote:
  "sh_split False None (shellQuote s @ rest) = sh_split False (Some (rev s)) rest"
  using sh_split_quoted [of "[]" s rest] by (simp add: shellQuote_def)

lemma track_shut_mono: "shut t \<subseteq> shut (fold track ops t)"
proof (induction ops arbitrary: t)
  case (Cons op ops)
  have "shut t \<subseteq> shut (track op t)" by (cases op) auto
  then show ?case using Cons [of "track op t"] by auto
qed simp

lemma track_after_close: "tclosed t \<Longrightarrow> TAdd c \<in> set ops \<Longrightarrow> c \<in> shut (fold track ops t)"
proof (induction ops arbitrary: t)
  case (Cons op ops)
  have closed: "tclosed (track op t)" using Cons.prems(1) by (cases op) auto
  show ?case
  proof (cases "op = TAdd c")
    case True
    then have "c \<in> shut (track op t)" using Cons.prems(1) by simp
    then show ?thesis using track_shut_mono [of "track op t" ops] by auto
  qed (use Cons closed in auto)
qed simp

section \<open>Properties\<close>



text \<open>
  No path can break out of a remote command: the shell that runs the \<open>mkdir\<close> and the guarded
  \<open>rm\<close> sees exactly the intended words, with the path as one word, whatever bytes it has.
\<close>
theorem remote_commands_quote_exactly:
  "sh_split False None (remoteSocketDirCommand p) = Some [''mkdir'', ''-p'', ''-m'', ''700'', ''--'', p]
   \<and> sh_split False None (removeRemoteFileCommand p)
     = Some [''['', ''-e'', p, '']'', ''||'', ''exit'', ''0;'', ''['', ''-S'', p, '']'', ''&&'', ''rm'', ''-f'', ''--'', p]"
  using sh_split_shellQuote [of p "[]"]
  by (simp add: remoteSocketDirCommand_def removeRemoteFileCommand_def Let_def sh_split_shellQuote)

text \<open>
  Shutdown closes every relayed connection: those tracked at the moment of \<open>closeAll\<close>, and
  those that register afterwards, in whatever order the goroutines call.
\<close>
theorem tracker_closes_everything:
  assumes "ops = before @ TCloseAll # after"
    and "c \<in> tconns (fold track before newConnTracker) \<or> TAdd c \<in> set after"
  shows "c \<in> shut (fold track ops newConnTracker)"
proof -
  let ?t = "track TCloseAll (fold track before newConnTracker)"
  have "fold track ops newConnTracker = fold track after ?t" using assms(1) by simp
  moreover have "c \<in> shut (fold track after ?t)" if "c \<in> tconns (fold track before newConnTracker)"
    using that track_shut_mono [of ?t after] by auto
  moreover have "c \<in> shut (fold track after ?t)" if "TAdd c \<in> set after"
    by (rule track_after_close [OF _ that]) simp
  ultimately show ?thesis using assms(2) by auto
qed

theorem tracker_closes_everything_witness:
  "{1, 2} \<subseteq> shut (fold track [TAdd 1, TCloseAll, TRemove 1, TAdd 2] newConnTracker)"
  using tracker_closes_everything [of _ "[TAdd 1]" "[TRemove 1, TAdd 2]" 1]
    tracker_closes_everything [of _ "[TAdd 1]" "[TRemove 1, TAdd 2]" 2]
  by (simp add: newConnTracker_def)

end
