(* ===== verification/Events.thy ===== *)
theory Events
  imports KVPath
begin

text \<open>
  \<open>internal/events/events.go\<close>, \<open>validEvent\<close> and \<open>sanitise\<close> of \<open>internal/peer/events.go\<close>
  and \<open>cmd/dotvault/secretevents.go\<close>: notices that a secret was written, how a hub fans
  them out, and how each daemon acts on a notice once. A time is a number of nanoseconds,
  \<open>None\<close> the zero time.
\<close>

record event =
  Key :: string
  Version :: int
  Source :: string
  Time :: "int option"

definition subscriberBuffer :: nat where
  "subscriberBuffer = 32"

definition MaxSubscribers :: nat where
  "MaxSubscribers = 64"

section \<open>The hub\<close>

text \<open>
  A channel is known by the order in which it was made. \<open>once\<close> says that its cancel
  function has begun, \<open>shut\<close> that the channel is closed; sending on a closed channel panics.
\<close>

record subscription =
  queue :: "event list"
  once :: bool
  shut :: bool

record hub =
  chans :: "subscription list"
  subs :: "nat list"
  panicked :: bool

definition NewHub :: hub where
  "NewHub = \<lparr>chans = [], subs = [], panicked = False\<rparr>"

definition upd_chan :: "nat \<Rightarrow> (subscription \<Rightarrow> subscription) \<Rightarrow> hub \<Rightarrow> hub" where
  "upd_chan i f h = h\<lparr>chans := (chans h)[i := f (chans h ! i)]\<rparr>"

definition deliver :: "event \<Rightarrow> nat \<Rightarrow> hub \<Rightarrow> hub" where
  "deliver e i h =
     (if shut (chans h ! i) then h\<lparr>panicked := True\<rparr>
      else if length (queue (chans h ! i)) < subscriberBuffer
      then upd_chan i (\<lambda>c. c\<lparr>queue := queue c @ [e]\<rparr>) h
      else h)"

definition stamped :: "int \<Rightarrow> event \<Rightarrow> event" where
  "stamped now e = (if Time e = None then e\<lparr>Time := Some now\<rparr> else e)"

definition Publish :: "int \<Rightarrow> event \<Rightarrow> hub \<Rightarrow> hub" where
  "Publish now e h = fold (deliver (stamped now e)) (subs h) h"

definition Subscribe :: "hub \<Rightarrow> (nat \<times> hub) option" where
  "Subscribe h =
     (if MaxSubscribers \<le> length (subs h) then None
      else Some (length (chans h),
        h\<lparr>chans := chans h @ [\<lparr>queue = [], once = False, shut = False\<rparr>], subs := length (chans h) # subs h\<rparr>))"

text \<open>The cancel function: its body runs once, first under the lock, then closing the channel.\<close>

definition cancel_begin :: "nat \<Rightarrow> hub \<Rightarrow> hub" where
  "cancel_begin i h =
     (if once (chans h ! i) then h
      else (upd_chan i (\<lambda>c. c\<lparr>once := True\<rparr>) h)\<lparr>subs := filter (\<lambda>j. j \<noteq> i) (subs h)\<rparr>)"

definition cancel_end :: "nat \<Rightarrow> hub \<Rightarrow> hub" where
  "cancel_end i h = (if shut (chans h ! i) then h\<lparr>panicked := True\<rparr> else upd_chan i (\<lambda>c. c\<lparr>shut := True\<rparr>) h)"

inductive hub_step :: "hub \<Rightarrow> hub \<Rightarrow> bool" where
  subscribed: "Subscribe h = Some (i, h') \<Longrightarrow> hub_step h h'"
| published: "hub_step h (Publish now e h)"
| cancelling: "i < length (chans h) \<Longrightarrow> hub_step h (cancel_begin i h)"
| cancelled: "i < length (chans h) \<Longrightarrow> once (chans h ! i) \<Longrightarrow> \<not> shut (chans h ! i) \<Longrightarrow> hub_step h (cancel_end i h)"
| received: "i < length (chans h) \<Longrightarrow> queue (chans h ! i) = e # es \<Longrightarrow> hub_step h (upd_chan i (\<lambda>c. c\<lparr>queue := es\<rparr>) h)"

inductive hub_run :: "hub \<Rightarrow> bool" where
  start: "hub_run NewHub"
| later: "hub_run h \<Longrightarrow> hub_step h h' \<Longrightarrow> hub_run h'"

section \<open>Acting once\<close>

definition seenPerKey :: nat where
  "seenPerKey = 8"

definition maxSeenKeys :: nat where
  "maxSeenKeys = 1024"

type_synonym seen = "int list gomap"

text \<open>The loop over the window leaves its smallest version, \<open>0\<close> when it is empty.\<close>

definition lowest_of :: "int list \<Rightarrow> int" where
  "lowest_of vs = foldl (\<lambda>low v. if low = 0 \<or> v < low then v else low) 0 vs"

definition Admit :: "event \<Rightarrow> seen \<Rightarrow> bool \<times> seen" where
  "Admit e s =
     (if Version e \<le> 0 then (False, s)
      else (let entry = map_of s (Key e);
                recent = (case entry of None \<Rightarrow> [] | Some vs \<Rightarrow> vs);
                table = (if entry = None \<and> maxSeenKeys \<le> length s then [] else s)
            in if Version e \<in> set recent then (False, table)
               else (let kept = (if Version e < lowest_of recent then [] else recent) @ [Version e];
                         window = (if length kept > seenPerKey then drop (length kept - seenPerKey) kept else kept)
                     in (True, mput (Key e) window table))))"

section \<open>What a notice from a peer must be\<close>

definition validEvent :: "event \<Rightarrow> bool" where
  "validEvent e \<longleftrightarrow>
     0 < Version e \<and> Key e \<noteq> [] \<and> length (Key e) \<le> 256
     \<and> \<not> list_ex (\<lambda>c. (of_char c :: nat) < 32 \<or> (of_char c :: nat) = 127) (Key e)
     \<and> clean (Key e) = Inr (Key e)"

definition sanitise :: "int \<Rightarrow> event \<Rightarrow> event" where
  "sanitise now e = e\<lparr>Source := (if Source e \<in> {''refresh'', ''watch''} then Source e else []), Time := Some now\<rparr>"

section \<open>What a daemon does with a notice\<close>

text \<open>
  A change this process wrote (\<open>Local\<close>) is recorded and published; every change triggers a
  sync. A notice a relay has admitted triggers a sync and is published again. The result is
  the new table and the events published.
\<close>

definition secretChangeHook :: "bool \<Rightarrow> event \<Rightarrow> seen \<Rightarrow> seen \<times> event list" where
  "secretChangeHook isLocal e s =
     (if \<not> isLocal then (s, []) else case Admit e s of (ok, s') \<Rightarrow> (s', if ok then [e] else []))"

text \<open>\<open>Relay.handle\<close> up to its fan-out, with \<open>relayedNotice\<close> as the callback.\<close>

definition handle_notice :: "int \<Rightarrow> event \<Rightarrow> seen \<Rightarrow> seen \<times> event list" where
  "handle_notice now e s =
     (if \<not> validEvent e then (s, [])
      else case Admit e s of (ok, s') \<Rightarrow> (s', if ok then [sanitise now e] else []))"

fun handle_all :: "int \<Rightarrow> event list \<Rightarrow> seen \<Rightarrow> seen \<times> event list" where
  "handle_all now [] s = (s, [])"
| "handle_all now (e # es) s =
     (case handle_notice now e s of (s1, out1) \<Rightarrow>
        case handle_all now es s1 of (s2, out2) \<Rightarrow> (s2, out1 @ out2))"


section \<open>Facts about the hub\<close>

definition hub_inv :: "hub \<Rightarrow> bool" where
  "hub_inv h \<longleftrightarrow> \<not> panicked h \<and> distinct (subs h) \<and> length (subs h) \<le> MaxSubscribers
     \<and> (\<forall>i \<in> set (subs h). i < length (chans h) \<and> \<not> once (chans h ! i))
     \<and> (\<forall>c \<in> set (chans h). length (queue c) \<le> subscriberBuffer \<and> (shut c \<longrightarrow> once c))"

lemma upd_chan_simps [simp]:
  "subs (upd_chan i f h) = subs h" "panicked (upd_chan i f h) = panicked h"
  "length (chans (upd_chan i f h)) = length (chans h)"
  "i < length (chans h) \<Longrightarrow> chans (upd_chan i f h) ! j = (if j = i then f (chans h ! i) else chans h ! j)"
  by (simp_all add: upd_chan_def)

text \<open>What a subscription looks like after an event: longer by one if it had room.\<close>

definition with_event :: "event \<Rightarrow> subscription \<Rightarrow> subscription" where
  "with_event e c = (if length (queue c) < subscriberBuffer then c\<lparr>queue := queue c @ [e]\<rparr> else c)"

lemma deliver_open: "\<not> shut (chans h ! i) \<Longrightarrow> deliver e i h = upd_chan i (with_event e) h"
  by (cases h) (auto simp: deliver_def with_event_def upd_chan_def)

lemma fold_deliver:
  "distinct is \<Longrightarrow> \<forall>i \<in> set is. i < length (chans h) \<and> \<not> shut (chans h ! i) \<Longrightarrow>
   subs (fold (deliver e) is h) = subs h \<and> panicked (fold (deliver e) is h) = panicked h
   \<and> length (chans (fold (deliver e) is h)) = length (chans h)
   \<and> (\<forall>j < length (chans h). chans (fold (deliver e) is h) ! j =
        (if j \<in> set is then with_event e (chans h ! j) else chans h ! j))"
proof (induction "is" arbitrary: h)
  case (Cons i "is")
  let ?h = "upd_chan i (with_event e) h"
  have "distinct is" "\<forall>j \<in> set is. j < length (chans ?h) \<and> \<not> shut (chans ?h ! j)"
    using Cons.prems by auto
  from Cons.IH [OF this] Cons.prems show ?case by (auto simp: deliver_open)
qed simp

lemma hub_inv_open: "hub_inv h \<Longrightarrow> i \<in> set (subs h) \<Longrightarrow> i < length (chans h) \<and> \<not> shut (chans h ! i)"
  by (auto simp: hub_inv_def)

lemma Publish_exact:
  assumes "hub_inv h"
  shows "subs (Publish now e h) = subs h \<and> panicked (Publish now e h) = panicked h
    \<and> length (chans (Publish now e h)) = length (chans h)
    \<and> (\<forall>j < length (chans h). chans (Publish now e h) ! j =
        (if j \<in> set (subs h) then with_event (stamped now e) (chans h ! j) else chans h ! j))"
  unfolding Publish_def
  by (rule fold_deliver) (use assms hub_inv_open in \<open>auto simp: hub_inv_def\<close>)

lemma with_event_keeps [simp]:
  "once (with_event e c) = once c" "shut (with_event e c) = shut c"
  "length (queue c) \<le> subscriberBuffer \<Longrightarrow> length (queue (with_event e c)) \<le> subscriberBuffer"
  by (auto simp: with_event_def)

lemma hub_inv_nth:
  "hub_inv h \<longleftrightarrow> \<not> panicked h \<and> distinct (subs h) \<and> length (subs h) \<le> MaxSubscribers
     \<and> (\<forall>i \<in> set (subs h). i < length (chans h) \<and> \<not> once (chans h ! i))
     \<and> (\<forall>j < length (chans h). length (queue (chans h ! j)) \<le> subscriberBuffer \<and> (shut (chans h ! j) \<longrightarrow> once (chans h ! j)))"
  unfolding hub_inv_def by (simp add: all_set_conv_all_nth)

lemma hub_inv_step: "hub_step h h' \<Longrightarrow> hub_inv h \<Longrightarrow> hub_inv h'"
proof (induction rule: hub_step.induct)
  case (subscribed h i h')
  then show ?case
    by (auto simp: Subscribe_def hub_inv_def nth_append subscriberBuffer_def less_Suc_eq split: if_splits)
next
  case (published h now e)
  then show ?case using Publish_exact [OF published, of now e] by (auto simp: hub_inv_nth)
next
  case (cancelling i h)
  then show ?case
    by (auto simp: hub_inv_nth cancel_begin_def le_trans [OF length_filter_le])
next
  case (cancelled i h)
  then show ?case by (auto simp: hub_inv_nth cancel_end_def)
next
  case (received i h e es)
  then have "length (queue (chans h ! i)) \<le> subscriberBuffer" by (auto simp: hub_inv_nth)
  with received show ?case by (auto simp: hub_inv_nth)
qed

lemma hub_run_inv: "hub_run h \<Longrightarrow> hub_inv h"
proof (induction rule: hub_run.induct)
  case start
  show ?case by (simp add: hub_inv_def NewHub_def)
qed (rule hub_inv_step)


section \<open>Facts about the window\<close>

definition window :: "seen \<Rightarrow> string \<Rightarrow> int list" where
  "window s k = (case map_of s k of None \<Rightarrow> [] | Some vs \<Rightarrow> vs)"

definition seen_inv :: "seen \<Rightarrow> bool" where
  "seen_inv s \<longleftrightarrow> keys_ok s \<and> length s \<le> maxSeenKeys
     \<and> (\<forall>(k, w) \<in> set s. w \<noteq> [] \<and> length w \<le> seenPerKey \<and> distinct w \<and> (\<forall>v \<in> set w. 0 < v))"

lemma lowest_loop:
  "0 < low \<Longrightarrow> \<forall>v \<in> set vs. 0 < v \<Longrightarrow>
   foldl (\<lambda>low v. if low = 0 \<or> v < low then v else low) low vs = Min (insert low (set vs))" for low :: int
proof (induction vs arbitrary: low)
  case (Cons v vs)
  show ?case
  proof (cases "v < low")
    case True
    then have "Min (insert low (set (v # vs))) = Min (insert v (set vs))"
      by (simp add: insert_commute [of low v] Min_insert2 min_def Min.insert_not_elem)
        (cases "vs = []"; auto simp: min_def)
    with True Cons show ?thesis by simp
  next
    case False
    then have "Min (insert low (set (v # vs))) = Min (insert low (set vs))"
      by (cases "vs = []") (auto simp: min_def)
    with False Cons show ?thesis by simp
  qed
qed simp

lemma lowest_of_Min: "\<forall>v \<in> set vs. 0 < v \<Longrightarrow> vs \<noteq> [] \<Longrightarrow> lowest_of vs = Min (set vs)"
  unfolding lowest_of_def by (cases vs) (simp_all add: lowest_loop)

lemma lowest_of_Nil [simp]: "lowest_of [] = 0"
  by (simp add: lowest_of_def)

lemma window_inv: "seen_inv s \<Longrightarrow> length (window s k) \<le> seenPerKey \<and> distinct (window s k) \<and> (\<forall>v \<in> set (window s k). 0 < v)"
  by (auto simp: seen_inv_def window_def dest: map_of_SomeD split: option.split)

text \<open>The table that \<open>Admit\<close> writes into, and the window it writes.\<close>

definition table_for :: "string \<Rightarrow> seen \<Rightarrow> seen" where
  "table_for k s = (if map_of s k = None \<and> maxSeenKeys \<le> length s then [] else s)"

definition new_window :: "int \<Rightarrow> int list \<Rightarrow> int list" where
  "new_window v w = (let kept = (if v < lowest_of w then [] else w) @ [v] in drop (length kept - seenPerKey) kept)"

lemma Admit_eq:
  "Admit e s =
     (if Version e \<le> 0 then (False, s)
      else if Version e \<in> set (window s (Key e)) then (False, table_for (Key e) s)
      else (True, mput (Key e) (new_window (Version e) (window s (Key e))) (table_for (Key e) s)))"
proof -
  have clip: "(if n < length xs then drop (length xs - n) xs else xs) = drop (length xs - n) xs" for n and xs :: "int list"
    by simp
  show ?thesis
    by (simp only: Admit_def Let_def window_def [symmetric] table_for_def [symmetric] new_window_def clip)
qed

lemma new_window_inv:
  assumes "length w \<le> seenPerKey" "distinct w" "\<forall>v \<in> set w. 0 < v" "0 < v" "v \<notin> set w"
  shows "new_window v w \<noteq> [] \<and> length (new_window v w) \<le> seenPerKey \<and> distinct (new_window v w)
    \<and> (\<forall>u \<in> set (new_window v w). 0 < u) \<and> v \<in> set (new_window v w) \<and> set (new_window v w) \<subseteq> insert v (set w)"
proof -
  define kept where "kept = (if v < lowest_of w then [] else w) @ [v]"
  define n where "n = length kept - seenPerKey"
  have nw: "new_window v w = drop n kept" by (simp add: new_window_def kept_def n_def Let_def)
  have kept: "distinct kept" "set kept \<subseteq> insert v (set w)" "kept \<noteq> []" "last kept = v"
    using assms(2,5) by (simp_all add: kept_def subset_insertI)
  have n: "n < length kept" using \<open>kept \<noteq> []\<close> by (simp add: n_def seenPerKey_def)
  then have l: "last (drop n kept) = v" "drop n kept \<noteq> []" using kept(4) by simp_all
  then have "v \<in> set (drop n kept)" using last_in_set [OF l(2)] by simp
  moreover have "length (drop n kept) \<le> seenPerKey" by (simp add: n_def)
  moreover have "set (drop n kept) \<subseteq> insert v (set w)" using kept(2) set_drop_subset [of n kept] by blast
  moreover have "distinct (drop n kept)" using kept(1) by simp
  moreover have "\<forall>u \<in> insert v (set w). 0 < u" using assms(3,4) by simp
  ultimately show ?thesis
    using l(2) unfolding nw by blast
qed

lemma table_for_inv: "seen_inv s \<Longrightarrow> seen_inv (table_for k s)"
  by (simp add: table_for_def seen_inv_def maxSeenKeys_def)

lemma Admit_inv:
  assumes "seen_inv s"
  shows "seen_inv (snd (Admit e s))"
proof (cases "0 < Version e \<and> Version e \<notin> set (window s (Key e))")
  case True
  let ?t = "table_for (Key e) s" and ?w = "new_window (Version e) (window s (Key e))"
  have t: "seen_inv ?t" by (rule table_for_inv [OF assms])
  have w: "?w \<noteq> [] \<and> length ?w \<le> seenPerKey \<and> distinct ?w \<and> (\<forall>u \<in> set ?w. 0 < u)"
    using new_window_inv [of "window s (Key e)" "Version e"] window_inv [OF assms, of "Key e"] True by blast
  have "length (mput (Key e) ?w ?t) \<le> maxSeenKeys"
  proof (cases "map_of s (Key e) = None \<and> maxSeenKeys \<le> length s")
    case False
    then have "?t = s" by (auto simp: table_for_def)
    with False assms show ?thesis
      by (auto simp: seen_inv_def length_mput map_of_eq_None_iff)
  qed (simp add: table_for_def maxSeenKeys_def)
  with t w show ?thesis
    using True set_mput_sub [of "Key e" ?w ?t] by (fastforce simp: Admit_eq seen_inv_def)
qed (use assms table_for_inv [OF assms] in \<open>auto simp: Admit_eq\<close>)

lemma handle_all_append:
  "handle_all now (es @ fs) s =
     (case handle_all now es s of (s1, out1) \<Rightarrow> case handle_all now fs s1 of (s2, out2) \<Rightarrow> (s2, out1 @ out2))"
  by (induction es arbitrary: s) (auto split: prod.splits)


section \<open>A burst of notices\<close>

definition ident :: "event \<Rightarrow> string \<times> int" where
  "ident e = (Key e, Version e)"

definition versions :: "string \<Rightarrow> event list \<Rightarrow> int set" where
  "versions k es = Version ` {e \<in> set es. Key e = k}"

definition first_version :: "string \<Rightarrow> event list \<Rightarrow> int" where
  "first_version k es = (case find (\<lambda>e. Key e = k) es of Some e \<Rightarrow> Version e | None \<Rightarrow> 0)"

text \<open>
  A burst the table can hold: well-formed notices of at most \<open>maxSeenKeys\<close> keys, at most
  \<open>seenPerKey\<close> versions of each, the lowest version of a key first.
\<close>

definition orderly :: "event list \<Rightarrow> bool" where
  "orderly es \<longleftrightarrow> list_all validEvent es \<and> card (Key ` set es) \<le> maxSeenKeys
     \<and> (\<forall>k \<in> Key ` set es. card (versions k es) \<le> seenPerKey)
     \<and> (\<forall>e \<in> set es. first_version (Key e) es \<le> Version e)"

text \<open>The table knows exactly the burst.\<close>

definition knows :: "event list \<Rightarrow> seen \<Rightarrow> bool" where
  "knows es s \<longleftrightarrow> seen_inv s \<and> fst ` set s = Key ` set es \<and> (\<forall>k. set (window s k) = versions k es)"

lemma versions_code: "versions k es = set (map Version (filter (\<lambda>e. Key e = k) es))"
  by (auto simp: versions_def)

lemma versions_snoc: "versions k (es @ [e]) = (if Key e = k then insert (Version e) (versions k es) else versions k es)"
  by (auto simp: versions_def)

lemma versions_iff: "(k, v) \<in> ident ` set es \<longleftrightarrow> v \<in> versions k es"
  by (auto simp: versions_def ident_def image_iff)

lemma versions_not_Nil: "versions k es \<noteq> {} \<longleftrightarrow> k \<in> Key ` set es"
  by (auto simp: versions_def)

lemma finite_versions [simp]: "finite (versions k es)"
  by (simp add: versions_def)

lemma first_version_append:
  "k \<in> Key ` set es \<Longrightarrow> first_version k (es @ fs) = first_version k es"
  by (auto simp: first_version_def find_append find_None_iff split: option.split)

lemma first_version_in:
  assumes "k \<in> Key ` set es"
  shows "first_version k es \<in> versions k es"
proof (cases "find (\<lambda>e. Key e = k) es")
  case None
  with assms show ?thesis by (auto simp: find_None_iff)
next
  case (Some e)
  with find_Some_prop [OF Some] show ?thesis by (auto simp: first_version_def versions_def)
qed

lemma orderly_prefix:
  assumes "orderly (es @ [e])"
  shows "orderly es"
proof -
  have "card (Key ` set es) \<le> card (Key ` set (es @ [e]))" by (rule card_mono) auto
  moreover have "card (versions k es) \<le> card (versions k (es @ [e]))" for k
    by (rule card_mono) (auto simp: versions_snoc)
  moreover have "first_version (Key x) es = first_version (Key x) (es @ [e])" if "x \<in> set es" for x
    using that first_version_append [of "Key x" es "[e]"] by simp
  ultimately show ?thesis using assms by (fastforce simp: orderly_def intro: order_trans)
qed

lemma knows_window: "knows es s \<Longrightarrow> set (window s k) = versions k es \<and> distinct (window s k)
    \<and> (\<forall>v \<in> versions k es. 0 < v) \<and> (map_of s k = None \<longleftrightarrow> k \<notin> Key ` set es)"
  using window_inv [of s k] by (auto simp: knows_def map_of_eq_None_iff)

lemma Admit_known:
  assumes "knows es s" "0 < Version e" "ident e \<in> ident ` set es"
  shows "Admit e s = (False, s)"
proof -
  have "Version e \<in> versions (Key e) es" using assms(3) by (simp add: ident_def versions_iff [symmetric])
  then have "Version e \<in> set (window s (Key e))" "map_of s (Key e) \<noteq> None"
    using knows_window [OF assms(1), of "Key e"] versions_not_Nil [of "Key e" es] by auto
  then show ?thesis using assms(2) by (auto simp: Admit_eq table_for_def)
qed

lemma Admit_new:
  assumes "knows es s" "orderly (es @ [e])" "ident e \<notin> ident ` set es"
  shows "fst (Admit e s) \<and> knows (es @ [e]) (snd (Admit e s))"
proof -
  let ?k = "Key e" and ?v = "Version e" and ?w = "window s (Key e)"
  have v: "0 < ?v" using assms(2) by (simp add: orderly_def validEvent_def)
  have w: "set ?w = versions ?k es" "distinct ?w" "\<forall>u \<in> set ?w. 0 < u"
    using knows_window [OF assms(1), of ?k] by auto
  have fresh: "?v \<notin> set ?w" using assms(3) w(1) by (simp add: ident_def versions_iff [symmetric])
  have low: "\<not> ?v < lowest_of ?w"
  proof (cases "?w = []")
    case False
    then have "?k \<in> Key ` set es" using w(1) versions_not_Nil [of ?k es] by auto
    then have f: "first_version ?k es \<in> set ?w" using first_version_in w(1) by blast
    have "first_version ?k (es @ [e]) \<le> ?v" using assms(2) by (simp add: orderly_def)
    with first_version_append [OF \<open>?k \<in> Key ` set es\<close>] have "first_version ?k es \<le> ?v" by simp
    moreover have "Min (set ?w) \<le> first_version ?k es" by (rule Min_le) (use f in simp_all)
    ultimately show ?thesis using lowest_of_Min [OF w(3) False] by simp
  qed (use v in simp)
  have "card (versions ?k (es @ [e])) = length (?w @ [?v])"
    using distinct_card [of "?w @ [?v]"] w fresh by (simp add: versions_snoc)
  then have len: "length (?w @ [?v]) \<le> seenPerKey" using assms(2) by (simp add: orderly_def)
  then have nw: "new_window ?v ?w = ?w @ [?v]" using low by (simp add: new_window_def)
  have "table_for ?k s = s"
  proof (cases "?k \<in> Key ` set es")
    case True
    then show ?thesis using knows_window [OF assms(1), of ?k] by (auto simp: table_for_def)
  next
    case False
    have "length s = card (fst ` set s)"
      using assms(1) distinct_card [OF keys_ok_distinct, of s] by (simp add: knows_def seen_inv_def)
    moreover have "card (Key ` set (es @ [e])) = Suc (card (Key ` set es))" using False by simp
    ultimately have "length s < maxSeenKeys" using assms(1,2) by (simp add: knows_def orderly_def)
    then show ?thesis by (simp add: table_for_def)
  qed
  then have eq: "Admit e s = (True, mput ?k (?w @ [?v]) s)"
    using v fresh nw by (simp add: Admit_eq)
  have "window (mput ?k (?w @ [?v]) s) k = (if k = ?k then ?w @ [?v] else window s k)" for k
    by (simp add: window_def)
  then show ?thesis
    using assms(1) Admit_inv [of s e] w(1) unfolding eq by (auto simp: knows_def fst_set_mput versions_snoc)
qed

lemma sanitise_simps [simp]:
  "Key (sanitise now e) = Key e" "Version (sanitise now e) = Version e" "ident (sanitise now e) = ident e"
  "validEvent (sanitise now e) = validEvent e"
  by (simp_all add: sanitise_def ident_def validEvent_def)

lemma handle_burst:
  assumes "orderly es"
  shows "\<exists>s out. handle_all now es [] = (s, out) \<and> knows es s \<and> list_all validEvent out
    \<and> distinct (map ident out) \<and> ident ` set out = ident ` set es
    \<and> (\<forall>k \<in> Key ` set es. first_version k out = first_version k es)"
  using assms
proof (induction es rule: rev_induct)
  case Nil
  show ?case by (simp add: knows_def seen_inv_def window_def versions_def)
next
  case (snoc e es)
  from snoc.IH [OF orderly_prefix [OF snoc.prems]] obtain s out where
    IH: "handle_all now es [] = (s, out)" "knows es s" "list_all validEvent out" "distinct (map ident out)"
      "ident ` set out = ident ` set es" "\<forall>k \<in> Key ` set es. first_version k out = first_version k es" by blast
  have valid: "validEvent e" "0 < Version e" using snoc.prems by (simp_all add: orderly_def validEvent_def)
  have keys: "Key ` set out = Key ` set es" using arg_cong [OF IH(5), of "\<lambda>A. fst ` A"] by (simp add: image_image ident_def)
  show ?case
  proof (cases "ident e \<in> ident ` set es")
    case True
    then have "handle_all now (es @ [e]) [] = (s, out)"
      using IH(1) valid Admit_known [OF IH(2) valid(2) True] by (simp add: handle_all_append handle_notice_def)
    moreover have "knows (es @ [e]) s" "Key e \<in> Key ` set es"
      using IH(2) True versions_iff [of "Key e" "Version e" es]
      by (auto simp: knows_def versions_snoc ident_def insert_absorb image_iff)
    moreover have "first_version k (es @ [e]) = first_version k es" if "k \<in> Key ` set es" for k
      by (rule first_version_append [OF that])
    ultimately show ?thesis using IH True by (auto simp: insert_absorb)
  next
    case False
    obtain s' where s': "Admit e s = (True, s')" "knows (es @ [e]) s'"
      using Admit_new [OF IH(2) snoc.prems False] by (cases "Admit e s") auto
    have "handle_all now (es @ [e]) [] = (s', out @ [sanitise now e])"
      using IH(1) valid s' by (simp add: handle_all_append handle_notice_def)
    moreover have "first_version k (out @ [sanitise now e]) = first_version k (es @ [e])"
      if "k \<in> Key ` set (es @ [e])" for k
    proof (cases "k \<in> Key ` set es")
      case True
      then show ?thesis using IH(6) keys first_version_append by metis
    next
      case False
      then have "find (\<lambda>e. Key e = k) es = None" "find (\<lambda>e. Key e = k) out = None"
        using keys by (auto simp: find_None_iff)
      with that False show ?thesis by (simp add: first_version_def find_append)
    qed
    ultimately show ?thesis using IH s' valid False by (auto simp: image_iff)
  qed
qed


lemma handle_known:
  assumes "knows es s" "list_all validEvent fs" "ident ` set fs \<subseteq> ident ` set es"
  shows "handle_all now fs s = (s, [])"
  using assms(2,3)
proof (induction fs)
  case (Cons f fs)
  then have "validEvent f" "ident f \<in> ident ` set es" by simp_all
  then have "handle_notice now f s = (s, [])"
    using Admit_known [OF assms(1), of f] by (simp add: handle_notice_def validEvent_def)
  with Cons show ?case by simp
qed simp

lemma orderly_relayed:
  assumes "orderly es" "list_all validEvent out" "ident ` set out = ident ` set es"
    and "\<forall>k \<in> Key ` set es. first_version k out = first_version k es"
  shows "orderly out"
proof -
  have "fst ` ident ` set out = fst ` ident ` set es" using assms(3) by simp
  then have keys: "Key ` set out = Key ` set es" by (simp add: image_image ident_def)
  have vers: "versions k out = versions k es" for k
    using assms(3) versions_iff [of k _ out] versions_iff [of k _ es] by auto
  have "first_version (Key e) out \<le> Version e" if "e \<in> set out" for e
  proof -
    have "ident e \<in> ident ` set es" using that assms(3) by blast
    then obtain f where "f \<in> set es" "Key f = Key e" "Version f = Version e" by (auto simp: ident_def)
    with assms(1,4) show ?thesis by (force simp: orderly_def)
  qed
  with assms(1,2) keys vers show ?thesis by (simp add: orderly_def)
qed

section \<open>Properties\<close>

text \<open>
  C19. The hub never sends on a closed channel, whatever publishers, subscribers and cancels
  interleave, and it stays within its bounds: at most \<open>MaxSubscribers\<close> subscriptions and
  \<open>subscriberBuffer\<close> waiting events each. An event reaches, at the end of its queue, every
  subscriber that has room, and nobody else.
\<close>
theorem hub_invariant:
  assumes "hub_run h"
  shows "\<not> panicked h \<and> length (subs h) \<le> MaxSubscribers
    \<and> (\<forall>c \<in> set (chans h). length (queue c) \<le> subscriberBuffer)
    \<and> (\<forall>i < length (chans h). queue (chans (Publish now e h) ! i) =
        (if i \<in> set (subs h) \<and> length (queue (chans h ! i)) < subscriberBuffer
         then queue (chans h ! i) @ [stamped now e] else queue (chans h ! i)))"
proof -
  have inv: "hub_inv h" by (rule hub_run_inv [OF assms])
  with Publish_exact [OF inv, of now e] show ?thesis
    by (auto simp: hub_inv_def with_event_def)
qed

theorem hub_invariant_witness:
  "\<not> panicked (Publish 5 \<lparr>Key = ''gh'', Version = 3, Source = [], Time = None\<rparr>
     (cancel_end 0 (cancel_begin 0 (snd (the (Subscribe NewHub))))))"
proof -
  let ?h = "snd (the (Subscribe NewHub))"
  have "hub_run ?h"
    by (rule hub_run.later [OF hub_run.start], rule hub_step.subscribed [of _ "0"], code_simp)
  then have "hub_run (cancel_begin 0 ?h)"
    by (rule hub_run.later) (rule hub_step.cancelling, code_simp)
  then have "hub_run (cancel_end 0 (cancel_begin 0 ?h))"
    by (rule hub_run.later) (rule hub_step.cancelled; code_simp)
  then have "hub_run (Publish 5 \<lparr>Key = ''gh'', Version = 3, Source = [], Time = None\<rparr> (cancel_end 0 (cancel_begin 0 ?h)))"
    by (rule hub_run.later) (rule hub_step.published)
  from hub_invariant [OF this] show ?thesis by blast
qed


definition burst :: "int list \<Rightarrow> event list" where
  "burst vs = map (\<lambda>v. \<lparr>Key = ''gh'', Version = v, Source = ''refresh'', Time = None\<rparr>) vs"


text \<open>One turn of two daemons that relay to each other: what is on the way to the first.\<close>

definition mesh_turn :: "int \<Rightarrow> seen \<times> seen \<times> event list \<Rightarrow> seen \<times> seen \<times> event list" where
  "mesh_turn now st =
     (case st of (a, b, es) \<Rightarrow>
        case handle_all now es a of (a', out) \<Rightarrow>
          case handle_all now out b of (b', ret) \<Rightarrow> (a', b', ret))"

text \<open>
  Finding: beyond eight versions the two never settle. Nine writes of one secret that are on
  the way at once come back as nine new ones, at every turn and for ever: the ninth pushes
  the first out of the window, so the first is taken for a recreated secret, which clears
  the window for the rest.
\<close>
theorem nine_versions_circulate_forever:
  "map ident (snd (snd ((mesh_turn now ^^ n) ([], [], burst [1 .. 9])))) = map (\<lambda>v. (''gh'', v)) [1 .. 9]"
proof -
  let ?w = "[(''gh'', [2, 3, 4, 5, 6, 7, 8, 9])] :: seen"
  let ?es = "map (sanitise now) (burst [1 .. 9])"
  have valid: "validEvent \<lparr>Key = ''gh'', Version = v, Source = ''refresh'', Time = t\<rparr>" if "0 < v" for v t
  proof -
    have "validEvent \<lparr>Key = ''gh'', Version = 1, Source = [], Time = None\<rparr>" by code_simp
    with that show ?thesis by (simp add: validEvent_def)
  qed
  have upto: "[1 .. 9] = [1, 2, 3, 4, 5, 6, 7, 8, 9 :: int]" by (simp add: upto_rec_numeral upto.simps)
  have admit: "handle_all now (map f (burst [1 .. 9])) s = (?w, map (sanitise now) (map f (burst [1 .. 9])))"
    if "s = [] \<or> s = ?w" and "f = id \<or> f = sanitise now" for s f
    using that
    by (elim disjE)
      (simp_all add: upto burst_def handle_notice_def valid sanitise_def Admit_eq table_for_def window_def
        new_window_def lowest_of_def maxSeenKeys_def seenPerKey_def)
  have twice: "sanitise now (sanitise now e) = sanitise now e" for e by (simp add: sanitise_def)
  have turn: "mesh_turn now (s, s, map f (burst [1 .. 9])) = (?w, ?w, ?es)"
    if "s = [] \<or> s = ?w" and "f = id \<or> f = sanitise now" for s f
    using admit [OF that] admit [OF that(1), of "sanitise now"] that(2)
    by (auto simp: mesh_turn_def comp_def twice)
  have "(mesh_turn now ^^ Suc n) ([], [], burst [1 .. 9]) = (?w, ?w, ?es)" for n
  proof (induction n)
    case 0
    show ?case using turn [of "[]" id] by simp
  next
    case (Suc n)
    then show ?case using turn [of ?w "sanitise now"] by simp
  qed
  moreover have "map ident ?es = map ident (burst [1 .. 9])" by simp
  moreover have "map ident (burst [1 .. 9]) = map (\<lambda>v. (''gh'', v)) [1 .. 9]" by (simp add: burst_def ident_def)
  ultimately show ?thesis by (cases n) simp_all
qed

end
