(* ===== verification/EventStream.thy ===== *)
theory EventStream
  imports Events
begin

text \<open>
  The stream of notices between two daemons: \<open>handleEvents\<close> of \<open>internal/web/events.go\<close>
  writes it, \<open>StreamEvents\<close> of \<open>internal/peer/events.go\<close> reads it. The JSON codec of an
  event is a parameter.
\<close>

definition eventLineLimit :: nat where
  "eventLineLimit = 65536"

text \<open>
  \<open>bufio.Scanner\<close>: the lines of a text without their newline and one carriage return
  before it; nothing after a final newline. A line that does not fit its buffer stays as it
  is, the reader stops there.
\<close>

definition strip_cr :: "string \<Rightarrow> string" where
  "strip_cr l = (if eventLineLimit \<le> length l then l else trim_suffix [CHR 0x0D] l)"

definition scan_lines :: "string \<Rightarrow> string list" where
  "scan_lines s =
     (let ls = split_ch (CHR 0x0A) s
      in map strip_cr (if last ls = [] then butlast ls else ls))"

datatype stream_end = StreamEOF | EventTooLarge | LineTooLong

fun sse_lines :: "(string \<Rightarrow> event option) \<Rightarrow> string \<Rightarrow> string \<Rightarrow> string list \<Rightarrow> event list \<times> stream_end" where
  "sse_lines dec name data [] = ([], StreamEOF)"
| "sse_lines dec name data (l # ls) =
     (if eventLineLimit \<le> length l then ([], LineTooLong)
      else if l = [] then
        apfst (\<lambda>es. (if name = ''kv-write'' \<and> data \<noteq> []
                     then (case dec data of Some e \<Rightarrow> if validEvent e then e # es else es | None \<Rightarrow> es)
                     else es))
          (sse_lines dec [] [] ls)
      else if has_prefix '':'' l then sse_lines dec name data ls
      else if has_prefix ''event:'' l then sse_lines dec (trim_space (trim_prefix ''event:'' l)) data ls
      else if has_prefix ''data:'' l then
        (let data' = (if data = [] then data else data @ [CHR 0x0A]) @ trim_prefix '' '' (trim_prefix ''data:'' l)
         in if eventLineLimit < length data' then ([], EventTooLarge) else sse_lines dec name data' ls)
      else sse_lines dec name data ls)"

definition StreamEvents :: "(string \<Rightarrow> event option) \<Rightarrow> string \<Rightarrow> event list \<times> stream_end" where
  "StreamEvents dec body = sse_lines dec [] [] (scan_lines body)"

text \<open>What a stream sends: the opening comment, heartbeats, and one frame for each event.\<close>

datatype sse_item = Heartbeat | Notice event

fun frame :: "(event \<Rightarrow> string) \<Rightarrow> sse_item \<Rightarrow> string" where
  "frame enc Heartbeat = '': keepalive'' @ [CHR 0x0A, CHR 0x0A]"
| "frame enc (Notice e) =
     ''event: kv-write'' @ [CHR 0x0A] @ ''id: '' @ Key e @ ''@'' @ show_int (Version e) @ [CHR 0x0A]
     @ ''data: '' @ enc e @ [CHR 0x0A, CHR 0x0A]"

definition handleEvents :: "(event \<Rightarrow> string) \<Rightarrow> sse_item list \<Rightarrow> string" where
  "handleEvents enc items = '': connected'' @ [CHR 0x0A, CHR 0x0A] @ concat (map (frame enc) items)"

section \<open>Facts\<close>

abbreviation LF :: char where
  "LF \<equiv> CHR 0x0A"

lemma split_lines:
  "\<forall>l \<in> set ls. LF \<notin> set l \<Longrightarrow> split_ch LF (concat (map (\<lambda>l. l @ [LF]) ls)) = ls @ [[]]"
  by (induction ls) (simp_all add: split_ch_append)

lemma strip_cr_id: "CHR 0x0D \<notin> set l \<Longrightarrow> strip_cr l = l"
  by (auto simp: strip_cr_def trim_suffix_def cut_suffix_Some_iff split: option.split)

lemma scan_lines_concat:
  "\<forall>l \<in> set ls. LF \<notin> set l \<and> CHR 0x0D \<notin> set l \<Longrightarrow> scan_lines (concat (map (\<lambda>l. l @ [LF]) ls)) = ls"
  by (simp add: scan_lines_def Let_def split_lines strip_cr_id map_idI)

lemma length_show_nat: "n < 10 ^ k \<Longrightarrow> 0 < k \<Longrightarrow> length (show_nat n) \<le> k"
proof (induction k arbitrary: n)
  case (Suc k)
  show ?case
  proof (cases "n < 10")
    case False
    then have "k \<noteq> 0" using Suc.prems by (cases k) auto
    moreover have "n div 10 < 10 ^ k" using Suc.prems by (simp add: less_mult_imp_div_less mult.commute)
    ultimately have "length (show_nat (n div 10)) \<le> k" using Suc.IH by simp
    then show ?thesis using False by (subst show_nat.simps) simp
  qed (subst show_nat.simps, simp)
qed simp

lemma show_nat_plain: "c \<in> set (show_nat n) \<Longrightarrow> c \<noteq> LF \<and> c \<noteq> CHR 0x0D"
  using digits_show_nat [of n] by (auto simp: list_all_iff digit_def)

text \<open>A frame by lines.\<close>

fun frame_lines :: "(event \<Rightarrow> string) \<Rightarrow> sse_item \<Rightarrow> string list" where
  "frame_lines enc Heartbeat = ['': keepalive'', []]"
| "frame_lines enc (Notice e) =
     [''event: kv-write'', ''id: '' @ Key e @ ''@'' @ show_int (Version e), ''data: '' @ enc e, []]"

lemma frame_by_lines: "frame enc i = concat (map (\<lambda>l. l @ [LF]) (frame_lines enc i))"
  by (cases i) simp_all

lemma handleEvents_lines:
  "handleEvents enc items = concat (map (\<lambda>l. l @ [LF]) ([('': connected''), []] @ concat (map (frame_lines enc) items)))"
  by (induction items) (simp_all add: handleEvents_def frame_by_lines)

definition sendable :: "(string \<Rightarrow> event option) \<Rightarrow> (event \<Rightarrow> string) \<Rightarrow> event \<Rightarrow> bool" where
  "sendable dec enc e \<longleftrightarrow> validEvent e \<and> Version e < 2 ^ 63
     \<and> dec (enc e) = Some e \<and> enc e \<noteq> [] \<and> length (enc e) < eventLineLimit - 6
     \<and> LF \<notin> set (enc e) \<and> CHR 0x0D \<notin> set (enc e)"

lemma valid_key: "validEvent e \<Longrightarrow> LF \<notin> set (Key e) \<and> CHR 0x0D \<notin> set (Key e) \<and> length (Key e) \<le> 256"
  by (fastforce simp: validEvent_def list_ex_iff)

lemma show_version:
  assumes "validEvent e" "Version e < 2 ^ 63"
  shows "length (show_int (Version e)) \<le> 19 \<and> LF \<notin> set (show_int (Version e)) \<and> CHR 0x0D \<notin> set (show_int (Version e))"
proof -
  have v: "\<not> Version e < 0" using assms(1) by (simp add: validEvent_def)
  have "nat (Version e) < 2 ^ 63" using assms(2) by (simp add: nat_less_iff)
  also have "(2 :: nat) ^ 63 < 10 ^ 19" by simp
  finally have "length (show_nat (nat (Version e))) \<le> 19" by (rule length_show_nat) simp
  with v show ?thesis using show_nat_plain by (auto simp: show_int_def)
qed

lemma frame_lines_plain:
  assumes "sendable dec enc e"
  shows "\<forall>l \<in> set (frame_lines enc (Notice e)). LF \<notin> set l \<and> CHR 0x0D \<notin> set l \<and> length l < eventLineLimit"
  using assms valid_key [of e] show_version [of e]
  by (auto simp: sendable_def eventLineLimit_def)

lemma sse_skip:
  "length l < eventLineLimit \<Longrightarrow> l \<noteq> [] \<Longrightarrow> \<not> has_prefix ''event:'' l \<Longrightarrow> \<not> has_prefix ''data:'' l
   \<Longrightarrow> sse_lines dec n d (l # ls) = sse_lines dec n d ls"
  by simp

lemma sse_event:
  "length l < eventLineLimit \<Longrightarrow> l \<noteq> [] \<Longrightarrow> \<not> has_prefix '':'' l \<Longrightarrow> has_prefix ''event:'' l
   \<Longrightarrow> trim_space (trim_prefix ''event:'' l) = m \<Longrightarrow> sse_lines dec n d (l # ls) = sse_lines dec m d ls"
  by simp

lemma sse_data:
  "length l < eventLineLimit \<Longrightarrow> l \<noteq> [] \<Longrightarrow> \<not> has_prefix '':'' l \<Longrightarrow> \<not> has_prefix ''event:'' l
   \<Longrightarrow> has_prefix ''data:'' l \<Longrightarrow> trim_prefix '' '' (trim_prefix ''data:'' l) = x \<Longrightarrow> length x \<le> eventLineLimit
   \<Longrightarrow> sse_lines dec n [] (l # ls) = sse_lines dec n x ls"
  by simp

lemma sse_notice:
  assumes "sendable dec enc e"
  shows "sse_lines dec [] [] (frame_lines enc (Notice e) @ ls) = apfst (\<lambda>es. e # es) (sse_lines dec [] [] ls)"
proof -
  have lens: "length l < eventLineLimit" if "l \<in> set (frame_lines enc (Notice e))" for l
    using bspec [OF frame_lines_plain [OF assms] that] by simp
  let ?id = "''id: '' @ Key e @ ''@'' @ show_int (Version e)" and ?data = "''data: '' @ enc e"
  have "sse_lines dec [] [] (''event: kv-write'' # ?id # ?data # [] # ls)
      = sse_lines dec ''kv-write'' [] (?id # ?data # [] # ls)"
  proof (rule sse_event)
    show "length ''event: kv-write'' < eventLineLimit" by (rule lens) simp
  qed code_simp+
  also have "\<dots> = sse_lines dec ''kv-write'' [] (?data # [] # ls)"
    by (rule sse_skip) (use lens [of ?id] in \<open>simp_all add: has_prefix_iff\<close>)
  also have "\<dots> = sse_lines dec ''kv-write'' (enc e) ([] # ls)"
    by (rule sse_data)
      (use lens [of ?data] assms in \<open>simp_all add: has_prefix_iff trim_prefix_def sendable_def eventLineLimit_def\<close>)
  also have "\<dots> = apfst (\<lambda>es. e # es) (sse_lines dec [] [] ls)"
    using assms by (simp add: sendable_def eventLineLimit_def)
  finally show ?thesis by simp
qed

lemma sse_heartbeat:
  "sse_lines dec [] [] (frame_lines enc Heartbeat @ ls) = sse_lines dec [] [] ls"
  "sse_lines dec [] [] (['': connected'', []] @ ls) = sse_lines dec [] [] ls"
proof -
  have "has_prefix '':'' '': keepalive''" "has_prefix '':'' '': connected''" by code_simp+
  then show "sse_lines dec [] [] (frame_lines enc Heartbeat @ ls) = sse_lines dec [] [] ls"
    "sse_lines dec [] [] (['': connected'', []] @ ls) = sse_lines dec [] [] ls"
    by (simp_all add: eventLineLimit_def apfst_id [unfolded id_def])
qed

fun notices :: "sse_item list \<Rightarrow> event list" where
  "notices [] = []"
| "notices (Heartbeat # is) = notices is"
| "notices (Notice e # is) = e # notices is"

lemma sse_frames:
  "list_all (sendable dec enc) (notices items) \<Longrightarrow>
   sse_lines dec [] [] (concat (map (frame_lines enc) items)) = (notices items, StreamEOF)"
proof (induction items rule: notices.induct)
  case (2 "is")
  then show ?case using sse_heartbeat(1) [of dec enc] by simp
next
  case (3 e "is")
  then show ?case using sse_notice [of dec enc e] by simp
qed simp

section \<open>Property\<close>

text \<open>
  What one daemon writes into its event stream, another reads as the same notices in the
  same order, none lost, none invented, whatever heartbeats come between. The JSON codec
  must read back the events it writes, and write them on one line within the line limit.
\<close>
theorem event_stream_roundtrip:
  assumes "list_all (sendable dec enc) (notices items)"
  shows "StreamEvents dec (handleEvents enc items) = (notices items, StreamEOF)"
proof -
  have plain: "\<forall>l \<in> set (frame_lines enc i). LF \<notin> set l \<and> CHR 0x0D \<notin> set l" if "i \<in> set items" for i
  proof (cases i)
    case (Notice e)
    then have "e \<in> set (notices items)" using that by (induction items rule: notices.induct) auto
    then have "sendable dec enc e" using assms by (simp add: list_all_iff)
    with Notice frame_lines_plain show ?thesis by blast
  qed simp
  have "scan_lines (handleEvents enc items) = ['': connected'', []] @ concat (map (frame_lines enc) items)"
    unfolding handleEvents_lines by (rule scan_lines_concat) (use plain in auto)
  then show ?thesis
    using sse_heartbeat(2) [of dec "concat (map (frame_lines enc) items)"] sse_frames [OF assms]
    by (simp add: StreamEvents_def)
qed

theorem event_stream_roundtrip_witness:
  "let e = \<lparr>Key = ''gh'', Version = 31, Source = ''refresh'', Time = Some 0\<rparr>;
       dec = (\<lambda>s. if s = ''31'' then Some e else None); enc = (\<lambda>_. ''31'')
   in StreamEvents dec (handleEvents enc [Heartbeat, Notice e, Heartbeat]) = ([e], StreamEOF)"
proof -
  let ?e = "\<lparr>Key = ''gh'', Version = 31, Source = ''refresh'', Time = Some 0\<rparr>"
  let ?dec = "\<lambda>s. if s = ''31'' then Some ?e else None" and ?enc = "\<lambda>_. ''31''"
  have "validEvent ?e" by code_simp
  then have "list_all (sendable ?dec ?enc) (notices [Heartbeat, Notice ?e, Heartbeat])"
    by (simp add: sendable_def eventLineLimit_def)
  from event_stream_roundtrip [OF this] show ?thesis by (simp add: Let_def)
qed

end
