(* ===== verification/Peer.thy ===== *)
theory Peer
  imports GoStrings "HOL-Library.Product_Lexorder" "HOL-Library.Multiset"
begin

text \<open>
  \<open>internal/peer/pool.go\<close> and \<open>chain.go\<close>: the sockets of other daemons, resolved from
  patterns, ordered most recently seen first, evicted when they cannot be reached and
  readmitted; and the chain that puts the local socket before them. \<open>filepath.Glob\<close>, the
  stat of a path and what a peer answers are arguments. Times are nanoseconds; an identity
  is device and inode.
\<close>

section \<open>The pool\<close>

record member =
  mpath :: string
  pattern :: nat
  ident :: "nat \<times> nat"
  lastSeen :: int
  evictedAt :: "int option"

record pool =
  Patterns :: "string list"
  members :: "member gomap"

text \<open>\<open>stat\<close> is \<open>None\<close> for a path that is gone or no socket, otherwise its identity and mtime.\<close>

record sockets =
  Glob :: "string \<Rightarrow> string list option"
  Stat :: "string \<Rightarrow> ((nat \<times> nat) \<times> int) option"

definition EvictProbeInterval :: int where
  "EvictProbeInterval = 5 * 60 * 1000000000"

definition ReadinessGrace :: int where
  "ReadinessGrace = 2 * 1000000000"

definition NewPool :: "(string \<Rightarrow> string option) \<Rightarrow> string list \<Rightarrow> pool" where
  "NewPool expand pats =
     \<lparr>Patterns = List.map_filter (\<lambda>p. if p = [] then None else expand p) pats, members = []\<rparr>"

text \<open>What resolving does to the member behind one socket.\<close>

definition resolve_member :: "int \<Rightarrow> nat \<Rightarrow> string \<Rightarrow> nat \<times> nat \<Rightarrow> int \<Rightarrow> member option \<Rightarrow> member" where
  "resolve_member now i path ino mtime known =
     (case known of
        None \<Rightarrow> \<lparr>mpath = path, pattern = i, ident = ino, lastSeen = mtime, evictedAt = None\<rparr>
      | Some m \<Rightarrow>
          if ident m \<noteq> ino
          then m\<lparr>ident := ino, lastSeen := (if lastSeen m < mtime then mtime else lastSeen m), evictedAt := None\<rparr>
          else (case evictedAt m of
                  None \<Rightarrow> m
                | Some t \<Rightarrow> if EvictProbeInterval \<le> now - t then m\<lparr>evictedAt := None\<rparr> else m))"

definition visit :: "int \<Rightarrow> sockets \<Rightarrow> nat \<Rightarrow> string \<Rightarrow> string list \<times> member gomap \<Rightarrow> string list \<times> member gomap" where
  "visit now fs i path st =
     (case st of (seen, ms) \<Rightarrow>
        if path \<in> set seen then st
        else (case Stat fs path of
                None \<Rightarrow> st
              | Some (ino, mtime) \<Rightarrow>
                  (path # seen, mput path (resolve_member now i path ino mtime (map_of ms path)) ms)))"

definition visit_pattern :: "int \<Rightarrow> sockets \<Rightarrow> nat \<times> string \<Rightarrow> string list \<times> member gomap \<Rightarrow> string list \<times> member gomap" where
  "visit_pattern now fs ip st =
     (case ip of (i, pat) \<Rightarrow> (case Glob fs pat of None \<Rightarrow> st | Some matches \<Rightarrow> fold (visit now fs i) matches st))"

definition resolveLocked :: "int \<Rightarrow> sockets \<Rightarrow> pool \<Rightarrow> pool" where
  "resolveLocked now fs p =
     (case fold (visit_pattern now fs) (enumerate 0 (Patterns p)) ([], members p) of
        (seen, ms) \<Rightarrow> p\<lparr>members := filter (\<lambda>(k, m). k \<in> set seen) ms\<rparr>)"

text \<open>The order of borrowing: most recently seen, then first pattern, then path.\<close>

definition borrow_rank :: "member \<Rightarrow> int \<times> nat \<times> string" where
  "borrow_rank m = (- lastSeen m, pattern m, mpath m)"

definition activeLocked :: "pool \<Rightarrow> member list" where
  "activeLocked p = sort_key borrow_rank (filter (\<lambda>m. evictedAt m = None) (map snd (members p)))"

definition evict :: "int \<Rightarrow> string \<Rightarrow> nat \<times> nat \<Rightarrow> pool \<Rightarrow> pool" where
  "evict now path ino p =
     (case map_of (members p) path of
        None \<Rightarrow> p
      | Some m \<Rightarrow>
          if evictedAt m \<noteq> None then p
          else if ident m \<noteq> ino then p
          else if now - lastSeen m < ReadinessGrace then p
          else p\<lparr>members := mput path (m\<lparr>evictedAt := Some now\<rparr>) (members p)\<rparr>)"

text \<open>A watch event; \<open>matches\<close> is \<open>filepath.Match\<close>. The result says whether it moved a member.\<close>

definition noteSeen :: "int \<Rightarrow> sockets \<Rightarrow> (string \<Rightarrow> string \<Rightarrow> bool) \<Rightarrow> string \<Rightarrow> pool \<Rightarrow> bool \<times> pool" where
  "noteSeen now fs matches path p =
     (case Stat fs path of
        None \<Rightarrow> (False, p)
      | Some (ino, mtime) \<Rightarrow>
          (case map_of (members p) path of
             None \<Rightarrow>
               (let idx = (case find_idx (\<lambda>pat. matches pat path) (Patterns p) of None \<Rightarrow> 0 | Some i \<Rightarrow> i)
                in (True, p\<lparr>members := mput path \<lparr>mpath = path, pattern = idx, ident = ino, lastSeen = now, evictedAt = None\<rparr>
                     (members p)\<rparr>))
           | Some m \<Rightarrow> (True, p\<lparr>members := mput path (m\<lparr>ident := ino, lastSeen := now, evictedAt := None\<rparr>) (members p)\<rparr>)))"

section \<open>Borrowing\<close>

text \<open>
  \<open>fetch\<close> is what asking the peer at a path gives: \<open>None\<close> for a transport failure, otherwise
  the token, empty when the peer holds none. \<open>at\<close> is the clock when that fetch has ended.
\<close>

fun borrow_from :: "(string \<Rightarrow> int) \<Rightarrow> (string \<Rightarrow> string option) \<Rightarrow> member list \<Rightarrow> pool \<Rightarrow> (string \<times> string) \<times> pool" where
  "borrow_from at fetch [] p = (([], []), p)"
| "borrow_from at fetch (m # ms) p =
     (case fetch (mpath m) of
        None \<Rightarrow> borrow_from at fetch ms (evict (at (mpath m)) (mpath m) (ident m) p)
      | Some token \<Rightarrow> if token \<noteq> [] then ((token, mpath m), p) else borrow_from at fetch ms p)"

definition Borrow :: "int \<Rightarrow> sockets \<Rightarrow> (string \<Rightarrow> int) \<Rightarrow> (string \<Rightarrow> string option) \<Rightarrow> pool \<Rightarrow> (string \<times> string) \<times> pool" where
  "Borrow now fs at fetch p =
     (let q = resolveLocked now fs p in borrow_from at fetch (activeLocked q) q)"

datatype post_reply = PostOK | Unreachable | StatusError nat | OtherError

datatype broadcast_result = Delivered | ErrNoPeers | RejectedWith nat | AllFailed

text \<open>The results in the order they arrive: whether one accepted, the first rejection, the pool.\<close>

fun collect :: "(string \<Rightarrow> int) \<Rightarrow> (member \<times> post_reply) list \<Rightarrow> bool \<times> nat option \<times> pool \<Rightarrow> bool \<times> nat option \<times> pool" where
  "collect at [] st = st"
| "collect at ((m, r) # rs) (ok, rejected, p) =
     collect at rs
       (case r of
          PostOK \<Rightarrow> (True, rejected, p)
        | Unreachable \<Rightarrow> (ok, rejected, evict (at (mpath m)) (mpath m) (ident m) p)
        | StatusError s \<Rightarrow> (ok, if 400 \<le> s \<and> s < 500 \<and> rejected = None then Some s else rejected, p)
        | OtherError \<Rightarrow> (ok, rejected, p))"

text \<open>\<open>arrive\<close> is the order in which the answers of the members come in.\<close>

definition Broadcast :: "int \<Rightarrow> sockets \<Rightarrow> (string \<Rightarrow> int) \<Rightarrow> (member list \<Rightarrow> member list) \<Rightarrow> (string \<Rightarrow> post_reply)
    \<Rightarrow> pool \<Rightarrow> broadcast_result \<times> pool" where
  "Broadcast now fs at arrive post p =
     (let q = resolveLocked now fs p; act = activeLocked q in
      if act = [] then (ErrNoPeers, q)
      else (case collect at (map (\<lambda>m. (m, post (mpath m))) (arrive act)) (False, None, q) of
              (ok, rejected, q') \<Rightarrow>
                (case rejected of Some s \<Rightarrow> RejectedWith s | None \<Rightarrow> if ok then Delivered else AllFailed, q')))"

section \<open>The chain\<close>

definition NewLocalFirstChain :: "(string \<Rightarrow> string option) \<Rightarrow> string \<Rightarrow> string list \<Rightarrow> pool list" where
  "NewLocalFirstChain expand local peers =
     (if local \<noteq> [] then [NewPool expand [local]] else []) @ (if peers \<noteq> [] then [NewPool expand peers] else [])"

fun chain_Borrow :: "(pool \<Rightarrow> (string \<times> string) \<times> pool) \<Rightarrow> pool list \<Rightarrow> (string \<times> string) \<times> pool list" where
  "chain_Borrow borrow [] = (([], []), [])"
| "chain_Borrow borrow (t # ts) =
     (case borrow t of
        ((token, source), t') \<Rightarrow>
          if token \<noteq> [] then ((token, source), t' # ts)
          else apsnd (\<lambda>ts'. t' # ts') (chain_Borrow borrow ts))"


section \<open>Facts about resolving\<close>

definition matched :: "sockets \<Rightarrow> string \<Rightarrow> string \<Rightarrow> bool" where
  "matched fs path pat = (case Glob fs pat of None \<Rightarrow> False | Some ms \<Rightarrow> path \<in> set ms)"

text \<open>The pattern that claims a path: the first one that matches it.\<close>

definition claimed_by :: "sockets \<Rightarrow> string list \<Rightarrow> string \<Rightarrow> nat option" where
  "claimed_by fs pats path = find_idx (matched fs path) pats"

fun visits :: "int \<Rightarrow> sockets \<Rightarrow> (nat \<times> string) list \<Rightarrow> string list \<times> member gomap \<Rightarrow> string list \<times> member gomap" where
  "visits now fs [] st = st"
| "visits now fs ((i, path) # ps) st = visits now fs ps (visit now fs i path st)"

definition candidates :: "nat \<Rightarrow> sockets \<Rightarrow> string list \<Rightarrow> (nat \<times> string) list" where
  "candidates n fs pats =
     concat (map (\<lambda>(i, pat). case Glob fs pat of None \<Rightarrow> [] | Some ms \<Rightarrow> map (Pair i) ms) (enumerate n pats))"

lemma candidates_simps [simp]:
  "candidates n fs [] = []"
  "candidates n fs (pat # pats) =
     (case Glob fs pat of None \<Rightarrow> [] | Some ms \<Rightarrow> map (Pair n) ms) @ candidates (Suc n) fs pats"
  by (simp_all add: candidates_def)

lemma visits_append: "visits now fs (ps @ qs) st = visits now fs qs (visits now fs ps st)"
proof (induction ps arbitrary: st)
  case (Cons ip ps)
  then show ?case by (cases ip) simp
qed simp

lemma visits_pairs: "visits now fs (map (Pair i) ms) st = fold (visit now fs i) ms st"
  by (induction ms arbitrary: st) auto

lemma fold_patterns: "fold (visit_pattern now fs) (enumerate n pats) st = visits now fs (candidates n fs pats) st"
  by (induction pats arbitrary: n st)
    (simp_all add: visit_pattern_def visits_append visits_pairs split: option.split)

lemma find_candidates:
  "find (\<lambda>ip. snd ip = path) (candidates n fs pats) = map_option (\<lambda>i. (n + i, path)) (claimed_by fs pats path)"
proof (induction pats arbitrary: n)
  case (Cons pat pats)
  have here: "find (\<lambda>ip. snd ip = path) (map (Pair n) ms) = (if path \<in> set ms then Some (n, path) else None)" for ms
    by (induction ms) auto
  show ?case
    by (cases "Glob fs pat")
      (auto simp: Cons.IH claimed_by_def matched_def find_append here option.map_comp comp_def)
qed (simp add: claimed_by_def)

lemma visit_cases:
  "visit now fs i path (seen, ms) =
     (if path \<in> set seen \<or> Stat fs path = None then (seen, ms)
      else (path # seen, mput path (resolve_member now i path (fst (the (Stat fs path))) (snd (the (Stat fs path)))
             (map_of ms path)) ms))"
  by (auto simp: visit_def split: option.split)

lemma visits_exact:
  "visits now fs ps (seen, ms) = (seen', ms') \<Longrightarrow> keys_ok ms \<Longrightarrow>
   keys_ok ms'
   \<and> (path \<in> set seen' \<longleftrightarrow> path \<in> set seen \<or> path \<in> snd ` set ps \<and> Stat fs path \<noteq> None)
   \<and> map_of ms' path =
      (if path \<in> set seen \<or> path \<notin> set seen' then map_of ms path
       else Some (resolve_member now (fst (the (find (\<lambda>ip. snd ip = path) ps))) path
              (fst (the (Stat fs path))) (snd (the (Stat fs path))) (map_of ms path)))"
proof (induction ps arbitrary: seen ms)
  case (Cons ip ps)
  obtain i q where ip: "ip = (i, q)" by fastforce
  obtain s1 m1 where v: "visit now fs i q (seen, ms) = (s1, m1)" by fastforce
  have ok: "keys_ok m1" using v Cons.prems(2) by (auto simp: visit_cases split: if_splits)
  have rest: "visits now fs ps (s1, m1) = (seen', ms')" using Cons.prems(1) ip v by simp
  note IH = Cons.IH [OF rest ok]
  show ?case
  proof (cases "q \<in> set seen \<or> Stat fs q = None")
    case True
    then have "s1 = seen" "m1 = ms" using v by (auto simp: visit_cases)
    with IH True ip show ?thesis by auto
  next
    case False
    then have "s1 = q # seen" "m1 = mput q (resolve_member now i q (fst (the (Stat fs q))) (snd (the (Stat fs q)))
        (map_of ms q)) ms"
      using v by (auto simp: visit_cases)
    with IH False ip show ?thesis by auto
  qed
qed auto

lemma map_of_filter_keys: "map_of (filter (\<lambda>(k, m). k \<in> S) ms) k = (if k \<in> S then map_of ms k else None)"
  by (induction ms) auto

lemma find_snd_None: "path \<notin> snd ` set ps \<longleftrightarrow> find (\<lambda>ip. snd ip = path) ps = None"
  unfolding find_None_iff image_iff by metis

lemma resolve_exact:
  assumes "keys_ok (members p)"
  shows "keys_ok (members (resolveLocked now fs p)) \<and> Patterns (resolveLocked now fs p) = Patterns p
    \<and> map_of (members (resolveLocked now fs p)) path =
        (case claimed_by fs (Patterns p) path of
           None \<Rightarrow> None
         | Some i \<Rightarrow>
             (case Stat fs path of
                None \<Rightarrow> None
              | Some (ino, mtime) \<Rightarrow> Some (resolve_member now i path ino mtime (map_of (members p) path))))"
proof -
  let ?ps = "candidates 0 fs (Patterns p)"
  obtain seen ms where v: "visits now fs ?ps ([], members p) = (seen, ms)" by fastforce
  have r: "resolveLocked now fs p = p\<lparr>members := filter (\<lambda>(k, m). k \<in> set seen) ms\<rparr>"
    by (simp add: resolveLocked_def fold_patterns v)
  note x = visits_exact [OF v assms, of path]
  have f: "find (\<lambda>ip. snd ip = path) ?ps = map_option (\<lambda>i. (i, path)) (claimed_by fs (Patterns p) path)"
    using find_candidates [of path 0 fs "Patterns p"] by simp
  have "path \<in> snd ` set ?ps \<longleftrightarrow> claimed_by fs (Patterns p) path \<noteq> None"
    using find_snd_None [of path ?ps] f by auto
  then have seen: "path \<in> set seen \<longleftrightarrow> claimed_by fs (Patterns p) path \<noteq> None \<and> Stat fs path \<noteq> None"
    using x by simp
  have "map_of (filter (\<lambda>(k, m). k \<in> set seen) ms) path = (if path \<in> set seen then map_of ms path else None)"
    by (rule map_of_filter_keys)
  then show ?thesis
    using x f seen by (auto simp: r keys_ok_filter split: option.split prod.split)
qed

definition pool_inv :: "pool \<Rightarrow> bool" where
  "pool_inv p \<longleftrightarrow> keys_ok (members p) \<and> (\<forall>k m. map_of (members p) k = Some m \<longrightarrow> mpath m = k)"

lemma resolve_member_path: "(\<And>m. known = Some m \<Longrightarrow> mpath m = path) \<Longrightarrow> mpath (resolve_member now i path ino mt known) = path"
  by (cases known) (simp_all add: resolve_member_def split: option.split)

lemma pool_inv_path: "pool_inv p \<Longrightarrow> map_of (members p) k = Some m \<Longrightarrow> mpath m = k"
  unfolding pool_inv_def by blast

lemma pool_inv_resolve:
  assumes "pool_inv p"
  shows "pool_inv (resolveLocked now fs p)"
  unfolding pool_inv_def
proof (intro conjI allI impI)
  have ok: "keys_ok (members p)" using assms by (simp add: pool_inv_def)
  note r = resolve_exact [OF ok, of now fs]
  show "keys_ok (members (resolveLocked now fs p))" using r by blast
  fix k m assume "map_of (members (resolveLocked now fs p)) k = Some m"
  then obtain i ino mtime where "m = resolve_member now i k ino mtime (map_of (members p) k)"
    using r [of k] by (auto split: option.splits)
  then show "mpath m = k" by (simp only:) (rule resolve_member_path, rule pool_inv_path [OF assms])
qed

lemma pool_inv_put: "pool_inv p \<Longrightarrow> mpath m = k \<Longrightarrow> pool_inv (p\<lparr>members := mput k m (members p)\<rparr>)"
proof -
  assume a: "pool_inv p" "mpath m = k"
  show ?thesis
    unfolding pool_inv_def
  proof (intro conjI allI impI)
    show "keys_ok (members (p\<lparr>members := mput k m (members p)\<rparr>))" using a(1) by (simp add: pool_inv_def)
    fix k' m' assume "map_of (members (p\<lparr>members := mput k m (members p)\<rparr>)) k' = Some m'"
    then show "mpath m' = k'" using a(2) pool_inv_path [OF a(1), of k' m'] by (cases "k' = k") simp_all
  qed
qed

lemma pool_inv_evict: "pool_inv p \<Longrightarrow> pool_inv (evict now path ino p)"
  unfolding evict_def by (auto intro!: pool_inv_put intro: pool_inv_path split: option.split)

lemma pool_inv_noteSeen: "pool_inv p \<Longrightarrow> pool_inv (snd (noteSeen now fs matches path p))"
  unfolding noteSeen_def Let_def by (auto intro!: pool_inv_put intro: pool_inv_path split: option.split)

section \<open>Facts about the order\<close>

lemma pool_inv_entry: "pool_inv p \<Longrightarrow> (k, m) \<in> set (members p) \<longleftrightarrow> map_of (members p) k = Some m \<and> mpath m = k"
  by (auto simp: pool_inv_def keys_ok_map_of)

lemma active_set:
  assumes "pool_inv p"
  shows "m \<in> set (activeLocked p) \<longleftrightarrow> map_of (members p) (mpath m) = Some m \<and> evictedAt m = None"
proof -
  have "m \<in> set (activeLocked p) \<longleftrightarrow> evictedAt m = None \<and> (\<exists>k. (k, m) \<in> set (members p))"
    by (force simp: activeLocked_def)
  then show ?thesis using pool_inv_entry [OF assms] by auto
qed

lemma active_distinct:
  assumes "pool_inv p"
  shows "distinct (map mpath (activeLocked p))"
proof -
  have "map mpath (map snd (members p)) = map fst (members p)"
    unfolding map_map by (rule map_cong) (use pool_inv_entry [OF assms] in auto)
  moreover have "distinct (map fst (members p))" using assms by (simp add: pool_inv_def keys_ok_distinct)
  ultimately have "distinct (map mpath (map snd (members p)))" by (simp only:)
  then have "distinct (map mpath (filter (\<lambda>m. evictedAt m = None) (map snd (members p))))"
    by (rule distinct_map_filter)
  then show ?thesis by (simp add: activeLocked_def distinct_map del: map_map)
qed

lemma active_sorted:
  assumes "pool_inv p"
  shows "sorted_wrt (\<lambda>a b. borrow_rank a < borrow_rank b) (activeLocked p)"
proof -
  have "inj_on borrow_rank (set (activeLocked p))"
    using active_distinct [OF assms] by (auto simp: inj_on_def borrow_rank_def distinct_map)
  then have "distinct (map borrow_rank (activeLocked p))"
    using active_distinct [OF assms] by (simp add: distinct_map)
  moreover have "sorted (map borrow_rank (activeLocked p))" by (simp add: activeLocked_def)
  ultimately show ?thesis by (simp add: strict_sorted_iff sorted_wrt_map [symmetric])
qed


section \<open>Facts about eviction\<close>

text \<open>The member after its own failure, seen when the clock said \<open>t\<close>.\<close>

definition evicted_as :: "int \<Rightarrow> member \<Rightarrow> member" where
  "evicted_as t m = (if ReadinessGrace \<le> t - lastSeen m then m\<lparr>evictedAt := Some t\<rparr> else m)"

definition evict_all :: "(string \<Rightarrow> int) \<Rightarrow> member list \<Rightarrow> pool \<Rightarrow> pool" where
  "evict_all at ms p = fold (\<lambda>m. evict (at (mpath m)) (mpath m) (ident m)) ms p"

lemma evict_own:
  "map_of (members p) (mpath m) = Some m \<Longrightarrow> evictedAt m = None \<Longrightarrow>
   map_of (members (evict t (mpath m) (ident m) p)) =
     (map_of (members p))(mpath m \<mapsto> evicted_as t m)"
  by (auto simp: evict_def evicted_as_def fun_eq_iff)

lemma evict_all_exact:
  "distinct (map mpath ms) \<Longrightarrow> \<forall>m \<in> set ms. map_of (members p) (mpath m) = Some m \<and> evictedAt m = None \<Longrightarrow>
   map_of (members (evict_all at ms p)) k =
     (case map_of (members p) k of
        None \<Rightarrow> None
      | Some m \<Rightarrow> Some (if m \<in> set ms \<and> mpath m = k then evicted_as (at k) m else m))"
proof (induction ms arbitrary: p)
  case (Cons x ms)
  let ?q = "evict (at (mpath x)) (mpath x) (ident x) p"
  have q: "map_of (members ?q) = (map_of (members p))(mpath x \<mapsto> evicted_as (at (mpath x)) x)"
    by (rule evict_own) (use Cons.prems in auto)
  have others: "mpath m \<noteq> mpath x" if "m \<in> set ms" for m
    using Cons.prems(1) imageI [OF that, of mpath] by (metis distinct.simps(2) list.set_map list.simps(9))
  have "\<forall>m \<in> set ms. map_of (members ?q) (mpath m) = Some m \<and> evictedAt m = None"
    using Cons.prems(2) others by (simp add: q)
  then have IH: "map_of (members (evict_all at ms ?q)) k =
      (case map_of (members ?q) k of None \<Rightarrow> None
       | Some m \<Rightarrow> Some (if m \<in> set ms \<and> mpath m = k then evicted_as (at k) m else m))"
    using Cons.IH [of ?q] Cons.prems(1) by simp
  have step: "evict_all at (x # ms) p = evict_all at ms ?q" by (simp add: evict_all_def)
  show ?case
  proof (cases "k = mpath x")
    case True
    have "mpath (evicted_as (at k) x) = mpath x" by (simp add: evicted_as_def)
    then have "\<not> (evicted_as (at k) x \<in> set ms \<and> mpath (evicted_as (at k) x) = k)" using others True by auto
    with True IH Cons.prems(2) show ?thesis by (auto simp: step q)
  next
    case False
    with IH show ?thesis by (auto simp: step q split: option.split)
  qed
qed (simp add: evict_all_def split: option.split)

text \<open>A peer that gives a token.\<close>

definition gives :: "(string \<Rightarrow> string option) \<Rightarrow> member \<Rightarrow> bool" where
  "gives fetch m \<longleftrightarrow> (\<exists>token. fetch (mpath m) = Some token \<and> token \<noteq> [])"

lemma borrow_from_exact:
  "borrow_from at fetch ms p =
     (case find (gives fetch) ms of None \<Rightarrow> ([], []) | Some m \<Rightarrow> (the (fetch (mpath m)), mpath m),
      evict_all at (filter (\<lambda>m. fetch (mpath m) = None) (takeWhile (\<lambda>m. \<not> gives fetch m) ms)) p)"
  by (induction at fetch ms p rule: borrow_from.induct)
    (auto simp: gives_def evict_all_def split: option.split)

lemma pool_inv_evict_all: "pool_inv p \<Longrightarrow> pool_inv (evict_all at ms p)"
  unfolding evict_all_def by (induction ms arbitrary: p) (simp_all add: pool_inv_evict)

lemma evict_actives:
  assumes "pool_inv q"
  shows "map_of (members (evict_all at (filter P (takeWhile Q (activeLocked q))) q)) k =
     (case map_of (members q) k of
        None \<Rightarrow> None
      | Some m \<Rightarrow> Some (if m \<in> set (takeWhile Q (activeLocked q)) \<and> P m then evicted_as (at k) m else m))"
proof -
  let ?ms = "filter P (takeWhile Q (activeLocked q))"
  have "distinct (map mpath (takeWhile Q (activeLocked q) @ dropWhile Q (activeLocked q)))"
    using active_distinct [OF assms] by (simp only: takeWhile_dropWhile_id)
  then have "distinct (map mpath (takeWhile Q (activeLocked q)))" by (simp only: map_append distinct_append)
  then have d: "distinct (map mpath ?ms)" by (rule distinct_map_filter)
  have m: "\<forall>m \<in> set ?ms. map_of (members q) (mpath m) = Some m \<and> evictedAt m = None"
    using active_set [OF assms] by (auto dest: set_takeWhileD)
  show ?thesis
  proof (cases "map_of (members q) k")
    case None
    then show ?thesis by (simp add: evict_all_exact [OF d m])
  next
    case (Some x)
    then have "mpath x = k" by (rule pool_inv_path [OF assms])
    with Some show ?thesis by (simp add: evict_all_exact [OF d m])
  qed
qed

section \<open>An example pool\<close>

definition demo_fs :: sockets where
  "demo_fs = \<lparr>Glob = (\<lambda>_. Some [''/a'', ''/b'']), Stat = (\<lambda>p. if p = ''/a'' then Some ((1, 7), 40) else None)\<rparr>"

definition demo_pool :: pool where
  "demo_pool = \<lparr>Patterns = [''/*''], members =
     [(''/a'', \<lparr>mpath = ''/a'', pattern = 0, ident = (1, 6), lastSeen = 9, evictedAt = Some 50\<rparr>),
      (''/b'', \<lparr>mpath = ''/b'', pattern = 0, ident = (1, 2), lastSeen = 8, evictedAt = None\<rparr>)]\<rparr>"

lemma demo_pool_inv: "pool_inv demo_pool"
  by (auto simp: pool_inv_def demo_pool_def keys_ok_def split: if_splits)

lemma demo_active:
  "activeLocked (resolveLocked 60 demo_fs demo_pool) =
     [\<lparr>mpath = ''/a'', pattern = 0, ident = (1, 7), lastSeen = 40, evictedAt = None\<rparr>]"
  by code_simp

section \<open>Properties\<close>





text \<open>The outcome of a broadcast: collecting the answers, in any order of arrival.\<close>

lemma collect_exact:
  "collect at rs (ok, rejected, p) =
     (ok \<or> PostOK \<in> snd ` set rs,
      case rejected of
        Some s \<Rightarrow> Some s
      | None \<Rightarrow> map_option (\<lambda>r. case snd r of StatusError s \<Rightarrow> s)
                  (find (\<lambda>r. \<exists>s. snd r = StatusError s \<and> 400 \<le> s \<and> s < 500) rs),
      evict_all at (map fst (filter (\<lambda>r. snd r = Unreachable) rs)) p)"
proof (induction rs arbitrary: ok rejected p)
  case (Cons mr rs)
  obtain m r where mr: "mr = (m, r)" by fastforce
  show ?case
    by (cases r; cases rejected) (auto simp: mr Cons.IH evict_all_def)
qed (simp add: evict_all_def split: option.split)

text \<open>
  A broadcast reaches every active member and its outcome does not depend on the order in
  which they answer: a rejection (400 to 499) by any member is reported even if another
  accepted, otherwise one acceptance is enough, otherwise it failed; and exactly the
  unreachable members past their grace are evicted.
\<close>
theorem broadcast_exact:
  assumes "pool_inv p" "q = resolveLocked now fs p" "mset (arrive (activeLocked q)) = mset (activeLocked q)"
    and "Broadcast now fs at arrive post p = (r, q')"
  shows "(r = ErrNoPeers \<longleftrightarrow> activeLocked q = [])
    \<and> ((\<exists>s. r = RejectedWith s) \<longleftrightarrow> (\<exists>m \<in> set (activeLocked q). \<exists>s. post (mpath m) = StatusError s \<and> 400 \<le> s \<and> s < 500))
    \<and> (r = Delivered \<longleftrightarrow> (\<exists>m \<in> set (activeLocked q). post (mpath m) = PostOK)
        \<and> \<not> (\<exists>m \<in> set (activeLocked q). \<exists>s. post (mpath m) = StatusError s \<and> 400 \<le> s \<and> s < 500))
    \<and> map_of (members q') path =
      (case map_of (members q) path of
         None \<Rightarrow> None
       | Some m \<Rightarrow> Some (if m \<in> set (activeLocked q) \<and> post (mpath m) = Unreachable then evicted_as (at path) m else m))"
proof -
  have inv: "pool_inv q" using pool_inv_resolve assms(1,2) by simp
  let ?act = "activeLocked q" and ?arr = "arrive (activeLocked q)"
  have set: "set ?arr = set ?act" using mset_eq_setD [OF assms(3)] .
  let ?bad = "\<lambda>m. \<exists>s. post (mpath m) = StatusError s \<and> 400 \<le> s \<and> s < 500"
  let ?found = "find ?bad ?arr"
  let ?ms = "filter (\<lambda>m. post (mpath m) = Unreachable) ?arr"
  have fnd: "find (\<lambda>r. \<exists>s. snd r = StatusError s \<and> 400 \<le> s \<and> s < 500) (map (\<lambda>m. (m, post (mpath m))) ms)
      = map_option (\<lambda>m. (m, post (mpath m))) (find ?bad ms)" for ms
    by (induction ms) auto
  have fil: "map fst (filter (\<lambda>r. snd r = Unreachable) (map (\<lambda>m. (m, post (mpath m))) ms))
      = filter (\<lambda>m. post (mpath m) = Unreachable) ms" for ms
    by (induction ms) auto
  have ok: "PostOK \<in> snd ` set (map (\<lambda>m. (m, post (mpath m))) ?arr) \<longleftrightarrow> (\<exists>m \<in> set ?act. post (mpath m) = PostOK)"
    by (simp add: set image_image image_iff eq_commute [of PostOK])
  have c: "collect at (map (\<lambda>m. (m, post (mpath m))) ?arr) (False, None, q) =
      (\<exists>m \<in> set ?act. post (mpath m) = PostOK,
       map_option (\<lambda>m. case post (mpath m) of StatusError s \<Rightarrow> s) ?found, evict_all at ?ms q)"
    unfolding collect_exact fnd fil ok by (simp add: option.map_comp comp_def)
  have bad: "?found = None \<longleftrightarrow> \<not> (\<exists>m \<in> set ?act. ?bad m)" by (auto simp: find_None_iff set)
  have "(r, q') = (if ?act = [] then (ErrNoPeers, q)
      else (case map_option (\<lambda>m. case post (mpath m) of StatusError s \<Rightarrow> s) ?found of
              Some s \<Rightarrow> RejectedWith s
            | None \<Rightarrow> if \<exists>m \<in> set ?act. post (mpath m) = PostOK then Delivered else AllFailed, evict_all at ?ms q))"
    using assms(4) unfolding Broadcast_def Let_def assms(2) [symmetric] c by (simp only: prod.case)
  note res = this
  have r: "r = (if ?act = [] then ErrNoPeers
      else case map_option (\<lambda>m. case post (mpath m) of StatusError s \<Rightarrow> s) ?found of
              Some s \<Rightarrow> RejectedWith s
            | None \<Rightarrow> if \<exists>m \<in> set ?act. post (mpath m) = PostOK then Delivered else AllFailed)"
    using arg_cong [OF res, of fst] by (simp only: fst_conv if_distrib [of fst])
  have q': "q' = (if ?act = [] then q else evict_all at ?ms q)"
    using arg_cong [OF res, of snd] by (simp only: snd_conv if_distrib [of snd])
  have d: "distinct (map mpath ?ms)"
  proof -
    have "distinct (map mpath ?arr)"
      using active_distinct [OF inv] mset_eq_imp_distinct_iff [of "map mpath ?arr" "map mpath ?act"] assms(3) by simp
    then show ?thesis by (rule distinct_map_filter)
  qed
  have "\<forall>m \<in> set ?ms. map_of (members q) (mpath m) = Some m \<and> evictedAt m = None"
    using active_set [OF inv] set by auto
  note e = evict_all_exact [OF d this, of at path]
  have "map_of (members q') path =
      (case map_of (members q) path of
         None \<Rightarrow> None
       | Some m \<Rightarrow> Some (if m \<in> set ?act \<and> post (mpath m) = Unreachable then evicted_as (at path) m else m))"
  proof (cases "map_of (members q) path")
    case None
    then show ?thesis using e by (simp add: q')
  next
    case (Some m)
    then have "mpath m = path" by (rule pool_inv_path [OF inv])
    with Some show ?thesis using e set by (auto simp: q')
  qed
  moreover have "?found \<noteq> None" if "?bad m" "m \<in> set ?act" for m using bad that by blast
  ultimately show ?thesis
    using bad by (cases ?found) (auto simp: r)
qed

theorem broadcast_exact_witness:
  "fst (Broadcast 60 demo_fs (\<lambda>_. 70) rev (\<lambda>_. PostOK) demo_pool) = Delivered"
proof -
  obtain r q' where b: "Broadcast 60 demo_fs (\<lambda>_. 70) rev (\<lambda>_. PostOK) demo_pool = (r, q')" by fastforce
  from broadcast_exact [OF demo_pool_inv refl _ b] show ?thesis by (simp add: b demo_active)
qed

section \<open>The chain\<close>

text \<open>
  The local socket comes first: its token is taken whenever it has one, however recent the
  peers are, and a peer is asked only when it has none.
\<close>

lemma chain_local_first:
  assumes "local \<noteq> []" "peers \<noteq> []"
    and "borrow (NewPool expand [local]) = ((token, source), t')"
  shows "chain_Borrow borrow (NewLocalFirstChain expand local peers) =
    (if token \<noteq> [] then ((token, source), [t', NewPool expand peers])
     else apsnd (\<lambda>t. [t', t]) (case borrow (NewPool expand peers) of
            ((tok, src), t) \<Rightarrow> ((if tok \<noteq> [] then (tok, src) else ([], [])), t)))"
  using assms by (auto simp: NewLocalFirstChain_def split: prod.split)

end
