(* ===== verification/Relay.thy ===== *)
theory Relay
  imports Events Peer
begin

text \<open>
  The relay of \<open>internal/peer/events.go\<close>: one stream to each active peer, the backoff
  between attempts, what a notice sets off, and the syncs asked of the other peers, one at a
  time and spaced. Times are nanoseconds.
\<close>

definition relayMinBackoff :: int where
  "relayMinBackoff = 1000000000"

definition relayMaxBackoff :: int where
  "relayMaxBackoff = 5 * 60 * 1000000000"

definition relaySyncSpacing :: int where
  "relaySyncSpacing = 5 * 1000000000"

section \<open>Streams\<close>

text \<open>
  A stream is known by the number of streams started before it; \<open>awake\<close> is the token in its
  wake channel, \<open>reading\<close> the streams whose context has not been cancelled.
\<close>

record relay_stream =
  number :: nat
  awake :: bool
  lastStat :: int

record relay =
  streams :: "relay_stream gomap"
  reading :: "nat set"
  started :: nat

definition NewRelay :: relay where
  "NewRelay = \<lparr>streams = [], reading = {}, started = 0\<rparr>"

definition stop_stream :: "string \<times> relay_stream \<Rightarrow> relay \<Rightarrow> relay" where
  "stop_stream kv r = r\<lparr>streams := mdel (fst kv) (streams r), reading := reading r - {number (snd kv)}\<rparr>"

definition follow_member :: "bool \<Rightarrow> string \<times> int \<Rightarrow> relay \<Rightarrow> relay" where
  "follow_member wakeAll m r =
     (case m of (path, seenAt) \<Rightarrow>
        (case map_of (streams r) path of
           Some st \<Rightarrow>
             if wakeAll \<or> lastStat st < seenAt
             then r\<lparr>streams := mput path (st\<lparr>lastStat := seenAt, awake := True\<rparr>) (streams r)\<rparr>
             else r
         | None \<Rightarrow>
             r\<lparr>streams := mput path \<lparr>number = started r, awake = False, lastStat = seenAt\<rparr> (streams r),
               reading := insert (started r) (reading r), started := Suc (started r)\<rparr>))"

text \<open>\<open>live\<close> is what \<open>Pool.Resolve\<close> returns: paths with the time they were last seen.\<close>

definition reconcile :: "bool \<Rightarrow> (string \<times> int) list \<Rightarrow> relay \<Rightarrow> relay" where
  "reconcile wakeAll live r =
     fold (follow_member wakeAll) live
       (fold stop_stream (filter (\<lambda>kv. fst kv \<notin> fst ` set live) (streams r)) r)"

text \<open>
  The backoff of a stream: what is waited after an attempt that ended with a 404
  (\<open>notFound\<close>) or after a healthy time, and what the next attempt starts from.
\<close>

definition wait_after :: "bool \<Rightarrow> bool \<Rightarrow> int \<Rightarrow> int" where
  "wait_after notFound healthy backoff =
     (if notFound then relayMaxBackoff else if healthy then relayMinBackoff else backoff)"

definition next_backoff :: "bool \<Rightarrow> int \<Rightarrow> int" where
  "next_backoff woken waited =
     (if woken then relayMinBackoff
      else if relayMaxBackoff < waited * 2 then relayMaxBackoff else waited * 2)"

section \<open>Syncs asked of peers\<close>

datatype sync_phase = About | Running | Spacing int

record peer_sync =
  sphase :: sync_phase
  again :: bool

text \<open>
  \<open>asked\<close> counts the requests for a peer, \<open>covered\<close> those made before its latest sync began,
  \<open>last_start\<close> is when that was: what the properties speak of, not part of the program.
\<close>

record relay_sys =
  syncs :: "string \<Rightarrow> peer_sync option"
  stopped :: bool
  clock :: int
  asked :: "string \<Rightarrow> nat"
  covered :: "string \<Rightarrow> nat"
  last_start :: "string \<Rightarrow> int option"

definition requestSync :: "string \<Rightarrow> relay_sys \<Rightarrow> relay_sys" where
  "requestSync path s =
     (if stopped s then s
      else s\<lparr>asked := (asked s)(path := Suc (asked s path)),
             syncs := (syncs s)(path \<mapsto> (case syncs s path of
                 Some st \<Rightarrow> st\<lparr>again := True\<rparr>
               | None \<Rightarrow> \<lparr>sphase = About, again = False\<rparr>))\<rparr>)"

text \<open>The loop of the goroutine: begin a sync, end it, and what follows the spacing.\<close>

definition sync_begin :: "string \<Rightarrow> peer_sync \<Rightarrow> relay_sys \<Rightarrow> relay_sys" where
  "sync_begin path st s =
     s\<lparr>syncs := (syncs s)(path \<mapsto> st\<lparr>sphase := Running\<rparr>), covered := (covered s)(path := asked s path),
       last_start := (last_start s)(path \<mapsto> clock s)\<rparr>"

definition sync_end :: "string \<Rightarrow> peer_sync \<Rightarrow> relay_sys \<Rightarrow> relay_sys" where
  "sync_end path st s = s\<lparr>syncs := (syncs s)(path \<mapsto> st\<lparr>sphase := Spacing (clock s + relaySyncSpacing)\<rparr>)\<rparr>"

definition sync_spaced :: "string \<Rightarrow> peer_sync \<Rightarrow> relay_sys \<Rightarrow> relay_sys" where
  "sync_spaced path st s =
     s\<lparr>syncs := (syncs s)(path := (if again st \<and> \<not> stopped s then Some \<lparr>sphase = About, again = False\<rparr> else None))\<rparr>"

inductive sync_step :: "relay_sys \<Rightarrow> relay_sys \<Rightarrow> bool" where
  requested: "sync_step s (requestSync path s)"
| begun: "syncs s path = Some st \<Longrightarrow> sphase st = About \<Longrightarrow> sync_step s (sync_begin path st s)"
| ended: "syncs s path = Some st \<Longrightarrow> sphase st = Running \<Longrightarrow> sync_step s (sync_end path st s)"
| spaced: "syncs s path = Some st \<Longrightarrow> sphase st = Spacing t \<Longrightarrow> t \<le> clock s \<or> stopped s
    \<Longrightarrow> sync_step s (sync_spaced path st s)"
| ticked: "0 < d \<Longrightarrow> sync_step s (s\<lparr>clock := clock s + d\<rparr>)"
| cancelled: "sync_step s (s\<lparr>stopped := True\<rparr>)"

definition idle_relay :: relay_sys where
  "idle_relay = \<lparr>syncs = Map.empty, stopped = False, clock = 0, asked = (\<lambda>_. 0), covered = (\<lambda>_. 0), last_start = Map.empty\<rparr>"

inductive sync_run :: "relay_sys \<Rightarrow> bool" where
  start: "sync_run idle_relay"
| later: "sync_run s \<Longrightarrow> sync_step s s' \<Longrightarrow> sync_run s'"

text \<open>
  \<open>Relay.handle\<close>: the new table, what the callback is given, and the peers asked to sync.
  \<open>active\<close> are the paths of the active members.
\<close>

definition Relay_handle :: "bool \<Rightarrow> int \<Rightarrow> string list \<Rightarrow> string \<Rightarrow> event \<Rightarrow> seen \<times> relay_sys
    \<Rightarrow> (seen \<times> relay_sys) \<times> event list" where
  "Relay_handle fanOut now active source e st =
     (case st of (tab, s) \<Rightarrow>
        case handle_notice now e tab of
          (tab', []) \<Rightarrow> ((tab', s), [])
        | (tab', out) \<Rightarrow>
            ((tab', if fanOut then fold requestSync (filter (\<lambda>p. p \<noteq> source) active) s else s), out))"

section \<open>Facts about streams\<close>

definition numbers :: "relay \<Rightarrow> nat set" where
  "numbers r = number ` ran (map_of (streams r))"

lemma numbers_iff: "n \<in> numbers r \<longleftrightarrow> (\<exists>k st. map_of (streams r) k = Some st \<and> number st = n)"
  by (auto simp: numbers_def ran_def)

definition relay_inv :: "relay \<Rightarrow> bool" where
  "relay_inv r \<longleftrightarrow> keys_ok (streams r) \<and> reading r = numbers r \<and> (\<forall>n \<in> reading r. n < started r)
     \<and> (\<forall>k k' st st'. map_of (streams r) k = Some st \<and> map_of (streams r) k' = Some st' \<and> number st = number st' \<longrightarrow> k = k')"

lemma relay_invI:
  assumes "keys_ok (streams r)" "reading r = numbers r" "\<And>n. n \<in> reading r \<Longrightarrow> n < started r"
    and "\<And>k k' st st'. map_of (streams r) k = Some st \<Longrightarrow> map_of (streams r) k' = Some st' \<Longrightarrow> number st = number st' \<Longrightarrow> k = k'"
  shows "relay_inv r"
  unfolding relay_inv_def using assms(1,2,3) by (intro conjI allI impI ballI; (elim conjE)?) (assumption | rule assms(4) | blast)+

lemma relay_inv_parts:
  "relay_inv r \<Longrightarrow> keys_ok (streams r)" "relay_inv r \<Longrightarrow> reading r = numbers r" "relay_inv r \<Longrightarrow> n \<in> reading r \<Longrightarrow> n < started r"
  by (simp_all add: relay_inv_def)

lemma relay_invD:
  "relay_inv r \<Longrightarrow> map_of (streams r) k = Some st \<Longrightarrow> map_of (streams r) k' = Some st' \<Longrightarrow> number st = number st' \<Longrightarrow> k = k'"
  unfolding relay_inv_def by blast

lemma number_bound: "relay_inv r \<Longrightarrow> map_of (streams r) k = Some st \<Longrightarrow> number st < started r"
  unfolding relay_inv_def numbers_def by (blast intro: ranI)

lemma stop_stream_inv:
  assumes "relay_inv r" "map_of (streams r) k = Some st"
  shows "relay_inv (stop_stream (k, st) r) \<and> map_of (streams (stop_stream (k, st) r)) = (map_of (streams r))(k := None)"
proof -
  let ?r = "stop_stream (k, st) r"
  have m: "map_of (streams ?r) = (map_of (streams r))(k := None)" by (simp add: stop_stream_def)
  have "numbers ?r = numbers r - {number st}"
  proof -
    have "number st' \<noteq> number st" if "map_of (streams r) k' = Some st'" "k' \<noteq> k" for k' st'
      using relay_invD [OF assms(1) that(1) assms(2)] that(2) by blast
    then have "number ` ran ((map_of (streams r))(k := None)) \<subseteq> numbers r - {number st}"
      by (fastforce simp: numbers_def ran_def split: if_splits)
    moreover have "number st' \<in> number ` ran ((map_of (streams r))(k := None))"
      if "map_of (streams r) k' = Some st'" "number st' \<noteq> number st" for k' st'
    proof -
      have "k' \<noteq> k" using that assms(2) by auto
      then have "((map_of (streams r))(k := None)) k' = Some st'" using that by simp
      then show ?thesis by (blast intro: ranI)
    qed
    then have "numbers r - {number st} \<subseteq> number ` ran ((map_of (streams r))(k := None))"
      by (auto simp: numbers_def ran_def [of "map_of (streams r)"])
    ultimately have "number ` ran ((map_of (streams r))(k := None)) = numbers r - {number st}" by (rule subset_antisym)
    then show ?thesis unfolding numbers_def [of ?r] m .
  qed
  note num = this
  have same: "keys_ok (streams ?r)" "reading ?r = reading r - {number st}" "started ?r = started r"
    using assms(1) by (simp_all add: stop_stream_def relay_inv_def)
  have inj: "k1 = k2" if "map_of (streams ?r) k1 = Some s1" "map_of (streams ?r) k2 = Some s2" "number s1 = number s2"
    for k1 k2 s1 s2
    using that relay_invD [OF assms(1), of k1 s1 k2 s2] by (simp add: m split: if_splits)
  have "n < started ?r" if "n \<in> reading ?r" for n
    using that relay_inv_parts(3) [OF assms(1), of n] by (simp add: same)
  then have "relay_inv ?r"
    by (rule relay_invI [OF same(1), rotated]) (use num same(2) relay_inv_parts(2) [OF assms(1)] inj in simp_all)
  with m show ?thesis by blast
qed

lemma stop_streams_inv:
  "relay_inv r \<Longrightarrow> distinct (map fst kvs) \<Longrightarrow> \<forall>(k, st) \<in> set kvs. map_of (streams r) k = Some st \<Longrightarrow>
   relay_inv (fold stop_stream kvs r)
   \<and> map_of (streams (fold stop_stream kvs r)) = (\<lambda>k. if k \<in> fst ` set kvs then None else map_of (streams r) k)"
proof (induction kvs arbitrary: r)
  case (Cons kv kvs)
  obtain k st where kv: "kv = (k, st)" by fastforce
  note one = stop_stream_inv [OF Cons.prems(1), of k st]
  have r1: "relay_inv (stop_stream kv r)" "map_of (streams (stop_stream kv r)) = (map_of (streams r))(k := None)"
    using one Cons.prems(3) kv by auto
  have "\<forall>(k, st) \<in> set kvs. map_of (streams (stop_stream kv r)) k = Some st"
    using Cons.prems(2,3) kv r1(2) by force
  from Cons.IH [OF r1(1) _ this] Cons.prems(2) kv r1(2) show ?case by (auto simp: fun_eq_iff)
qed simp

lemma follow_member_inv:
  assumes "relay_inv r"
  shows "relay_inv (follow_member w (path, t) r)
    \<and> dom (map_of (streams (follow_member w (path, t) r))) = insert path (dom (map_of (streams r)))
    \<and> (\<forall>k st. map_of (streams r) k = Some st \<longrightarrow>
        (\<exists>st'. map_of (streams (follow_member w (path, t) r)) k = Some st' \<and> number st' = number st))"
proof (cases "map_of (streams r) path")
  case None
  let ?st = "\<lparr>number = started r, awake = False, lastStat = t\<rparr>"
  let ?r = "follow_member w (path, t) r"
  have r: "map_of (streams ?r) = (map_of (streams r))(path \<mapsto> ?st)" "keys_ok (streams ?r)"
    "reading ?r = insert (started r) (reading r)" "started ?r = Suc (started r)"
    using None assms by (simp_all add: follow_member_def relay_inv_def)
  have "numbers ?r = insert (started r) (numbers r)"
    using None by (simp add: numbers_def r(1) ran_map_upd)
  note num = this
  have inj: "k1 = k2" if "map_of (streams ?r) k1 = Some s1" "map_of (streams ?r) k2 = Some s2" "number s1 = number s2"
    for k1 k2 s1 s2
    using that relay_invD [OF assms, of k1 s1 k2 s2] number_bound [OF assms, of k1 s1] number_bound [OF assms, of k2 s2]
    by (auto simp: r(1) split: if_splits)
  have "n < started ?r" if "n \<in> reading ?r" for n
    using that relay_inv_parts(3) [OF assms, of n] by (auto simp: r(3,4))
  then have "relay_inv ?r"
    by (rule relay_invI [OF r(2), rotated]) (use num r(3) relay_inv_parts(2) [OF assms] inj in simp_all)
  moreover have "map_of (streams ?r) k = Some st" if "map_of (streams r) k = Some st" for k st
    using that None by (auto simp: r(1))
  ultimately show ?thesis by (auto simp: r(1))
next
  case (Some st0)
  define st1 where "st1 = (if w \<or> lastStat st0 < t then st0\<lparr>lastStat := t, awake := True\<rparr> else st0)"
  let ?r = "follow_member w (path, t) r"
  have same: "mput path st0 (streams r) = streams r"
    by (rule keys_ok_ext) (use assms Some in \<open>auto simp: relay_inv_def fun_eq_iff\<close>)
  then have r: "?r = r\<lparr>streams := mput path st1 (streams r)\<rparr>"
    using Some by (simp add: follow_member_def st1_def)
  have n: "number st1 = number st0" by (simp add: st1_def)
  have m: "map_of (streams ?r) = (map_of (streams r))(path \<mapsto> st1)" by (simp add: r)
  have num: "\<exists>st'. map_of (streams ?r) k = Some st' \<and> number st' = number st" if "map_of (streams r) k = Some st" for k st
    using that Some n by (auto simp: m)
  have old: "\<exists>st'. map_of (streams r) k = Some st' \<and> number st' = number st" if "map_of (streams ?r) k = Some st" for k st
    using that Some n by (auto simp: m split: if_splits)
  have "numbers ?r = numbers r" by (rule set_eqI, unfold numbers_iff) (use num old in blast)
  note numb = this
  have inj: "k1 = k2" if "map_of (streams ?r) k1 = Some s1" "map_of (streams ?r) k2 = Some s2" "number s1 = number s2"
    for k1 k2 s1 s2
    using old [OF that(1)] old [OF that(2)] that(3) relay_invD [OF assms] by metis
  have same: "keys_ok (streams ?r)" "reading ?r = reading r" "started ?r = started r"
    using assms by (simp_all add: r relay_inv_def)
  have "relay_inv ?r"
    by (rule relay_invI [OF same(1)]) (use same numb inj relay_inv_parts [OF assms] in simp_all)
  with num show ?thesis using Some by (auto simp: m)
qed

lemma follow_members_inv:
  "relay_inv r \<Longrightarrow>
   relay_inv (fold (follow_member w) live r)
   \<and> dom (map_of (streams (fold (follow_member w) live r))) = fst ` set live \<union> dom (map_of (streams r))
   \<and> (\<forall>k st. map_of (streams r) k = Some st \<longrightarrow>
        (\<exists>st'. map_of (streams (fold (follow_member w) live r)) k = Some st' \<and> number st' = number st))"
proof (induction live arbitrary: r)
  case (Cons m live)
  obtain path t where m: "m = (path, t)" by fastforce
  note one = follow_member_inv [OF Cons.prems, of w path t]
  note rest = Cons.IH [of "follow_member w m r"]
  have "relay_inv (follow_member w m r)" using one m by blast
  note rest = rest [OF this]
  have "\<exists>st'. map_of (streams (fold (follow_member w) (m # live) r)) k = Some st' \<and> number st' = number st"
    if "map_of (streams r) k = Some st" for k st
    using one rest that m by simp metis
  with one rest m show ?case by auto
qed simp


section \<open>Facts about syncs\<close>

text \<open>What one peer's requests, sync, latest beginning and the clock satisfy.\<close>

fun sync_time :: "peer_sync option \<Rightarrow> int \<Rightarrow> int \<Rightarrow> bool" where
  "sync_time None l now \<longleftrightarrow> l + relaySyncSpacing \<le> now"
| "sync_time (Some st) l now \<longleftrightarrow>
     (case sphase st of About \<Rightarrow> l + relaySyncSpacing \<le> now | Running \<Rightarrow> l \<le> now
      | Spacing t \<Rightarrow> l + relaySyncSpacing \<le> t)"

definition slot_inv :: "nat \<Rightarrow> nat \<Rightarrow> peer_sync option \<Rightarrow> int option \<Rightarrow> int \<Rightarrow> bool" where
  "slot_inv a c sy ls now \<longleftrightarrow>
     (c < a \<longrightarrow> (\<exists>st. sy = Some st \<and> (sphase st = About \<or> again st)))
     \<and> (\<forall>l. ls = Some l \<longrightarrow> sync_time sy l now)"

definition sync_inv :: "relay_sys \<Rightarrow> string \<Rightarrow> bool" where
  "sync_inv s p \<longleftrightarrow> covered s p \<le> asked s p
     \<and> (\<not> stopped s \<longrightarrow> slot_inv (asked s p) (covered s p) (syncs s p) (last_start s p) (clock s))"

lemma sync_time_later: "sync_time sy l now \<Longrightarrow> 0 < d \<Longrightarrow> sync_time sy l (now + d)"
  by (cases sy) (auto split: sync_phase.splits)

lemma slot_asked_new: "slot_inv a c None ls now \<Longrightarrow> slot_inv a' c (Some \<lparr>sphase = About, again = False\<rparr>) ls now"
  by (auto simp: slot_inv_def)

lemma slot_asked_again: "slot_inv a c (Some st) ls now \<Longrightarrow> slot_inv a' c (Some (st\<lparr>again := True\<rparr>)) ls now"
  by (auto simp: slot_inv_def)

lemma slot_begun: "slot_inv a a (Some (st\<lparr>sphase := Running\<rparr>)) (Some now) now"
  by (simp add: slot_inv_def)

lemma slot_ended:
  "slot_inv a c (Some st) ls now \<Longrightarrow> sphase st = Running
   \<Longrightarrow> slot_inv a c (Some (st\<lparr>sphase := Spacing (now + relaySyncSpacing)\<rparr>)) ls now"
  by (auto simp: slot_inv_def)

lemma slot_spaced:
  assumes "slot_inv a c (Some st) ls now" "sphase st = Spacing t" "t \<le> now" "c \<le> a"
  shows "slot_inv a c (if again st then Some \<lparr>sphase = About, again = False\<rparr> else None) ls now"
  using assms by (fastforce simp: slot_inv_def)

lemma slot_ticked: "slot_inv a c sy ls now \<Longrightarrow> 0 < d \<Longrightarrow> slot_inv a c sy ls (now + d)"
  by (simp add: slot_inv_def sync_time_later)

lemma sync_inv_step: "sync_step s s' \<Longrightarrow> sync_inv s p \<Longrightarrow> sync_inv s' p"
proof (induction rule: sync_step.induct)
  case (requested s path)
  then show ?case
    by (cases "syncs s path")
      (auto simp: requestSync_def sync_inv_def intro: slot_asked_new slot_asked_again)
next
  case (begun s path st)
  then show ?case by (simp add: sync_begin_def sync_inv_def slot_begun)
next
  case (ended s path st)
  then show ?case by (cases "p = path") (auto simp: sync_end_def sync_inv_def intro!: slot_ended)
next
  case (spaced s path st t)
  show ?case
  proof (cases "p = path")
    case False
    then show ?thesis using spaced by (simp add: sync_spaced_def sync_inv_def)
  next
    case True
    with spaced slot_spaced [of "asked s p" "covered s p" st "last_start s p" "clock s" t] show ?thesis
      by (auto simp: sync_spaced_def sync_inv_def)
  qed
next
  case (ticked d s)
  then show ?case by (simp add: sync_inv_def slot_ticked)
next
  case (cancelled s)
  then show ?case by (simp add: sync_inv_def)
qed

lemma sync_run_inv: "sync_run s \<Longrightarrow> sync_inv s p"
proof (induction rule: sync_run.induct)
  case start
  show ?case by (simp add: sync_inv_def slot_inv_def idle_relay_def)
qed (rule sync_inv_step)

section \<open>Properties\<close>

text \<open>
  Following the pool, the relay reads exactly one stream of each active peer: after a
  reconcile there is one for every live member and no other, one that was there before is
  not restarted, and no goroutine reads for a member that is gone.
\<close>
theorem relay_reconcile_exact:
  assumes "relay_inv r"
  shows "relay_inv (reconcile wakeAll live r)
    \<and> dom (map_of (streams (reconcile wakeAll live r))) = fst ` set live
    \<and> (\<forall>k st. map_of (streams r) k = Some st \<and> k \<in> fst ` set live \<longrightarrow>
        (\<exists>st'. map_of (streams (reconcile wakeAll live r)) k = Some st' \<and> number st' = number st))"
proof -
  let ?gone = "filter (\<lambda>kv. fst kv \<notin> fst ` set live) (streams r)"
  let ?m = "fold stop_stream ?gone r"
  have ok: "keys_ok (streams r)" by (rule relay_inv_parts(1) [OF assms])
  have d: "distinct (map fst ?gone)" by (rule distinct_map_filter [OF keys_ok_distinct [OF ok]])
  have "\<forall>(k, st) \<in> set ?gone. map_of (streams r) k = Some st" using keys_ok_map_of [OF ok] by auto
  note m = stop_streams_inv [OF assms d this]
  have gone: "k \<in> fst ` set ?gone \<longleftrightarrow> k \<in> dom (map_of (streams r)) \<and> k \<notin> fst ` set live" for k
    by (auto simp: dom_map_of_conv_image_fst)
  note f = follow_members_inv [of ?m wakeAll live]
  have "dom (map_of (streams ?m)) \<subseteq> fst ` set live"
    using conjunct2 [OF m] gone by (auto simp: dom_def split: if_splits)
  moreover have "map_of (streams ?m) k = Some st" if "map_of (streams r) k = Some st" "k \<in> fst ` set live" for k st
    using conjunct2 [OF m] gone [of k] that by simp
  ultimately show ?thesis using m f unfolding reconcile_def by blast
qed

theorem relay_reconcile_exact_witness:
  "dom (map_of (streams (reconcile False [(''/b'', 3)] (reconcile False [(''/a'', 1), (''/b'', 2)] NewRelay)))) = {''/b''}"
proof -
  have "relay_inv NewRelay" by (simp add: NewRelay_def relay_inv_def numbers_def)
  then have "relay_inv (reconcile False [(''/a'', 1), (''/b'', 2)] NewRelay)"
    using follow_members_inv [of NewRelay False "[(''/a'', 1), (''/b'', 2)]"] by (simp add: reconcile_def NewRelay_def)
  from relay_reconcile_exact [OF this, of False "[(''/b'', 3)]"] show ?thesis by simp
qed

text \<open>
  C23. No request for a sync is lost and none floods a peer: as long as the relay runs, whenever
  requests came in after the latest sync of a peer began, another sync is about to begin or
  will follow the present one; so a peer without pending work has synced after every
  request. And at any time at most one sync of a peer is in flight, two successive ones
  beginning at least \<open>relaySyncSpacing\<close> apart.
\<close>
theorem sync_requests_kept:
  assumes "sync_run s" "\<not> stopped s"
  shows "(covered s p < asked s p \<longrightarrow> (\<exists>st. syncs s p = Some st \<and> (sphase st = About \<or> again st)))
    \<and> (syncs s p = None \<longrightarrow> covered s p = asked s p)
    \<and> (\<forall>st l. syncs s p = Some st \<and> sphase st = About \<and> last_start s p = Some l \<longrightarrow> l + relaySyncSpacing \<le> clock s)"
  using sync_run_inv [OF assms(1), of p] assms(2)
  by (auto simp: sync_inv_def slot_inv_def)

theorem sync_requests_kept_witness:
  "let s = requestSync ''/a'' idle_relay in covered s ''/a'' < asked s ''/a''
    \<and> (\<exists>st. syncs s ''/a'' = Some st \<and> (sphase st = About \<or> again st))"
proof -
  let ?s = "requestSync ''/a'' idle_relay"
  have run: "sync_run ?s" by (rule sync_run.later [OF sync_run.start sync_step.requested])
  have "\<not> stopped ?s" "covered ?s ''/a'' < asked ?s ''/a''" by (simp_all add: requestSync_def idle_relay_def)
  with sync_requests_kept [OF run, of "''/a''"] show ?thesis by (simp add: Let_def)
qed

text \<open>
  The wait between attempts of a stream stays between one second and five minutes, is five
  minutes after a 404 and one second after a stream that was healthy, and doubles otherwise.
\<close>
lemma relay_backoff_bounds:
  assumes "relayMinBackoff \<le> b" "b \<le> relayMaxBackoff"
  shows "relayMinBackoff \<le> wait_after notFound healthy b" "wait_after notFound healthy b \<le> relayMaxBackoff"
    and "relayMinBackoff \<le> next_backoff woken b" "next_backoff woken b \<le> relayMaxBackoff"
  using assms by (auto simp: wait_after_def next_backoff_def relayMinBackoff_def relayMaxBackoff_def)

end
