(* ===== verification/VaultFS.thy ===== *)
theory VaultFS
  imports KVPath GoVal
begin

text \<open>
  \<open>internal/vaultfs\<close>: the user's KV subtree as a file system. \<open>store.go\<close> joins the user's
  prefix, \<open>tree.go\<close> resolves names, \<open>cache.go\<close> keeps listings and documents for a window,
  \<open>document.go\<close> and \<open>clientcert.go\<close> give the contents. The Vault client, the JSON codec and
  the certificate source are parameters; a time is a number of nanoseconds.
\<close>

section \<open>Vault and the codecs\<close>

record 'f secret =
  SData :: "'f goval gomap option"
  SVersion :: int
  SCreated :: int

text \<open>
  The client over the state \<open>'v\<close> of the server: \<open>None\<close> is an error; a write and a delete
  say whether they succeeded and leave a state either way. A path carries its mount.
\<close>

record ('v, 'f) kv_client =
  ListKVv2 :: "string \<Rightarrow> string \<Rightarrow> 'v \<Rightarrow> string list option"
  ReadKVv2 :: "string \<Rightarrow> string \<Rightarrow> 'v \<Rightarrow> 'f secret option option"
  WriteKVv2 :: "string \<Rightarrow> string \<Rightarrow> 'f goval gomap \<Rightarrow> 'v \<Rightarrow> bool \<times> 'v"
  DeleteKVv2 :: "string \<Rightarrow> string \<Rightarrow> 'v \<Rightarrow> bool \<times> 'v"

text \<open>
  \<open>Marshal\<close> is \<open>json.MarshalIndent\<close>. \<open>Decode\<close> gives the first value of a text as a map
  (\<open>None\<close> inside for \<open>null\<close>) and what follows it.
\<close>

record 'f codec =
  Marshal :: "'f goval gomap \<Rightarrow> string option"
  Decode :: "string \<Rightarrow> ('f goval gomap option \<times> string) option"

datatype vfs_error =
    InvalidName
  | ReadOnly
  | InvalidDocument
  | StoreConfig
  | ListFailed
  | ReadFailed
  | RenderFailed
  | WriteFailed
  | DeleteFailed
  | CertUnavailable
  | NoPair

section \<open>Documents\<close>

record document =
  Bytes :: string
  ModTime :: int
  DVersion :: int

definition RenderDocument :: "'f codec \<Rightarrow> 'f secret \<Rightarrow> vfs_error + document" where
  "RenderDocument J s =
     (case Marshal J (case SData s of None \<Rightarrow> [] | Some d \<Rightarrow> d) of
        None \<Rightarrow> Inl RenderFailed
      | Some b \<Rightarrow> Inr \<lparr>Bytes = b @ [CHR 0x0A], ModTime = SCreated s, DVersion = SVersion s\<rparr>)"

text \<open>\<open>Decoder.More\<close>: whether another element follows, which a closing bracket is not.\<close>

definition json_space :: "char \<Rightarrow> bool" where
  "json_space c \<longleftrightarrow> c \<in> {CHR '' '', CHR 0x09, CHR 0x0A, CHR 0x0D}"

definition More :: "string \<Rightarrow> bool" where
  "More rest = (case dropWhile json_space rest of [] \<Rightarrow> False | c # _ \<Rightarrow> c \<noteq> CHR '']'' \<and> c \<noteq> CHR ''}'')"

definition parseDocument :: "'f codec \<Rightarrow> string \<Rightarrow> vfs_error + 'f goval gomap" where
  "parseDocument J b =
     (let trimmed = trim_space b in
      if trimmed = [] then Inl InvalidDocument
      else case Decode J trimmed of
             None \<Rightarrow> Inl InvalidDocument
           | Some (data, rest) \<Rightarrow>
               (case data of
                  None \<Rightarrow> Inl InvalidDocument
                | Some d \<Rightarrow> if More rest then Inl InvalidDocument else if d = [] then Inl InvalidDocument else Inr d))"

section \<open>The store\<close>

record ('v, 'f) vault_store =
  client :: "('v, 'f) kv_client"
  mount :: string
  prefix_path :: string

definition UserRoot :: "string \<Rightarrow> string \<Rightarrow> string" where
  "UserRoot userPrefix username =
     (if userPrefix \<noteq> [] \<and> \<not> has_suffix ''/'' userPrefix then userPrefix @ ''/'' else userPrefix) @ username @ ''/''"

definition NewStore :: "('v, 'f) kv_client \<Rightarrow> string \<Rightarrow> string \<Rightarrow> string \<Rightarrow> vfs_error + ('v, 'f) vault_store" where
  "NewStore C kvMount userPrefix username =
     (if kvMount = [] then Inl StoreConfig
      else if validate_name username \<noteq> None then Inl InvalidName
      else if userPrefix \<noteq> [] \<and> \<not> is_ok (clean userPrefix) then Inl InvalidName
      else Inr \<lparr>client = C, mount = kvMount, prefix_path = UserRoot userPrefix username\<rparr>)"

definition store_path :: "('v, 'f) vault_store \<Rightarrow> string \<Rightarrow> string" where
  "store_path S rel = prefix_path S @ rel"

definition store_List :: "('v, 'f) vault_store \<Rightarrow> string \<Rightarrow> 'v \<Rightarrow> string list option" where
  "store_List S rel v =
     ListKVv2 (client S) (mount S) (if rel = [] then prefix_path S else store_path S rel @ ''/'') v"

definition store_Read :: "('v, 'f) vault_store \<Rightarrow> string \<Rightarrow> 'v \<Rightarrow> 'f secret option option" where
  "store_Read S rel v = ReadKVv2 (client S) (mount S) (store_path S rel) v"

definition store_Write :: "('v, 'f) vault_store \<Rightarrow> string \<Rightarrow> 'f goval gomap \<Rightarrow> 'v \<Rightarrow> bool \<times> 'v" where
  "store_Write S rel data v = WriteKVv2 (client S) (mount S) (store_path S rel) data v"

definition store_Delete :: "('v, 'f) vault_store \<Rightarrow> string \<Rightarrow> 'v \<Rightarrow> bool \<times> 'v" where
  "store_Delete S rel v = DeleteKVv2 (client S) (mount S) (store_path S rel) v"

section \<open>Names\<close>

definition FileExtension :: string where
  "FileExtension = ''.json''"

definition fileDisplayName :: "string \<Rightarrow> string" where
  "fileDisplayName kvName = kvName @ FileExtension"

definition secretKVName :: "string \<Rightarrow> string option" where
  "secretKVName display =
     (case cut_suffix FileExtension display of None \<Rightarrow> None | Some stem \<Rightarrow> if stem = [] then None else Some stem)"

definition joinPath :: "string \<Rightarrow> string \<Rightarrow> string" where
  "joinPath dir name = (if dir = [] then name else dir @ ''/'' @ name)"

definition leafName :: "string \<Rightarrow> string" where
  "leafName p = (case split_last (CHR ''/'') p of None \<Rightarrow> p | Some (_, leaf) \<Rightarrow> leaf)"

definition parentPath :: "string \<Rightarrow> string" where
  "parentPath p = (case split_last (CHR ''/'') p of None \<Rightarrow> [] | Some (dir, _) \<Rightarrow> dir)"

definition cleanPath :: "string \<Rightarrow> vfs_error + string" where
  "cleanPath p = (case clean p of Inl _ \<Rightarrow> Inl InvalidName | Inr q \<Rightarrow> Inr q)"

definition kvPathForFile :: "string \<Rightarrow> vfs_error + string" where
  "kvPathForFile displayPath =
     rbind (cleanPath displayPath) (\<lambda>p.
       if p = [] then Inl InvalidName
       else case secretKVName (leafName p) of
              None \<Rightarrow> Inl InvalidName
            | Some stem \<Rightarrow> Inr (joinPath (parentPath p) stem))"

section \<open>The tree and its cache\<close>

datatype kind = KindNone | KindDir | KindFile

record dir_item =
  EName :: string
  EKind :: kind

text \<open>\<open>dirs\<close> and \<open>docs\<close> with the time they expire; a document \<open>None\<close> is a negative entry.\<close>

record ('v, 'f) tree =
  store :: "('v, 'f) vault_store"
  readWrite :: bool
  ttl :: int
  clientCert :: bool
  dirs :: "string \<Rightarrow> (dir_item list \<times> int) option"
  docs :: "string \<Rightarrow> (document option \<times> int) option"

definition NewTree :: "('v, 'f) vault_store \<Rightarrow> bool \<Rightarrow> int \<Rightarrow> ('v, 'f) tree" where
  "NewTree S rw cacheTTL =
     \<lparr>store = S, readWrite = rw, ttl = cacheTTL, clientCert = False, dirs = Map.empty, docs = Map.empty\<rparr>"

definition lookupDir :: "int \<Rightarrow> string \<Rightarrow> ('v, 'f) tree \<Rightarrow> dir_item list option" where
  "lookupDir now path t =
     (if ttl t \<le> 0 then None
      else case dirs t path of None \<Rightarrow> None | Some (es, expires) \<Rightarrow> if expires < now then None else Some es)"

definition storeDir :: "int \<Rightarrow> string \<Rightarrow> dir_item list \<Rightarrow> ('v, 'f) tree \<Rightarrow> ('v, 'f) tree" where
  "storeDir now path es t = (if ttl t \<le> 0 then t else t\<lparr>dirs := (dirs t)(path \<mapsto> (es, now + ttl t))\<rparr>)"

definition lookupDoc :: "int \<Rightarrow> string \<Rightarrow> ('v, 'f) tree \<Rightarrow> document option option" where
  "lookupDoc now path t =
     (if ttl t \<le> 0 then None
      else case docs t path of None \<Rightarrow> None | Some (d, expires) \<Rightarrow> if expires < now then None else Some d)"

definition storeDoc :: "int \<Rightarrow> string \<Rightarrow> document option \<Rightarrow> ('v, 'f) tree \<Rightarrow> ('v, 'f) tree" where
  "storeDoc now path d t = (if ttl t \<le> 0 then t else t\<lparr>docs := (docs t)(path \<mapsto> (d, now + ttl t))\<rparr>)"

definition invalidate :: "string \<Rightarrow> ('v, 'f) tree \<Rightarrow> ('v, 'f) tree" where
  "invalidate path t =
     (if ttl t \<le> 0 then t else t\<lparr>docs := (docs t)(path := None), dirs := (dirs t)(parentPath path := None)\<rparr>)"

definition invalidateAll :: "('v, 'f) tree \<Rightarrow> ('v, 'f) tree" where
  "invalidateAll t = (if ttl t \<le> 0 then t else t\<lparr>dirs := Map.empty, docs := Map.empty\<rparr>)"

definition SetClientCert :: "bool \<Rightarrow> ('v, 'f) tree \<Rightarrow> ('v, 'f) tree" where
  "SetClientCert s t = invalidateAll (t\<lparr>clientCert := s\<rparr>)"

definition IsClientCertPath :: "string \<Rightarrow> bool" where
  "IsClientCertPath p \<longleftrightarrow> p \<in> {''client.crt'', ''client.key'', ''client.pem''}"

definition servesClientCert :: "('v, 'f) tree \<Rightarrow> string \<Rightarrow> bool" where
  "servesClientCert t p \<longleftrightarrow> clientCert t \<and> IsClientCertPath p"

subsection \<open>Listing\<close>

text \<open>What one name of Vault's listing does to the entries collected so far.\<close>

definition add_name :: "bool \<Rightarrow> string \<Rightarrow> string \<Rightarrow> kind gomap \<Rightarrow> kind gomap" where
  "add_name cert dir raw byName =
     (let isDir = has_suffix ''/'' raw; name = trim_suffix ''/'' raw in
      if validate_name name \<noteq> None then byName
      else if isDir \<and> cert \<and> IsClientCertPath (joinPath dir name) then byName
      else (let shown = (if isDir then name else fileDisplayName name);
                kind = (if isDir then KindDir else KindFile)
            in mput shown
                 (case map_of byName shown of Some prev \<Rightarrow> if prev \<noteq> kind then KindDir else kind | None \<Rightarrow> kind)
                 byName))"

definition cert_names :: "kind gomap \<Rightarrow> kind gomap" where
  "cert_names byName = mput ''client.pem'' KindFile (mput ''client.key'' KindFile (mput ''client.crt'' KindFile byName))"

text \<open>The entries sorted by name; a map here lists its keys in that order.\<close>

definition list_dir :: "bool \<Rightarrow> string \<Rightarrow> string list \<Rightarrow> dir_item list" where
  "list_dir cert dir raw =
     (let byName = fold (add_name cert dir) raw [];
          all = (if dir = [] \<and> cert then cert_names byName else byName)
      in map (\<lambda>(name, kind). \<lparr>EName = name, EKind = kind\<rparr>) all)"

text \<open>\<open>now\<close> is the clock at the lookup in the cache, \<open>later\<close> when the answer is stored.\<close>

definition Readdir :: "int \<Rightarrow> int \<Rightarrow> string \<Rightarrow> 'v \<Rightarrow> ('v, 'f) tree \<Rightarrow> (vfs_error + dir_item list) \<times> ('v, 'f) tree" where
  "Readdir now later path v t =
     (case cleanPath path of
        Inl e \<Rightarrow> (Inl e, t)
      | Inr dir \<Rightarrow>
          (case lookupDir now dir t of
             Some es \<Rightarrow> (Inr es, t)
           | None \<Rightarrow>
               (case store_List (store t) dir v of
                  None \<Rightarrow> (Inl ListFailed, t)
                | Some raw \<Rightarrow> (let es = list_dir (clientCert t) dir raw in (Inr es, storeDir later dir es t)))))"

subsection \<open>Documents of the tree\<close>

text \<open>What \<open>Source.Current\<close> answers: certificate and key with the time they begin, an error, or neither.\<close>

datatype cert_reply = CertPair string string string int | CertFailed | CertNothing

definition clientCertDocument :: "cert_reply \<Rightarrow> string \<Rightarrow> vfs_error + document option" where
  "clientCertDocument cert path =
     (case cert of
        CertFailed \<Rightarrow> Inl CertUnavailable
      | CertNothing \<Rightarrow> Inl NoPair
      | CertPair crt key combined notBefore \<Rightarrow>
          Inr (Some \<lparr>Bytes = (if path = ''client.crt'' then crt else if path = ''client.key'' then key else combined),
                     ModTime = notBefore, DVersion = 0\<rparr>))"

definition Document :: "'f codec \<Rightarrow> cert_reply \<Rightarrow> int \<Rightarrow> int \<Rightarrow> string \<Rightarrow> 'v \<Rightarrow> ('v, 'f) tree
    \<Rightarrow> (vfs_error + document option) \<times> ('v, 'f) tree" where
  "Document J cert now later path0 v t =
     (case cleanPath path0 of
        Inl e \<Rightarrow> (Inl e, t)
      | Inr path \<Rightarrow>
          if path = [] then (Inr None, t)
          else if servesClientCert t path then (clientCertDocument cert path, t)
          else case kvPathForFile path of
            Inl _ \<Rightarrow> (Inr None, t)
          | Inr kvPath \<Rightarrow>
              (case lookupDoc now kvPath t of
                 Some d \<Rightarrow> (Inr d, t)
               | None \<Rightarrow>
                   (case store_Read (store t) kvPath v of
                      None \<Rightarrow> (Inl ReadFailed, t)
                    | Some None \<Rightarrow> (Inr None, storeDoc later kvPath None t)
                    | Some (Some s) \<Rightarrow>
                        (case RenderDocument J s of
                           Inl e \<Rightarrow> (Inl e, t)
                         | Inr d \<Rightarrow> (Inr (Some d), storeDoc later kvPath (Some d) t)))))"

definition Lookup :: "'f codec \<Rightarrow> cert_reply \<Rightarrow> int \<Rightarrow> int \<Rightarrow> string \<Rightarrow> string \<Rightarrow> 'v \<Rightarrow> ('v, 'f) tree
    \<Rightarrow> (vfs_error + kind) \<times> ('v, 'f) tree" where
  "Lookup J cert now later dir name v t =
     (if validate_name name \<noteq> None then (Inl InvalidName, t)
      else if cleanPath dir = Inr [] \<and> servesClientCert t name then (Inr KindFile, t)
      else case Readdir now later dir v t of
        (Inr es, t') \<Rightarrow>
          (Inr (case find (\<lambda>e. EName e = name) es of Some e \<Rightarrow> EKind e | None \<Rightarrow> KindNone), t')
      | (Inl listErr, t') \<Rightarrow>
          (case Document J cert later later (joinPath dir name) v t' of
             (Inl _, t'') \<Rightarrow> (Inl listErr, t'')
           | (Inr None, t'') \<Rightarrow> (Inr KindNone, t'')
           | (Inr (Some _), t'') \<Rightarrow> (Inr KindFile, t'')))"

subsection \<open>Writing\<close>

definition Put :: "'f codec \<Rightarrow> string \<Rightarrow> string \<Rightarrow> 'v \<Rightarrow> ('v, 'f) tree \<Rightarrow> vfs_error option \<times> 'v \<times> ('v, 'f) tree" where
  "Put J path content v t =
     (if \<not> readWrite t \<or> servesClientCert t path then (Some ReadOnly, v, t)
      else case rbind (kvPathForFile path) (\<lambda>kvPath. rbind (parseDocument J content) (\<lambda>data. Inr (kvPath, data))) of
        Inl e \<Rightarrow> (Some e, v, t)
      | Inr (kvPath, data) \<Rightarrow>
          (case store_Write (store t) kvPath data v of
             (False, v') \<Rightarrow> (Some WriteFailed, v', t)
           | (True, v') \<Rightarrow> (None, v', invalidate kvPath t)))"

definition tree_Remove :: "string \<Rightarrow> 'v \<Rightarrow> ('v, 'f) tree \<Rightarrow> vfs_error option \<times> 'v \<times> ('v, 'f) tree" where
  "tree_Remove path v t =
     (if \<not> readWrite t \<or> servesClientCert t path then (Some ReadOnly, v, t)
      else case kvPathForFile path of
        Inl e \<Rightarrow> (Some e, v, t)
      | Inr kvPath \<Rightarrow>
          (case store_Delete (store t) kvPath v of
             (False, v') \<Rightarrow> (Some DeleteFailed, v', t)
           | (True, v') \<Rightarrow> (None, v', invalidate kvPath t)))"


section \<open>Facts about names\<close>

lemma split_last_cases:
  obtains "CHR ''/'' \<notin> set p" "parentPath p = []" "leafName p = p"
  | dir leaf where "p = dir @ CHR ''/'' # leaf" "CHR ''/'' \<notin> set leaf" "parentPath p = dir" "leafName p = leaf"
proof (cases "split_last (CHR ''/'') p")
  case None
  then have "CHR ''/'' \<notin> set p" by (simp add: split_last_None)
  then show thesis by (rule that(1)) (simp_all add: None parentPath_def leafName_def)
next
  case (Some dl)
  obtain dir leaf where dl: "dl = (dir, leaf)" by fastforce
  then have "p = dir @ CHR ''/'' # leaf" "CHR ''/'' \<notin> set leaf"
    using Some by (simp_all add: split_last_Some)
  then show thesis by (rule that(2)) (simp_all add: Some dl parentPath_def leafName_def)
qed

lemma join_parent_leaf: "hd p \<noteq> CHR ''/'' \<Longrightarrow> p \<noteq> [] \<Longrightarrow> joinPath (parentPath p) (leafName p) = p"
  by (cases p rule: split_last_cases) (auto simp: joinPath_def)

lemma joinPath_parts:
  assumes "CHR ''/'' \<notin> set leaf" "dir = [] \<or> hd dir \<noteq> CHR ''/''"
  shows "parentPath (joinPath dir leaf) = dir" "leafName (joinPath dir leaf) = leaf"
  using assms
  by (auto simp: joinPath_def parentPath_def leafName_def split_last_None [THEN iffD2] split_last_Some [THEN iffD2]
      split: option.split)

lemma joinPath_inj:
  assumes "joinPath d l = joinPath d' l'" "CHR ''/'' \<notin> set l" "CHR ''/'' \<notin> set l'"
    and "d = [] \<or> hd d \<noteq> CHR ''/''" "d' = [] \<or> hd d' \<noteq> CHR ''/''"
  shows "d = d'" "l = l'"
  using joinPath_parts [OF assms(2,4)] joinPath_parts [OF assms(3,5)] assms(1) by simp_all

lemma canonical_joinPath:
  assumes "CHR ''/'' \<notin> set leaf"
  shows "canonical (joinPath dir leaf) \<longleftrightarrow>
    (if dir = [] then leaf = [] \<or> plain_name leaf
     else list_all plain_name (split_ch (CHR ''/'') dir) \<and> plain_name leaf)"
  using assms by (simp add: joinPath_def canonical_def split_ch_append_sep split_ch_no_sep)

text \<open>A path of the mount that names a secret: a canonical directory and a stem with the extension.\<close>

definition names_secret :: "string \<Rightarrow> string \<Rightarrow> string \<Rightarrow> bool" where
  "names_secret p dir stem \<longleftrightarrow> canonical dir \<and> stem \<noteq> [] \<and> CHR ''/'' \<notin> set stem \<and> CHR 0x00 \<notin> set stem
     \<and> trim_ch (CHR ''/'') p = joinPath dir (fileDisplayName stem)"

lemma plain_display: "stem \<noteq> [] \<Longrightarrow> plain_name (fileDisplayName stem) \<longleftrightarrow> CHR ''/'' \<notin> set stem \<and> CHR 0x00 \<notin> set stem"
proof -
  assume "stem \<noteq> []"
  then have "length (fileDisplayName stem) > 2" by (cases stem) (simp_all add: fileDisplayName_def FileExtension_def)
  then have "fileDisplayName stem \<notin> {[], ''.'', ''..''}" by auto
  then show ?thesis by (auto simp: plain_name_def fileDisplayName_def FileExtension_def)
qed

lemma display_no_slash: "CHR ''/'' \<notin> set (fileDisplayName stem) \<longleftrightarrow> CHR ''/'' \<notin> set stem"
  by (simp add: fileDisplayName_def FileExtension_def)

lemma canonical_dir: "canonical dir \<longleftrightarrow> dir = [] \<or> list_all plain_name (split_ch (CHR ''/'') dir)"
  by (simp add: canonical_def)

lemma canonical_hd: "canonical dir \<Longrightarrow> dir = [] \<or> hd dir \<noteq> CHR ''/''"
  using canonical_edges by blast

lemma secretKVName_iff: "secretKVName n = Some stem \<longleftrightarrow> n = fileDisplayName stem \<and> stem \<noteq> []"
  by (auto simp: secretKVName_def fileDisplayName_def cut_suffix_Some_iff split: option.splits)

lemma kvPathForFile_iff:
  "kvPathForFile p = Inr q \<longleftrightarrow> (\<exists>dir stem. names_secret p dir stem \<and> q = joinPath dir stem)"
proof
  assume "kvPathForFile p = Inr q"
  then obtain stem where *: "canonical (trim_ch (CHR ''/'') p)" "trim_ch (CHR ''/'') p \<noteq> []"
      "leafName (trim_ch (CHR ''/'') p) = fileDisplayName stem" "stem \<noteq> []"
      "q = joinPath (parentPath (trim_ch (CHR ''/'') p)) stem"
    by (auto simp: kvPathForFile_def cleanPath_def clean_cases secretKVName_iff split: if_splits option.splits)
  define c where "c = trim_ch (CHR ''/'') p"
  have c: "joinPath (parentPath c) (leafName c) = c"
    using canonical_edges [OF *(1,2)] *(2) by (simp add: c_def join_parent_leaf)
  have leaf: "CHR ''/'' \<notin> set (leafName c)" by (cases c rule: split_last_cases) auto
  have "canonical (joinPath (parentPath c) (leafName c))" unfolding c using *(1) by (simp add: c_def)
  then have "canonical (parentPath c) \<and> plain_name (fileDisplayName stem)"
    unfolding canonical_joinPath [OF leaf] using *(3,4)
    by (auto simp: canonical_dir c_def fileDisplayName_def FileExtension_def split: if_splits)
  then have "names_secret p (parentPath c) stem"
    using *(3,4) c plain_display [of stem] by (simp add: names_secret_def c_def)
  then show "\<exists>dir stem. names_secret p dir stem \<and> q = joinPath dir stem" using *(5) by (auto simp: c_def)
next
  assume "\<exists>dir stem. names_secret p dir stem \<and> q = joinPath dir stem"
  then obtain dir stem where *: "canonical dir" "stem \<noteq> []" "CHR ''/'' \<notin> set stem" "CHR 0x00 \<notin> set stem"
      "trim_ch (CHR ''/'') p = joinPath dir (fileDisplayName stem)" "q = joinPath dir stem"
    by (auto simp: names_secret_def)
  have slash: "CHR ''/'' \<notin> set (fileDisplayName stem)" using *(3) by (simp add: display_no_slash)
  have "canonical (joinPath dir (fileDisplayName stem))"
    unfolding canonical_joinPath [OF slash] using * plain_display [of stem] by (auto simp: canonical_dir)
  moreover have "joinPath dir (fileDisplayName stem) \<noteq> []" by (simp add: joinPath_def fileDisplayName_def FileExtension_def)
  ultimately show "kvPathForFile p = Inr q"
    using * joinPath_parts [OF slash canonical_hd [OF *(1)]]
    by (simp add: kvPathForFile_def cleanPath_def clean_cases secretKVName_iff [THEN iffD2])
qed

lemma names_secret_inj:
  assumes "names_secret p dir stem" "names_secret p' dir' stem'" "joinPath dir stem = joinPath dir' stem'"
  shows "trim_ch (CHR ''/'') p = trim_ch (CHR ''/'') p'"
proof -
  have "dir = dir'" "stem = stem'"
    using joinPath_inj [OF assms(3)] assms(1,2) canonical_hd unfolding names_secret_def by blast+
  then show ?thesis using assms(1,2) by (simp add: names_secret_def)
qed

lemma canonical_secret_path:
  assumes "names_secret p dir stem"
  shows "canonical (joinPath dir stem) \<longleftrightarrow> stem \<notin> {''.'', ''..''}"
proof -
  have s: "CHR ''/'' \<notin> set stem" using assms by (simp add: names_secret_def)
  show ?thesis unfolding canonical_joinPath [OF s]
    using assms by (auto simp: names_secret_def canonical_dir plain_name_def)
qed

section \<open>Facts about listings\<close>

definition folder_names :: "bool \<Rightarrow> string \<Rightarrow> string list \<Rightarrow> string set" where
  "folder_names cert dir raw =
     {n. n @ ''/'' \<in> set raw \<and> plain_name n \<and> \<not> (cert \<and> IsClientCertPath (joinPath dir n))}"

definition secret_names :: "string list \<Rightarrow> string set" where
  "secret_names raw = fileDisplayName ` {n \<in> set raw. plain_name n}"

definition merged_kind :: "bool \<Rightarrow> bool \<Rightarrow> kind option" where
  "merged_kind folder secret = (if folder then Some KindDir else if secret then Some KindFile else None)"

lemma plain_no_slash_end: "plain_name n \<Longrightarrow> \<not> has_suffix ''/'' n"
  by (auto simp: plain_name_def has_suffix_iff)

lemma add_name_cases:
  "add_name cert dir raw byName =
     (if \<exists>n. raw = n @ ''/'' \<and> plain_name n \<and> \<not> (cert \<and> IsClientCertPath (joinPath dir n))
      then mput (butlast raw) KindDir byName
      else if plain_name raw
      then mput (fileDisplayName raw) (if map_of byName (fileDisplayName raw) = Some KindDir \<or> map_of byName (fileDisplayName raw) = Some KindNone
             then KindDir else KindFile) byName
      else byName)"
proof (cases "has_suffix ''/'' raw")
  case True
  then obtain n where n: "raw = n @ ''/''" by (auto simp: has_suffix_iff)
  have "trim_suffix ''/'' raw = n" unfolding n trim_suffix_def by simp
  then show ?thesis using True n plain_no_slash_end [of raw]
    by (auto simp: add_name_def Let_def split: option.split)
next
  case False
  then have t: "trim_suffix ''/'' raw = raw" by (auto simp: trim_suffix_def has_suffix_def)
  have "raw \<noteq> n @ ''/''" for n using False by (auto simp: has_suffix_iff)
  then show ?thesis using False t
    by (auto simp: add_name_def Let_def split: option.split) (metis kind.exhaust)+
qed

lemma folder_names_Cons:
  "folder_names cert dir (r # raw) = folder_names cert dir raw
     \<union> {n. r = n @ ''/'' \<and> plain_name n \<and> \<not> (cert \<and> IsClientCertPath (joinPath dir n))}"
  by (auto simp: folder_names_def)

lemma secret_names_Cons:
  "secret_names (r # raw) = secret_names raw \<union> {n. plain_name r \<and> n = fileDisplayName r}"
  by (auto simp: secret_names_def)

text \<open>What folding over a listing does to the entries collected before.\<close>

definition kinds_ok :: "kind gomap \<Rightarrow> bool" where
  "kinds_ok m \<longleftrightarrow> keys_ok m \<and> (\<forall>n. map_of m n \<noteq> Some KindNone)"

lemma add_name_ok: "kinds_ok m \<Longrightarrow> kinds_ok (add_name cert dir raw m)"
  by (auto simp: kinds_ok_def add_name_cases)

lemma fold_names:
  "kinds_ok m \<Longrightarrow>
   kinds_ok (fold (add_name cert dir) raw m)
   \<and> map_of (fold (add_name cert dir) raw m) n =
       merged_kind (n \<in> folder_names cert dir raw \<or> map_of m n = Some KindDir)
         (n \<in> secret_names raw \<or> map_of m n = Some KindFile)"
proof (induction raw arbitrary: m)
  case Nil
  then show ?case
    by (cases "map_of m n"; cases "the (map_of m n)") (auto simp: folder_names_def secret_names_def merged_kind_def kinds_ok_def)
next
  case (Cons r raw)
  have step: "map_of (add_name cert dir r m) n =
      merged_kind (n \<in> {n. r = n @ ''/'' \<and> plain_name n \<and> \<not> (cert \<and> IsClientCertPath (joinPath dir n))} \<or> map_of m n = Some KindDir)
        (n \<in> {n. plain_name r \<and> n = fileDisplayName r} \<or> map_of m n = Some KindFile)"
  proof (cases "\<exists>n. r = n @ ''/'' \<and> plain_name n \<and> \<not> (cert \<and> IsClientCertPath (joinPath dir n))")
    case True
    then obtain n' where n': "r = n' @ ''/''" "plain_name n'" by blast
    then have "\<not> plain_name r" by (auto simp: plain_name_def)
    then show ?thesis using True n' Cons.prems
      by (cases "map_of m n"; cases "the (map_of m n)") (auto simp: add_name_cases merged_kind_def kinds_ok_def)
  next
    case False
    then show ?thesis using Cons.prems
      by (cases "map_of m n"; cases "the (map_of m n)")
        (auto simp: add_name_cases merged_kind_def kinds_ok_def)
  qed
  show ?case
    using Cons.IH [OF add_name_ok [OF Cons.prems], of cert dir r] unfolding step folder_names_Cons secret_names_Cons
    by (auto simp: merged_kind_def)
qed

definition shown_kind :: "bool \<Rightarrow> string \<Rightarrow> string list \<Rightarrow> string \<Rightarrow> kind option" where
  "shown_kind cert dir raw n =
     (if dir = [] \<and> cert \<and> IsClientCertPath n then Some KindFile
      else merged_kind (n \<in> folder_names cert dir raw) (n \<in> secret_names raw))"

lemma list_dir_map:
  obtains m where "list_dir cert dir raw = map (\<lambda>(name, kind). \<lparr>EName = name, EKind = kind\<rparr>) m"
    "keys_ok m" "map_of m = shown_kind cert dir raw"
proof -
  let ?m = "fold (add_name cert dir) raw []"
  have nil: "kinds_ok []" by (simp add: kinds_ok_def)
  have m: "keys_ok ?m" "map_of ?m n = merged_kind (n \<in> folder_names cert dir raw) (n \<in> secret_names raw)" for n
    using fold_names [OF nil, of cert dir raw n] by (simp_all add: kinds_ok_def)
  define all where "all = (if dir = [] \<and> cert then cert_names ?m else ?m)"
  have "keys_ok all" unfolding all_def cert_names_def
    by (rule if_split [THEN iffD2]) (intro conjI impI keys_ok_mput m(1))
  moreover have "map_of all = shown_kind cert dir raw"
    using m(2) by (auto simp: fun_eq_iff all_def cert_names_def shown_kind_def IsClientCertPath_def)
  moreover have "list_dir cert dir raw = map (\<lambda>(name, kind). \<lparr>EName = name, EKind = kind\<rparr>) all"
    by (simp add: list_dir_def Let_def all_def)
  ultimately show thesis using that by blast
qed


section \<open>What the cache promises\<close>

text \<open>
  Of the server it is used only that a write or a delete of one path, whether it succeeds or
  not, leaves every other path as it was.
\<close>

definition kv_laws :: "('v, 'f) kv_client \<Rightarrow> bool" where
  "kv_laws C \<longleftrightarrow>
     (\<forall>m p q d v. q \<noteq> p \<longrightarrow> ReadKVv2 C m q (snd (WriteKVv2 C m p d v)) = ReadKVv2 C m q v
        \<and> ReadKVv2 C m q (snd (DeleteKVv2 C m p v)) = ReadKVv2 C m q v)"

text \<open>What a reader should see at a KV path: \<open>None\<close> when it cannot be read or rendered.\<close>

definition current :: "'f codec \<Rightarrow> ('v, 'f) vault_store \<Rightarrow> string \<Rightarrow> 'v \<Rightarrow> document option option" where
  "current J S p v =
     (case store_Read S p v of
        None \<Rightarrow> None
      | Some None \<Rightarrow> Some None
      | Some (Some s) \<Rightarrow> (case RenderDocument J s of Inl _ \<Rightarrow> None | Inr d \<Rightarrow> Some (Some d)))"

text \<open>
  The mount in use: its operations in sequence, and changes of the server by others at any
  time. \<open>changed\<close> notes when a path last changed other than by a successful write here.
\<close>

record ('v, 'f) fs_state =
  fs_tree :: "('v, 'f) tree"
  vault :: 'v
  fs_time :: int
  changed :: "string \<Rightarrow> int option"

definition note_change :: "'f codec \<Rightarrow> 'v \<Rightarrow> int \<Rightarrow> ('v, 'f) fs_state \<Rightarrow> ('v, 'f) fs_state" where
  "note_change J v' at s =
     s\<lparr>vault := v', fs_time := at,
       changed := (\<lambda>p. if current J (store (fs_tree s)) p v' = current J (store (fs_tree s)) p (vault s)
                       then changed s p else Some at)\<rparr>"

inductive fs_step :: "'f codec \<Rightarrow> ('v, 'f) fs_state \<Rightarrow> ('v, 'f) fs_state \<Rightarrow> bool" for J where
  read_document: "fs_time s \<le> now \<Longrightarrow> now \<le> later
    \<Longrightarrow> fs_step J s (s\<lparr>fs_tree := snd (Document J cert now later p (vault s) (fs_tree s)), fs_time := later\<rparr>)"
| read_dir: "fs_time s \<le> now \<Longrightarrow> now \<le> later
    \<Longrightarrow> fs_step J s (s\<lparr>fs_tree := snd (Readdir now later p (vault s) (fs_tree s)), fs_time := later\<rparr>)"
| looked_up: "fs_time s \<le> now \<Longrightarrow> now \<le> later
    \<Longrightarrow> fs_step J s (s\<lparr>fs_tree := snd (Lookup J cert now later p n (vault s) (fs_tree s)), fs_time := later\<rparr>)"
| put_ok: "Put J p b (vault s) (fs_tree s) = (None, v', t')
    \<Longrightarrow> fs_step J s (s\<lparr>fs_tree := t', vault := v'\<rparr>)"
| put_failed: "Put J p b (vault s) (fs_tree s) = (Some e, v', t') \<Longrightarrow> fs_time s \<le> now
    \<Longrightarrow> fs_step J s (note_change J v' now s)"
| remove_ok: "tree_Remove p (vault s) (fs_tree s) = (None, v', t')
    \<Longrightarrow> fs_step J s (s\<lparr>fs_tree := t', vault := v'\<rparr>)"
| remove_failed: "tree_Remove p (vault s) (fs_tree s) = (Some e, v', t') \<Longrightarrow> fs_time s \<le> now
    \<Longrightarrow> fs_step J s (note_change J v' now s)"
| flushed: "fs_step J s (s\<lparr>fs_tree := invalidateAll (fs_tree s)\<rparr>)"
| changed_by_others: "fs_time s \<le> now \<Longrightarrow> fs_step J s (note_change J v' now s)"

inductive fs_run :: "'f codec \<Rightarrow> ('v, 'f) fs_state \<Rightarrow> ('v, 'f) fs_state \<Rightarrow> bool" for J s0 where
  start: "fs_run J s0 s0"
| later: "fs_run J s0 s \<Longrightarrow> fs_step J s s' \<Longrightarrow> fs_run J s0 s'"

text \<open>Every cached document is the current one, or was overtaken before it expires.\<close>

definition doc_ok :: "'f codec \<Rightarrow> ('v, 'f) fs_state \<Rightarrow> string \<Rightarrow> document option \<Rightarrow> int \<Rightarrow> bool" where
  "doc_ok J s p d expires \<longleftrightarrow> expires \<le> fs_time s + ttl (fs_tree s)
     \<and> (current J (store (fs_tree s)) p (vault s) = Some d
        \<or> (\<exists>c. changed s p = Some c \<and> expires \<le> c + ttl (fs_tree s)))"

definition docs_ok :: "'f codec \<Rightarrow> ('v, 'f) fs_state \<Rightarrow> bool" where
  "docs_ok J s \<longleftrightarrow>
     (\<forall>p d expires. docs (fs_tree s) p = Some (d, expires) \<longrightarrow> 0 < ttl (fs_tree s) \<and> doc_ok J s p d expires)"

lemma docs_okI:
  "(\<And>p d e. docs (fs_tree s) p = Some (d, e) \<Longrightarrow> 0 < ttl (fs_tree s) \<and> doc_ok J s p d e) \<Longrightarrow> docs_ok J s"
  by (simp add: docs_ok_def)

lemma docs_okD: "docs_ok J s \<Longrightarrow> docs (fs_tree s) p = Some (d, e) \<Longrightarrow> 0 < ttl (fs_tree s) \<and> doc_ok J s p d e"
  by (simp add: docs_ok_def)

text \<open>How an operation that reads changes the tree: one more document or listing.\<close>

lemma store_fields [simp]:
  "docs (storeDir n p es t) = docs t" "store (storeDir n p es t) = store t" "ttl (storeDir n p es t) = ttl t"
  "readWrite (storeDir n p es t) = readWrite t" "clientCert (storeDir n p es t) = clientCert t"
  "store (storeDoc n p d t) = store t" "ttl (storeDoc n p d t) = ttl t"
  "readWrite (storeDoc n p d t) = readWrite t" "clientCert (storeDoc n p d t) = clientCert t"
  "store (invalidate p t) = store t" "ttl (invalidate p t) = ttl t"
  "store (invalidateAll t) = store t" "ttl (invalidateAll t) = ttl t"
  by (simp_all add: storeDir_def storeDoc_def invalidate_def invalidateAll_def)

lemma Readdir_docs:
  "docs (snd (Readdir now later p v t)) = docs t" "store (snd (Readdir now later p v t)) = store t"
  "ttl (snd (Readdir now later p v t)) = ttl t"
  by (simp_all add: Readdir_def Let_def split: sum.split option.split)

lemma Document_cases:
  obtains (same) "snd (Document J cert now later p v t) = t"
  | (stored) kvPath d where "snd (Document J cert now later p v t) = storeDoc later kvPath d t"
      "current J (store t) kvPath v = Some d"
proof (cases "snd (Document J cert now later p v t) = t")
  case False
  then obtain path kvPath where *: "cleanPath p = Inr path" "path \<noteq> []" "\<not> servesClientCert t path"
      "kvPathForFile path = Inr kvPath" "lookupDoc now kvPath t = None"
    by (auto simp: Document_def split: sum.splits option.splits if_splits)
  then show thesis
    using False stored [of kvPath None] stored [of kvPath]
    by (auto simp: Document_def current_def split: option.splits sum.splits)
qed (use same in blast)

lemma doc_ok_tree:
  "store t = store (fs_tree s) \<Longrightarrow> ttl t = ttl (fs_tree s) \<Longrightarrow> doc_ok J (s\<lparr>fs_tree := t\<rparr>) p d e = doc_ok J s p d e"
  by (simp add: doc_ok_def)

lemma doc_ok_later: "doc_ok J s p d e \<Longrightarrow> fs_time s \<le> now \<Longrightarrow> doc_ok J (s\<lparr>fs_time := now\<rparr>) p d e"
  by (auto simp: doc_ok_def)

lemma docs_ok_sub:
  assumes "docs_ok J s" "fs_time s \<le> now" "store t = store (fs_tree s)" "ttl t = ttl (fs_tree s)"
    and "\<And>p d e. docs t p = Some (d, e) \<Longrightarrow>
      docs (fs_tree s) p = Some (d, e) \<or> 0 < ttl t \<and> e = now + ttl t \<and> current J (store t) p (vault s) = Some d"
  shows "docs_ok J (s\<lparr>fs_tree := t, fs_time := now\<rparr>)"
proof (rule docs_okI)
  fix p d e
  assume "docs (fs_tree (s\<lparr>fs_tree := t, fs_time := now\<rparr>)) p = Some (d, e)"
  then consider "docs (fs_tree s) p = Some (d, e)"
    | "0 < ttl t" "e = now + ttl t" "current J (store t) p (vault s) = Some d"
    using assms(5) by force
  then show "0 < ttl (fs_tree (s\<lparr>fs_tree := t, fs_time := now\<rparr>)) \<and> doc_ok J (s\<lparr>fs_tree := t, fs_time := now\<rparr>) p d e"
  proof cases
    case 1
    with docs_okD [OF assms(1) 1] assms(2,3,4) show ?thesis by (auto simp: doc_ok_def)
  next
    case 2
    with assms(3) show ?thesis by (simp add: doc_ok_def)
  qed
qed

lemma docs_ok_read:
  assumes "docs_ok J s" "fs_time s \<le> later"
  shows "docs_ok J (s\<lparr>fs_tree := snd (Document J cert now later p (vault s) (fs_tree s)), fs_time := later\<rparr>)"
proof (cases rule: Document_cases [of J cert now later p "vault s" "fs_tree s"])
  case same
  show ?thesis unfolding same by (rule docs_ok_sub [OF assms]) simp_all
next
  case (stored kvPath d)
  show ?thesis unfolding stored(1)
    by (rule docs_ok_sub [OF assms]) (use stored(2) in \<open>auto simp: storeDoc_def split: if_splits\<close>)
qed

lemma docs_ok_readdir:
  assumes "docs_ok J s" "fs_time s \<le> later"
  shows "docs_ok J (s\<lparr>fs_tree := snd (Readdir now later p (vault s) (fs_tree s)), fs_time := later\<rparr>)"
  by (rule docs_ok_sub [OF assms]) (simp_all add: Readdir_docs)

lemma Lookup_tree:
  "snd (Lookup J cert now later dir n v t) \<in>
     {t, snd (Readdir now later dir v t),
      snd (Document J cert later later (joinPath dir n) v (snd (Readdir now later dir v t)))}"
  by (cases "Readdir now later dir v t")
    (auto simp: Lookup_def split: sum.split option.split prod.split)

lemma docs_ok_lookup:
  assumes "docs_ok J s" "fs_time s \<le> later"
  shows "docs_ok J (s\<lparr>fs_tree := snd (Lookup J cert now later p n (vault s) (fs_tree s)), fs_time := later\<rparr>)"
proof -
  note dir = docs_ok_readdir [OF assms, of now p]
  have "docs_ok J (s\<lparr>fs_tree := fs_tree s, fs_time := later\<rparr>)" by (rule docs_ok_sub [OF assms]) simp_all
  then show ?thesis
    using Lookup_tree [of J cert now later p n "vault s" "fs_tree s"] dir
      docs_ok_read [OF dir, of later cert later "joinPath p n"] by auto
qed

lemma doc_ok_note_change: "doc_ok J s p d e \<Longrightarrow> fs_time s \<le> at \<Longrightarrow> doc_ok J (note_change J v' at s) p d e"
  by (auto simp: doc_ok_def note_change_def)

lemma docs_ok_note_change:
  assumes "docs_ok J s" "fs_time s \<le> at"
  shows "docs_ok J (note_change J v' at s)"
proof (rule docs_okI)
  fix p d e
  assume "docs (fs_tree (note_change J v' at s)) p = Some (d, e)"
  then have "docs (fs_tree s) p = Some (d, e)" by (simp add: note_change_def)
  from docs_okD [OF assms(1) this] show "0 < ttl (fs_tree (note_change J v' at s)) \<and> doc_ok J (note_change J v' at s) p d e"
    using doc_ok_note_change [OF _ assms(2)] by (simp add: note_change_def)
qed

lemma docs_ok_written:
  assumes "docs_ok J s" "\<And>q. q \<noteq> kvPath \<Longrightarrow> current J (store (fs_tree s)) q v' = current J (store (fs_tree s)) q (vault s)"
  shows "docs_ok J (s\<lparr>fs_tree := invalidate kvPath (fs_tree s), vault := v'\<rparr>)"
proof (rule docs_okI)
  let ?s = "s\<lparr>fs_tree := invalidate kvPath (fs_tree s), vault := v'\<rparr>"
  fix p d e
  assume doc: "docs (fs_tree ?s) p = Some (d, e)"
  show "0 < ttl (fs_tree ?s) \<and> doc_ok J ?s p d e"
  proof (cases "ttl (fs_tree s) \<le> 0")
    case True
    then show ?thesis using doc docs_okD [OF assms(1), of p d e] by (simp add: invalidate_def)
  next
    case False
    then have "p \<noteq> kvPath" "docs (fs_tree s) p = Some (d, e)" using doc by (auto simp: invalidate_def split: if_splits)
    then show ?thesis using docs_okD [OF assms(1), of p d e] assms(2) by (simp add: doc_ok_def)
  qed
qed

lemma kv_laws_current:
  assumes "kv_laws (client S)" "q \<noteq> kvPath"
  shows "current J S q (snd (store_Write S kvPath d v)) = current J S q v"
    and "current J S q (snd (store_Delete S kvPath v)) = current J S q v"
  using assms by (simp_all add: kv_laws_def current_def store_Read_def store_Write_def store_Delete_def store_path_def)

lemma Put_None:
  assumes "Put J p b v t = (None, v', t')"
  obtains kvPath data where "kvPathForFile p = Inr kvPath" "parseDocument J b = Inr data" "readWrite t"
    "store_Write (store t) kvPath data v = (True, v')" "t' = invalidate kvPath t"
  using assms that
  by (cases "kvPathForFile p"; cases "parseDocument J b") (auto simp: Put_def split: if_splits prod.splits bool.splits)

lemma tree_Remove_None:
  assumes "tree_Remove p v t = (None, v', t')"
  obtains kvPath where "kvPathForFile p = Inr kvPath" "readWrite t"
    "store_Delete (store t) kvPath v = (True, v')" "t' = invalidate kvPath t"
  using assms that by (auto simp: tree_Remove_def split: if_splits prod.splits bool.splits sum.splits)

lemma Document_fields:
  "store (snd (Document J cert now later p v t)) = store t" "ttl (snd (Document J cert now later p v t)) = ttl t"
  by (cases rule: Document_cases [of J cert now later p v t]; simp)+

lemma fs_step_tree: "fs_step J s s' \<Longrightarrow> store (fs_tree s') = store (fs_tree s) \<and> ttl (fs_tree s') = ttl (fs_tree s)"
proof (induction rule: fs_step.induct)
  case (looked_up s now later cert p n)
  then show ?case
    using Lookup_tree [of J cert now later p n "vault s" "fs_tree s"] by (auto simp: Readdir_docs Document_fields)
qed (auto simp: note_change_def Readdir_docs Document_fields elim: Put_None tree_Remove_None)

lemma docs_ok_step:
  assumes "fs_step J s s'" "docs_ok J s" "kv_laws (client (store (fs_tree s)))"
  shows "docs_ok J s'"
  using assms
proof (induction rule: fs_step.induct)
  case (put_ok p b s v' t')
  then obtain kvPath data where *: "store_Write (store (fs_tree s)) kvPath data (vault s) = (True, v')"
      "t' = invalidate kvPath (fs_tree s)" by (blast elim: Put_None)
  show ?case unfolding *(2)
    by (rule docs_ok_written [OF put_ok.prems(1)]) (metis *(1) kv_laws_current(1) put_ok.prems(2) snd_conv)
next
  case (remove_ok p s v' t')
  then obtain kvPath where *: "store_Delete (store (fs_tree s)) kvPath (vault s) = (True, v')"
      "t' = invalidate kvPath (fs_tree s)" by (blast elim: tree_Remove_None)
  show ?case unfolding *(2)
    by (rule docs_ok_written [OF remove_ok.prems(1)]) (metis *(1) kv_laws_current(2) remove_ok.prems(2) snd_conv)
next
  case (flushed s)
  show ?case
    by (rule docs_okI) (use docs_okD [OF flushed(1)] in \<open>auto simp: invalidateAll_def doc_ok_def split: if_splits\<close>)
qed (simp_all add: docs_ok_read docs_ok_readdir docs_ok_lookup docs_ok_note_change)

lemma fs_run_ok:
  assumes "fs_run J s0 s" "docs_ok J s0" "kv_laws (client (store (fs_tree s0)))"
  shows "docs_ok J s \<and> store (fs_tree s) = store (fs_tree s0) \<and> ttl (fs_tree s) = ttl (fs_tree s0)"
  using assms
proof (induction rule: fs_run.induct)
  case (later s s')
  then show ?case using docs_ok_step [of J s s'] fs_step_tree [of J s s'] by simp
qed simp


lemma file_path:
  assumes "kvPathForFile p = Inr kvPath"
  obtains c where "cleanPath p = Inr c" "c \<noteq> []" "kvPathForFile c = Inr kvPath" "\<not> IsClientCertPath c"
proof -
  obtain dir stem where n: "names_secret p dir stem" using assms unfolding kvPathForFile_iff by blast
  define c where "c = trim_ch (CHR ''/'') p"
  have "last c = CHR ''n''"
    using n by (auto simp: names_secret_def c_def joinPath_def fileDisplayName_def FileExtension_def)
  then have "\<not> IsClientCertPath c" by (auto simp: IsClientCertPath_def)
  moreover have "cleanPath p = Inr c" "c \<noteq> []" "kvPathForFile c = Inr kvPath"
    using assms unfolding kvPathForFile_def cleanPath_def clean_cases c_def by (auto split: if_splits)
  ultimately show thesis using that by blast
qed

lemma Document_hit_or_fresh:
  assumes "Document J cert now later p v t = (Inr d, t')" "kvPathForFile p = Inr kvPath"
  shows "(\<exists>e. docs t kvPath = Some (d, e) \<and> now \<le> e \<and> 0 < ttl t) \<or> current J (store t) kvPath v = Some d"
  using assms(2)
proof (rule file_path)
  fix c
  assume "cleanPath p = Inr c" "c \<noteq> []" "kvPathForFile c = Inr kvPath" "\<not> IsClientCertPath c"
  then show ?thesis
    using assms(1)
    by (auto simp: Document_def servesClientCert_def lookupDoc_def current_def split: option.splits sum.splits if_splits)
qed

lemma Document_after_invalidate:
  assumes "kvPathForFile p = Inr kvPath"
  shows "fst (Document J cert now later p v (invalidate kvPath t)) =
      (case store_Read (store t) kvPath v of
         None \<Rightarrow> Inl ReadFailed
       | Some None \<Rightarrow> Inr None
       | Some (Some s) \<Rightarrow> (case RenderDocument J s of Inl e \<Rightarrow> Inl e | Inr d \<Rightarrow> Inr (Some d)))"
  using assms
proof (rule file_path)
  fix c
  assume "cleanPath p = Inr c" "c \<noteq> []" "kvPathForFile c = Inr kvPath" "\<not> IsClientCertPath c"
  moreover have "lookupDoc now kvPath (invalidate kvPath t) = None" by (simp add: lookupDoc_def invalidate_def)
  ultimately show ?thesis by (simp add: Document_def servesClientCert_def split: option.split sum.split)
qed

section \<open>A server for examples\<close>

text \<open>A map from paths to secrets that lists the next segments below a path.\<close>

definition demo_children :: "string \<Rightarrow> 'f secret gomap \<Rightarrow> string list" where
  "demo_children p v = remdups (List.map_filter (\<lambda>(k, _). map_option (\<lambda>rest.
     (case split_ch (CHR ''/'') rest of [n] \<Rightarrow> n | n # _ \<Rightarrow> n @ ''/'')) (cut_prefix p k)) v)"

definition demo_client :: "('f secret gomap, 'f) kv_client" where
  "demo_client =
     \<lparr>ListKVv2 = (\<lambda>m p v. Some (demo_children p v)),
      ReadKVv2 = (\<lambda>m p v. Some (map_of v p)),
      WriteKVv2 = (\<lambda>m p d v. (True, mput p \<lparr>SData = Some d, SVersion = 1, SCreated = 0\<rparr> v)),
      DeleteKVv2 = (\<lambda>m p v. (True, mdel p v))\<rparr>"

definition demo_codec :: "'f codec" where
  "demo_codec =
     \<lparr>Marshal = (\<lambda>d. Some (concat (map (\<lambda>(k, _). k @ ''=;'') d))),
      Decode = (\<lambda>s. if has_prefix ''{}'' s then Some (Some [], drop 2 s)
        else if has_prefix ''{a}'' s then Some (Some [(''a'', GBool True)], drop 3 s) else None)\<rparr>"

definition demo_secret :: "'f secret" where
  "demo_secret = \<lparr>SData = Some [], SVersion = 1, SCreated = 0\<rparr>"

definition demo_tree :: "('f secret gomap, 'f) tree" where
  "demo_tree = NewTree \<lparr>client = demo_client, mount = ''kv'', prefix_path = UserRoot ''users/'' ''gary''\<rparr> True 10"

lemma demo_laws: "kv_laws demo_client"
  by (simp add: kv_laws_def demo_client_def)


section \<open>Properties\<close>

text \<open>
  File names and KV paths correspond one to one: the names that address a secret are exactly
  a canonical directory and a stem with the extension, two of them address the same secret
  only if they are spellings of one path, and the name shown for a secret leads back to it.
  The KV path is again a canonical one but for the two stems a KV path cannot carry.
\<close>
theorem file_names_exact:
  shows "(kvPathForFile p = Inr q \<longleftrightarrow> (\<exists>dir stem. names_secret p dir stem \<and> q = joinPath dir stem))
    \<and> (kvPathForFile p = Inr q \<and> kvPathForFile p' = Inr q \<longrightarrow> trim_ch (CHR ''/'') p = trim_ch (CHR ''/'') p')
    \<and> (canonical dir \<and> plain_name n \<longrightarrow> kvPathForFile (joinPath dir (fileDisplayName n)) = Inr (joinPath dir n))
    \<and> (names_secret p dir' stem \<longrightarrow> (canonical (joinPath dir' stem) \<longleftrightarrow> stem \<notin> {''.'', ''..''}))"
proof (intro conjI impI)
  show "kvPathForFile p = Inr q \<longleftrightarrow> (\<exists>dir stem. names_secret p dir stem \<and> q = joinPath dir stem)"
    by (rule kvPathForFile_iff)
next
  assume "kvPathForFile p = Inr q \<and> kvPathForFile p' = Inr q"
  then show "trim_ch (CHR ''/'') p = trim_ch (CHR ''/'') p'"
    unfolding kvPathForFile_iff by (metis names_secret_inj)
next
  assume a: "canonical dir \<and> plain_name n"
  let ?p = "joinPath dir (fileDisplayName n)"
  have n: "n \<noteq> []" "CHR ''/'' \<notin> set n" "CHR 0x00 \<notin> set n" using a by (auto simp: plain_name_def)
  have s: "CHR ''/'' \<notin> set (fileDisplayName n)" using n by (simp add: display_no_slash)
  have "canonical ?p" unfolding canonical_joinPath [OF s] using a n plain_display [of n] by (auto simp: canonical_dir)
  then have "names_secret ?p dir n" using a n by (simp add: names_secret_def)
  then show "kvPathForFile ?p = Inr (joinPath dir n)" unfolding kvPathForFile_iff by blast
next
  assume "names_secret p dir' stem"
  then show "canonical (joinPath dir' stem) \<longleftrightarrow> stem \<notin> {''.'', ''..''}" by (rule canonical_secret_path)
qed

theorem file_names_exact_witness:
  "kvPathForFile ''/a/gh.json'' = Inr ''a/gh'' \<and> kvPathForFile ''a/gh.json/'' = Inr ''a/gh''
   \<and> trim_ch (CHR ''/'') ''/a/gh.json'' = trim_ch (CHR ''/'') ''a/gh.json/''
   \<and> kvPathForFile (joinPath ''a'' (fileDisplayName ''gh.json'')) = Inr (joinPath ''a'' ''gh.json'')"
proof -
  have "kvPathForFile ''/a/gh.json'' = Inr ''a/gh''" "kvPathForFile ''a/gh.json/'' = Inr ''a/gh''"
    "canonical ''a'' \<and> plain_name ''gh.json''"
    by code_simp+
  with file_names_exact [of "''/a/gh.json''" "''a/gh''" "''a/gh.json/''" "''a''" "''gh.json''"] show ?thesis by blast
qed

text \<open>
  A fresh listing shows, sorted and each once, exactly the folders and secrets Vault names
  that a path can carry, the folder where both claim a name, and the certificate files at
  the root; so it depends on what Vault lists and not on the order or repetition of it.
\<close>
theorem listing_exact:
  assumes "cleanPath p = Inr dir" "lookupDir now dir t = None" "store_List (store t) dir v = Some raw"
  shows "\<exists>es. Readdir now later p v t = (Inr es, storeDir later dir es t)
    \<and> sorted_wrt (\<lambda>x y. EName x < EName y) es
    \<and> (\<forall>n k. \<lparr>EName = n, EKind = k\<rparr> \<in> set es \<longleftrightarrow> shown_kind (clientCert t) dir raw n = Some k)
    \<and> (\<forall>raw'. set raw' = set raw \<longrightarrow> list_dir (clientCert t) dir raw' = es)"
proof -
  let ?es = "list_dir (clientCert t) dir raw"
  obtain m where m: "?es = map (\<lambda>(name, kind). \<lparr>EName = name, EKind = kind\<rparr>) m"
    "keys_ok m" "map_of m = shown_kind (clientCert t) dir raw" by (rule list_dir_map)
  have "sorted_wrt (\<lambda>x y. EName x < EName y) ?es"
    using m(2) unfolding m(1) keys_ok_def sorted_wrt_map by (simp add: case_prod_unfold)
  moreover have "\<lparr>EName = n, EKind = k\<rparr> \<in> set ?es \<longleftrightarrow> shown_kind (clientCert t) dir raw n = Some k" for n k
    using keys_ok_map_of [OF m(2), of n k] unfolding m(1) m(3) [symmetric] by auto
  moreover have "list_dir (clientCert t) dir raw' = ?es" if "set raw' = set raw" for raw'
  proof -
    obtain m' where m': "list_dir (clientCert t) dir raw' = map (\<lambda>(name, kind). \<lparr>EName = name, EKind = kind\<rparr>) m'"
      "keys_ok m'" "map_of m' = shown_kind (clientCert t) dir raw'" by (rule list_dir_map)
    have "shown_kind (clientCert t) dir raw' = shown_kind (clientCert t) dir raw"
      using that by (simp add: fun_eq_iff shown_kind_def folder_names_def secret_names_def)
    then have "m' = m" using keys_ok_ext [OF m'(2) m(2)] m'(3) m(3) by simp
    then show ?thesis using m(1) m'(1) by simp
  qed
  moreover have "Readdir now later p v t = (Inr ?es, storeDir later dir ?es t)"
    using assms by (simp add: Readdir_def Let_def)
  ultimately show ?thesis by blast
qed

theorem listing_exact_witness:
  "\<exists>es. Readdir 0 1 [] [(''users/gary/a'', demo_secret), (''users/gary/a/b'', demo_secret)] (demo_tree :: ('f secret gomap, 'f) tree)
      = (Inr es, storeDir 1 [] es demo_tree)
    \<and> \<lparr>EName = ''a'', EKind = KindDir\<rparr> \<in> set es \<and> \<lparr>EName = ''a.json'', EKind = KindFile\<rparr> \<in> set es"
proof -
  let ?v = "[(''users/gary/a'', demo_secret), (''users/gary/a/b'', demo_secret)]" and ?t = "demo_tree :: ('f secret gomap, 'f) tree"
  have raw: "demo_children ''users/gary/'' ?v = [''a'', ''a/'']" by (simp add: demo_children_def map_filter_simps)
  have "store_List (store ?t) [] ?v = Some [''a'', ''a/'']"
    by (simp add: store_List_def demo_tree_def NewTree_def demo_client_def UserRoot_def raw has_suffix_def cut_suffix_def)
  from listing_exact [OF _ _ this, of "[]" 0 1] obtain es where
    "Readdir 0 1 [] ?v ?t = (Inr es, storeDir 1 [] es ?t)"
    "\<forall>n k. \<lparr>EName = n, EKind = k\<rparr> \<in> set es \<longleftrightarrow> shown_kind (clientCert ?t) [] [''a'', ''a/''] n = Some k"
    by (auto simp: cleanPath_def clean_canonical_id lookupDir_def demo_tree_def NewTree_def)
  moreover have "plain_name ''a''" by code_simp
  ultimately show ?thesis
    by (intro exI [of _ es])
      (auto simp: shown_kind_def merged_kind_def folder_names_def secret_names_def demo_tree_def NewTree_def
        fileDisplayName_def FileExtension_def)
qed



text \<open>
  C25. A write through the mount is seen by the next read: after a successful \<open>Put\<close> reading the
  file gives the rendering of exactly the fields written, after a successful \<open>Remove\<close> there
  is no file, whatever the cache held; and on a read-only mount neither does anything.
\<close>
theorem writes_visible_at_once:
  assumes "\<And>m q d v v'. WriteKVv2 (client (store t)) m q d v = (True, v') \<Longrightarrow>
      \<exists>s. ReadKVv2 (client (store t)) m q v' = Some (Some s) \<and> SData s = Some d"
    and "\<And>m q v v'. DeleteKVv2 (client (store t)) m q v = (True, v') \<Longrightarrow> ReadKVv2 (client (store t)) m q v' = Some None"
  shows "(Put J p b v t = (None, v', t') \<longrightarrow>
      (\<exists>data s. parseDocument J b = Inr data \<and> data \<noteq> [] \<and> SData s = Some data
         \<and> fst (Document J cert now later p v' t') = (case RenderDocument J s of Inl e \<Rightarrow> Inl e | Inr d \<Rightarrow> Inr (Some d))))
    \<and> (tree_Remove p v t = (None, v', t') \<longrightarrow> fst (Document J cert now later p v' t') = Inr None)
    \<and> (\<not> readWrite t \<longrightarrow> Put J p b v t = (Some ReadOnly, v, t) \<and> tree_Remove p v t = (Some ReadOnly, v, t))"
proof -
  have put: "\<exists>data s. parseDocument J b = Inr data \<and> data \<noteq> [] \<and> SData s = Some data
      \<and> fst (Document J cert now later p v' t') = (case RenderDocument J s of Inl e \<Rightarrow> Inl e | Inr d \<Rightarrow> Inr (Some d))"
    if p: "Put J p b v t = (None, v', t')"
  proof -
    obtain kvPath data where *: "kvPathForFile p = Inr kvPath" "parseDocument J b = Inr data"
      "store_Write (store t) kvPath data v = (True, v')" "t' = invalidate kvPath t" using p by (rule Put_None)
    obtain s where s: "store_Read (store t) kvPath v' = Some (Some s)" "SData s = Some data"
      using assms(1) *(3) unfolding store_Write_def store_Read_def by blast
    have "data \<noteq> []" using *(2) by (auto simp: parseDocument_def Let_def split: if_splits option.splits)
    then show ?thesis using * s by (intro exI [of _ data] exI [of _ s]) (simp add: Document_after_invalidate [OF *(1)])
  qed
  have rm: "fst (Document J cert now later p v' t') = Inr None" if r: "tree_Remove p v t = (None, v', t')"
  proof -
    obtain kvPath where *: "kvPathForFile p = Inr kvPath" "store_Delete (store t) kvPath v = (True, v')"
      "t' = invalidate kvPath t" using r by (rule tree_Remove_None)
    have "store_Read (store t) kvPath v' = Some None"
      using assms(2) *(2) unfolding store_Delete_def store_Read_def by blast
    then show ?thesis using * by (simp add: Document_after_invalidate [OF *(1)])
  qed
  show ?thesis using put rm by (auto simp: Put_def tree_Remove_def)
qed


theorem writes_visible_at_once_witness:
  "\<exists>v'. tree_Remove ''gh.json'' [(''users/gary/gh'', demo_secret)] (demo_tree :: ('f secret gomap, 'f) tree) = (None, v', demo_tree\<lparr>docs := Map.empty, dirs := Map.empty\<rparr>)
    \<and> fst (Document demo_codec CertNothing 0 0 ''gh.json'' v' (demo_tree\<lparr>docs := Map.empty, dirs := Map.empty\<rparr> :: ('f secret gomap, 'f) tree)) = Inr None"
proof -
  let ?t = "demo_tree :: ('f secret gomap, 'f) tree"
  let ?v' = "mdel ''users/gary/gh'' [(''users/gary/gh'', demo_secret)]"
  have k: "kvPathForFile ''gh.json'' = Inr ''gh''" by code_simp
  have rm: "tree_Remove ''gh.json'' [(''users/gary/gh'', demo_secret)] ?t = (None, ?v', ?t\<lparr>docs := Map.empty, dirs := Map.empty\<rparr>)"
    by (simp add: tree_Remove_def k demo_tree_def NewTree_def servesClientCert_def store_Delete_def demo_client_def
        store_path_def UserRoot_def has_suffix_def cut_suffix_def invalidate_def fun_eq_iff)
  have "client (store ?t) = demo_client" by (simp add: demo_tree_def NewTree_def)
  note c = this
  let ?t' = "?t\<lparr>docs := Map.empty, dirs := Map.empty\<rparr>"
  have "tree_Remove ''gh.json'' [(''users/gary/gh'', demo_secret)] ?t = (None, ?v', ?t')
      \<longrightarrow> fst (Document demo_codec CertNothing 0 0 ''gh.json'' ?v' ?t') = Inr None"
    by (rule conjunct1 [OF conjunct2 [OF writes_visible_at_once]])
      (auto simp: c, simp_all add: demo_client_def)
  with rm show ?thesis by blast
qed

section \<open>What modelling showed\<close>

text \<open>
  The stem of a file name is not checked, only the name: \<open>...json\<close> is a plain name whose
  stem is \<open>..\<close>, so writing that file writes the KV path one level above the directory, at
  the root of the mount outside the user's subtree.
\<close>
lemma dotdot_file_leaves_subtree:
  assumes "readWrite t" "\<not> clientCert t" "parseDocument J b = Inr data"
  shows "fst (snd (Put J ''...json'' b v t)) = snd (WriteKVv2 (client (store t)) (mount (store t)) (prefix_path (store t) @ ''..'') data v)"
proof -
  have "kvPathForFile ''...json'' = Inr ''..''" by code_simp
  then show ?thesis
    using assms by (simp add: Put_def servesClientCert_def store_Write_def store_path_def split: prod.split bool.split)
qed

text \<open>
  Removing the last secret of a folder leaves the folder in the listing of its parent for
  the rest of the window, although nobody but the mount has changed anything.
\<close>
lemma own_removal_leaves_folder:
  fixes sec :: "'f secret"
  defines "v \<equiv> [(''users/gary/d/x'', sec)]"
  defines "t1 \<equiv> snd (Readdir 0 0 [] v (demo_tree :: ('f secret gomap, 'f) tree))"
  shows "case tree_Remove ''d/x.json'' v t1 of (e, v', t2) \<Rightarrow>
    e = None \<and> fst (Readdir 1 1 [] v' t2) = Inr [\<lparr>EName = ''d'', EKind = KindDir\<rparr>]
    \<and> fst (Readdir 1 1 [] v' (invalidateAll t2)) = Inr []"
proof -
  have raw: "demo_children ''users/gary/'' v = [''d/'']" by (simp add: v_def demo_children_def map_filter_simps)
  have "list_dir False [] [''d/''] = [\<lparr>EName = ''d'', EKind = KindDir\<rparr>]" "cleanPath [] = Inr []" by code_simp+
  note facts = this
  have t1: "t1 = (demo_tree :: ('f secret gomap, 'f) tree)\<lparr>dirs := [[] \<mapsto> ([\<lparr>EName = ''d'', EKind = KindDir\<rparr>], 10)]\<rparr>"
    by (simp add: t1_def Readdir_def Let_def facts lookupDir_def demo_tree_def NewTree_def store_List_def demo_client_def
        UserRoot_def has_suffix_def cut_suffix_def raw storeDir_def)
  have k: "kvPathForFile ''d/x.json'' = Inr ''d/x''" "parentPath ''d/x'' = ''d''" by code_simp+
  have "list_dir False [] [] = []" by code_simp
  then show ?thesis
    by (simp add: tree_Remove_def t1 k servesClientCert_def demo_tree_def NewTree_def store_Delete_def demo_client_def
        store_path_def UserRoot_def has_suffix_def cut_suffix_def invalidate_def v_def Readdir_def Let_def facts lookupDir_def
        invalidateAll_def store_List_def demo_children_def mdel_def map_filter_simps)
qed

text \<open>
  A reader that asked Vault before a write and stores its answer after the write has
  invalidated the entry puts the old content back, for a whole window.
\<close>
lemma racing_reader_keeps_old_content:
  assumes "0 < ttl t" "kvPathForFile p = Inr kvPath" "Put J p b v t = (None, v', t')"
    and "current J (store t) kvPath v = Some old" "now \<le> later + ttl t"
  shows "fst (Document J cert now now p v' (storeDoc later kvPath old t')) = Inr old"
  using assms(2)
proof (rule file_path)
  fix c
  assume c: "cleanPath p = Inr c" "c \<noteq> []" "kvPathForFile c = Inr kvPath" "\<not> IsClientCertPath c"
  have "t' = invalidate kvPath t" using assms(2,3) by (auto elim: Put_None)
  then have "lookupDoc now kvPath (storeDoc later kvPath old t') = Some old"
    using assms(1,5) by (simp add: lookupDoc_def storeDoc_def)
  with c show ?thesis by (simp add: Document_def servesClientCert_def)
qed

text \<open>
  The check for trailing content lets a closing bracket and whatever follows it pass.
\<close>
lemma trailing_bracket_accepted:
  "parseDocument demo_codec ''{a}} trailing'' = Inr [(''a'', GBool True)]"
proof -
  have "trim_space ''{a}} trailing'' = ''{a}} trailing''" by code_simp
  then show ?thesis by (simp add: parseDocument_def demo_codec_def has_prefix_def More_def json_space_def)
qed

end
