(* ===== verification/VaultFiles.thy ===== *)
theory VaultFiles
  imports VaultFS
begin

text \<open>
  The open files of the mount, \<open>internal/vaultfs/mount_fuse.go\<close>: every descriptor buffers a
  whole document, the buffers share one budget, and a document reaches Vault as a whole when
  its descriptor is flushed. Directories, attributes and the kernel's side are left out.
\<close>

definition maxDocumentSize :: int where
  "maxDocumentSize = 1048576"

definition maxBufferedBytes :: int where
  "maxBufferedBytes = 16 * maxDocumentSize"

datatype errno = EBADF | EINVAL | EFBIG | ENOMEM | EROFS | EISDIR | ENOENT | EIO | EACCES | ETIMEDOUT | EINTR | EAGAIN

text \<open>\<open>why\<close> is how the cause of an error of the store or the source is classified.\<close>

definition logErrno :: "errno \<Rightarrow> vfs_error \<Rightarrow> errno" where
  "logErrno why e =
     (case e of ReadOnly \<Rightarrow> EROFS | InvalidDocument \<Rightarrow> EINVAL | InvalidName \<Rightarrow> EINVAL | _ \<Rightarrow> why)"

section \<open>Descriptors and the budget\<close>

record handle =
  hpath :: string
  writable :: bool
  buf :: string
  dirty :: bool

text \<open>
  Descriptors are numbered in the order they are opened; a closed one is \<open>None\<close>. The options
  of the file system carry the same read-write flag as the tree (\<open>NewService\<close>).
\<close>

record ('v, 'f) filesystem =
  ftree :: "('v, 'f) tree"
  handles :: "handle option list"
  buffered :: int

definition reserveBuffer :: "int \<Rightarrow> int \<Rightarrow> ('v, 'f) filesystem \<Rightarrow> bool \<times> ('v, 'f) filesystem" where
  "reserveBuffer old sz f =
     (let delta = sz - old in
      if delta \<le> 0 then (True, f\<lparr>buffered := buffered f + delta\<rparr>)
      else if maxBufferedBytes < buffered f + delta then (False, f)
      else (True, f\<lparr>buffered := buffered f + delta\<rparr>))"

definition releaseBuffer :: "int \<Rightarrow> ('v, 'f) filesystem \<Rightarrow> ('v, 'f) filesystem" where
  "releaseBuffer sz f = f\<lparr>buffered := buffered f - sz\<rparr>"

definition addHandle :: "handle \<Rightarrow> ('v, 'f) filesystem \<Rightarrow> ('v, 'f) filesystem" where
  "addHandle h f = f\<lparr>handles := handles f @ [Some h]\<rparr>"

definition set_handle :: "nat \<Rightarrow> handle option \<Rightarrow> ('v, 'f) filesystem \<Rightarrow> ('v, 'f) filesystem" where
  "set_handle i h f = f\<lparr>handles := (handles f)[i := h]\<rparr>"

definition handle_at :: "('v, 'f) filesystem \<Rightarrow> nat \<Rightarrow> handle option" where
  "handle_at f i = (if i < length (handles f) then handles f ! i else None)"

section \<open>Opening\<close>

record open_flags =
  O_WRITE :: bool
  O_APPEND :: bool
  O_TRUNC :: bool

text \<open>The document a descriptor is a snapshot of, within the budget.\<close>

definition open_snapshot :: "string \<Rightarrow> bool \<Rightarrow> document \<Rightarrow> ('v, 'f) filesystem \<Rightarrow> (errno + nat) \<times> ('v, 'f) filesystem" where
  "open_snapshot p wr d f =
     (case reserveBuffer 0 (int (length (Bytes d))) f of
        (False, f') \<Rightarrow> (Inl ENOMEM, f')
      | (True, f') \<Rightarrow>
          (Inr (length (handles f')), addHandle \<lparr>hpath = p, writable = wr, buf = Bytes d, dirty = False\<rparr> f'))"

definition openClientCert :: "'f codec \<Rightarrow> cert_reply \<Rightarrow> errno \<Rightarrow> int \<Rightarrow> int \<Rightarrow> string \<Rightarrow> open_flags \<Rightarrow> 'v \<Rightarrow> ('v, 'f) filesystem
    \<Rightarrow> (errno + nat) \<times> ('v, 'f) filesystem" where
  "openClientCert J cert why now later p fl v f =
     (if O_WRITE fl \<or> O_TRUNC fl \<or> O_APPEND fl then (Inl EROFS, f)
      else case Document J cert now later p v (ftree f) of
        (Inl _, t) \<Rightarrow> (Inl why, f\<lparr>ftree := t\<rparr>)
      | (Inr None, t) \<Rightarrow> (Inl ENOENT, f\<lparr>ftree := t\<rparr>)
      | (Inr (Some d), t) \<Rightarrow> open_snapshot p False d (f\<lparr>ftree := t\<rparr>))"

definition Open :: "'f codec \<Rightarrow> cert_reply \<Rightarrow> errno \<Rightarrow> int \<Rightarrow> int \<Rightarrow> string \<Rightarrow> open_flags \<Rightarrow> 'v \<Rightarrow> ('v, 'f) filesystem
    \<Rightarrow> (errno + nat) \<times> ('v, 'f) filesystem" where
  "Open J cert why now later p fl v f =
     (if servesClientCert (ftree f) p then openClientCert J cert why now later p fl v f
      else if O_WRITE fl \<and> \<not> readWrite (ftree f) then (Inl EROFS, f)
      else if O_APPEND fl then (Inl EINVAL, f)
      else if O_TRUNC fl
      then (Inr (length (handles f)), addHandle \<lparr>hpath = p, writable = O_WRITE fl, buf = [], dirty = True\<rparr> f)
      else case Document J cert now later p v (ftree f) of
        (Inl e, t) \<Rightarrow> (Inl (logErrno why e), f\<lparr>ftree := t\<rparr>)
      | (Inr None, t) \<Rightarrow> (Inl ENOENT, f\<lparr>ftree := t\<rparr>)
      | (Inr (Some d), t) \<Rightarrow> open_snapshot p (O_WRITE fl) d (f\<lparr>ftree := t\<rparr>))"

definition Create :: "'f codec \<Rightarrow> cert_reply \<Rightarrow> errno \<Rightarrow> int \<Rightarrow> int \<Rightarrow> string \<Rightarrow> string \<Rightarrow> 'v \<Rightarrow> ('v, 'f) filesystem
    \<Rightarrow> (errno + nat) \<times> ('v, 'f) filesystem" where
  "Create J cert why now later dir name v f =
     (if \<not> readWrite (ftree f) then (Inl EROFS, f)
      else if dir = [] \<and> servesClientCert (ftree f) name then (Inl EROFS, f)
      else if validate_name name \<noteq> None then (Inl EINVAL, f)
      else if secretKVName name = None then (Inl EINVAL, f)
      else case Lookup J cert now later dir name v (ftree f) of
        (Inl e, t) \<Rightarrow> (Inl (logErrno why e), f\<lparr>ftree := t\<rparr>)
      | (Inr k, t) \<Rightarrow>
          if k = KindDir then (Inl EISDIR, f\<lparr>ftree := t\<rparr>)
          else (Inr (length (handles f)),
                addHandle \<lparr>hpath = joinPath dir name, writable = True, buf = [], dirty = True\<rparr> (f\<lparr>ftree := t\<rparr>)))"

section \<open>Reading and writing\<close>

text \<open>The bytes of \<open>buf\<close> with \<open>data\<close> copied over them from \<open>off\<close> on; \<open>copy\<close> stops at the end.\<close>

definition copy_at :: "nat \<Rightarrow> string \<Rightarrow> string \<Rightarrow> string" where
  "copy_at off data b = take off b @ take (length b - off) data @ drop (off + length data) b"

definition grow :: "nat \<Rightarrow> string \<Rightarrow> string" where
  "grow n b = b @ replicate (n - length b) (CHR 0x00)"

datatype ('a) io_result = Done 'a | Failed errno | Panicked

definition h_Read :: "nat \<Rightarrow> int \<Rightarrow> nat \<Rightarrow> ('v, 'f) filesystem \<Rightarrow> string io_result" where
  "h_Read i off n f =
     (case handle_at f i of
        None \<Rightarrow> Failed EBADF
      | Some h \<Rightarrow>
          if off < 0 then Failed EINVAL
          else if int (length (buf h)) \<le> off then Done []
          else Done (take n (drop (nat off) (buf h))))"

definition h_Write :: "nat \<Rightarrow> int \<Rightarrow> string \<Rightarrow> ('v, 'f) filesystem \<Rightarrow> nat io_result \<times> ('v, 'f) filesystem" where
  "h_Write i off data f =
     (case handle_at f i of
        None \<Rightarrow> (Failed EBADF, f)
      | Some h \<Rightarrow>
          if \<not> writable h then (Failed EBADF, f)
          else if off < 0 then (Failed EINVAL, f)
          else let ending = int64 (off + int (length data)); len = int (length (buf h)) in
            if maxDocumentSize < ending then (Failed EFBIG, f)
            else case (if len < ending then reserveBuffer len ending f else (True, f)) of
              (False, f') \<Rightarrow> (Failed ENOMEM, f')
            | (True, f') \<Rightarrow>
                let b = (if len < ending then grow (nat ending) (buf h) else buf h) in
                if int (length b) < off then (Panicked, set_handle i (Some (h\<lparr>buf := b\<rparr>)) f')
                else (Done (length data), set_handle i (Some (h\<lparr>buf := copy_at (nat off) data b, dirty := True\<rparr>)) f'))"

definition h_truncate :: "nat \<Rightarrow> int \<Rightarrow> ('v, 'f) filesystem \<Rightarrow> errno option \<times> ('v, 'f) filesystem" where
  "h_truncate i sz f =
     (case handle_at f i of
        None \<Rightarrow> (Some EBADF, f)
      | Some h \<Rightarrow>
          if sz < 0 \<or> maxDocumentSize < sz then (Some EINVAL, f)
          else let len = int (length (buf h)) in
            if sz < len
            then (None, set_handle i (Some (h\<lparr>buf := take (nat sz) (buf h), dirty := True\<rparr>)) (snd (reserveBuffer len sz f)))
            else if len < sz
            then (case reserveBuffer len sz f of
                    (False, f') \<Rightarrow> (Some ENOMEM, f')
                  | (True, f') \<Rightarrow> (None, set_handle i (Some (h\<lparr>buf := grow (nat sz) (buf h), dirty := True\<rparr>)) f'))
            else (None, set_handle i (Some (h\<lparr>dirty := True\<rparr>)) f))"

definition pendingSize :: "nat \<Rightarrow> ('v, 'f) filesystem \<Rightarrow> nat option" where
  "pendingSize i f = (case handle_at f i of Some h \<Rightarrow> if dirty h then Some (length (buf h)) else None | None \<Rightarrow> None)"

text \<open>
  \<open>Setattr\<close> with a sz: on the descriptor given, else on every writable one of the path.
\<close>

definition writableHandles :: "string \<Rightarrow> ('v, 'f) filesystem \<Rightarrow> nat list" where
  "writableHandles p f =
     filter (\<lambda>i. case handle_at f i of Some h \<Rightarrow> hpath h = p \<and> writable h | None \<Rightarrow> False) [0..<length (handles f)]"

fun truncate_all :: "nat list \<Rightarrow> int \<Rightarrow> ('v, 'f) filesystem \<Rightarrow> errno option \<times> ('v, 'f) filesystem" where
  "truncate_all [] sz f = (None, f)"
| "truncate_all (i # js) sz f =
     (case h_truncate i sz f of (Some e, f') \<Rightarrow> (Some e, f') | (None, f') \<Rightarrow> truncate_all js sz f')"

definition set_size :: "string \<Rightarrow> nat option \<Rightarrow> int \<Rightarrow> ('v, 'f) filesystem \<Rightarrow> errno option \<times> ('v, 'f) filesystem" where
  "set_size p given sz f =
     (if \<not> readWrite (ftree f) \<or> servesClientCert (ftree f) p then (Some EROFS, f)
      else case given of
        Some i \<Rightarrow>
          (case handle_at f i of
             Some h \<Rightarrow> if \<not> writable h then (Some EBADF, f) else truncate_all [i] sz f
           | None \<Rightarrow> (Some EBADF, f))
      | None \<Rightarrow> if writableHandles p f = [] then (Some EINVAL, f) else truncate_all (writableHandles p f) sz f)"

section \<open>Flushing and closing\<close>

definition Flush :: "'f codec \<Rightarrow> errno \<Rightarrow> nat \<Rightarrow> 'v \<Rightarrow> ('v, 'f) filesystem \<Rightarrow> errno option \<times> 'v \<times> ('v, 'f) filesystem" where
  "Flush J why i v f =
     (case handle_at f i of
        None \<Rightarrow> (Some EBADF, v, f)
      | Some h \<Rightarrow>
          if \<not> dirty h \<or> \<not> writable h then (None, v, f)
          else case Put J (hpath h) (buf h) v (ftree f) of
            (Some e, v', t) \<Rightarrow> (Some (logErrno why e), v', f\<lparr>ftree := t\<rparr>)
          | (None, v', t) \<Rightarrow> (None, v', set_handle i (Some (h\<lparr>dirty := False\<rparr>)) (f\<lparr>ftree := t\<rparr>)))"

definition Release :: "nat \<Rightarrow> ('v, 'f) filesystem \<Rightarrow> ('v, 'f) filesystem" where
  "Release i f =
     (case handle_at f i of
        None \<Rightarrow> f
      | Some h \<Rightarrow> set_handle i None (releaseBuffer (int (length (buf h))) f))"

section \<open>The descriptors in use\<close>

text \<open>A step is one request of the kernel; \<open>vault\<close> may change in between.\<close>

inductive file_step :: "'f codec \<Rightarrow> ('v, 'f) filesystem \<Rightarrow> ('v, 'f) filesystem \<Rightarrow> bool" for J where
  opened: "file_step J f (snd (Open J cert why now later p fl v f))"
| created: "file_step J f (snd (Create J cert why now later dir name v f))"
| written: "file_step J f (snd (h_Write i off data f))"
| resized: "file_step J f (snd (set_size p given sz f))"
| flushed: "file_step J f (snd (snd (Flush J why i v f)))"
| released: "file_step J f (Release i f)"

inductive file_run :: "'f codec \<Rightarrow> ('v, 'f) filesystem \<Rightarrow> bool" for J where
  start: "file_run J \<lparr>ftree = t, handles = [], buffered = 0\<rparr>"
| later: "file_run J f \<Longrightarrow> file_step J f f' \<Longrightarrow> file_run J f'"

definition held :: "('v, 'f) filesystem \<Rightarrow> int" where
  "held f = sum_list (map (\<lambda>h. case h of None \<Rightarrow> 0 | Some h \<Rightarrow> int (length (buf h))) (handles f))"


section \<open>Facts\<close>

definition weight :: "handle option \<Rightarrow> int" where
  "weight h = (case h of None \<Rightarrow> 0 | Some h \<Rightarrow> int (length (buf h)))"

lemma weight_simps [simp]: "weight None = 0" "weight (Some h) = int (length (buf h))"
  by (simp_all add: weight_def)

lemma held_weight: "held f = sum_list (map weight (handles f))"
  by (simp add: held_def weight_def cong: map_cong)

lemma sum_list_upd: "i < length xs \<Longrightarrow> sum_list (map w (xs[i := x])) = sum_list (map w xs) - w (xs ! i) + (w x :: int)"
  by (induction xs arbitrary: i) (auto split: nat.split)

lemma handle_at_Some: "handle_at f i = Some h \<longleftrightarrow> i < length (handles f) \<and> handles f ! i = Some h"
  by (simp add: handle_at_def)

lemma held_set: "handle_at f i = Some h \<Longrightarrow> held (set_handle i h' f) = held f - int (length (buf h)) + weight h'"
  by (simp add: held_weight set_handle_def handle_at_Some sum_list_upd)

lemma held_add [simp]: "held (addHandle h f) = held f + int (length (buf h))"
  by (simp add: held_weight addHandle_def)

lemma held_same [simp]: "held (f\<lparr>ftree := t\<rparr>) = held f" "held (f\<lparr>buffered := n\<rparr>) = held f"
  by (simp_all add: held_weight)

lemma kept_fields [simp]:
  "buffered (set_handle i h f) = buffered f" "buffered (addHandle h' f) = buffered f"
  "ftree (set_handle i h f) = ftree f" "ftree (addHandle h' f) = ftree f"
  "handle_at (f\<lparr>buffered := n\<rparr>) = handle_at f" "handle_at (f\<lparr>ftree := t\<rparr>) = handle_at f"
  by (simp_all add: set_handle_def addHandle_def fun_eq_iff handle_at_def)

lemma handle_at_set: "handle_at f i = Some h \<Longrightarrow> handle_at (set_handle i h' f) j = (if j = i then h' else handle_at f j)"
  by (auto simp: handle_at_def set_handle_def split: if_splits)

definition budget_ok :: "('v, 'f) filesystem \<Rightarrow> bool" where
  "budget_ok f \<longleftrightarrow> buffered f = held f \<and> held f \<le> maxBufferedBytes"

lemma budget_tree [simp]: "budget_ok (f\<lparr>ftree := t\<rparr>) = budget_ok f"
  by (simp add: budget_ok_def)

text \<open>Reserving: what the budget is afterwards and when it is refused.\<close>

lemma reserve_cases:
  obtains (ok) "reserveBuffer old sz f = (True, f\<lparr>buffered := buffered f + (sz - old)\<rparr>)"
      "sz \<le> old \<or> buffered f + (sz - old) \<le> maxBufferedBytes"
  | (full) "reserveBuffer old sz f = (False, f)" "maxBufferedBytes < buffered f + (sz - old)" "old < sz"
  by (cases "sz \<le> old"; cases "maxBufferedBytes < buffered f + (sz - old)") (auto simp: reserveBuffer_def Let_def)

lemma budget_resize:
  assumes "budget_ok f" "handle_at f i = Some h" "n = buffered f + (int (length (buf h')) - int (length (buf h)))"
    and "length (buf h') \<le> length (buf h) \<or> n \<le> maxBufferedBytes"
  shows "budget_ok (set_handle i (Some h') (f\<lparr>buffered := n\<rparr>))"
  using assms held_set [of "f\<lparr>buffered := n\<rparr>" i h "Some h'"] by (auto simp: budget_ok_def)

lemma length_grow [simp]: "length (grow n b) = max n (length b)"
  by (simp add: grow_def)

lemma length_copy_at [simp]: "length (copy_at off data b) = length b"
  by (simp add: copy_at_def)

lemma budget_same:
  "budget_ok f \<Longrightarrow> handle_at f i = Some h \<Longrightarrow> length (buf h') = length (buf h) \<Longrightarrow> budget_ok (set_handle i (Some h') f)"
  by (simp add: budget_ok_def held_set)

lemma budget_snapshot: "budget_ok f \<Longrightarrow> budget_ok (snd (open_snapshot p wr d f))"
  by (cases rule: reserve_cases [of 0 "int (length (Bytes d))" f]) (auto simp: open_snapshot_def budget_ok_def)

lemma budget_open: "budget_ok f \<Longrightarrow> budget_ok (snd (Open J cert why now later p fl v f))"
  by (auto simp: Open_def openClientCert_def budget_snapshot split: prod.split sum.split option.split)
    (simp_all add: budget_ok_def)

lemma budget_create: "budget_ok f \<Longrightarrow> budget_ok (snd (Create J cert why now later dir name v f))"
  by (auto simp: Create_def split: prod.split sum.split) (simp_all add: budget_ok_def)

lemma nth_grow: "j < max n (length b) \<Longrightarrow> grow n b ! j = (if j < length b then b ! j else CHR 0x00)"
  by (simp add: grow_def nth_append)

lemma nth_copy_at:
  assumes "j < length b"
  shows "copy_at off data b ! j = (if off \<le> j \<and> j < off + length data then data ! (j - off) else b ! j)"
proof (cases "off \<le> length b")
  case True
  then show ?thesis using assms by (auto simp: copy_at_def nth_append)
next
  case False
  then show ?thesis using assms by (simp add: copy_at_def)
qed

text \<open>The four outcomes of a write on an open, writable descriptor.\<close>

lemma h_Write_cases:
  fixes data :: string and off :: int
  assumes "handle_at f i = Some h" "writable h" "0 \<le> off"
  defines "e \<equiv> int64 (off + int (length data))"
  defines "b \<equiv> (if int (length (buf h)) < e then grow (nat e) (buf h) else buf h)"
  obtains (big) "maxDocumentSize < e" "h_Write i off data f = (Failed EFBIG, f)"
  | (full) "e \<le> maxDocumentSize" "int (length (buf h)) < e" "maxBufferedBytes < buffered f + (e - int (length (buf h)))"
      "h_Write i off data f = (Failed ENOMEM, f)"
  | (crash) "e \<le> maxDocumentSize" "int (length b) < off"
      "h_Write i off data f = (Panicked, set_handle i (Some (h\<lparr>buf := b\<rparr>))
         (f\<lparr>buffered := buffered f + (int (length b) - int (length (buf h)))\<rparr>))"
      "length b = length (buf h) \<or> buffered f + (int (length b) - int (length (buf h))) \<le> maxBufferedBytes"
  | (ok) "e \<le> maxDocumentSize" "off \<le> int (length b)"
      "h_Write i off data f = (Done (length data), set_handle i (Some (h\<lparr>buf := copy_at (nat off) data b, dirty := True\<rparr>))
         (f\<lparr>buffered := buffered f + (int (length b) - int (length (buf h)))\<rparr>))"
      "length b = length (buf h) \<or> buffered f + (int (length b) - int (length (buf h))) \<le> maxBufferedBytes"
proof (cases "maxDocumentSize < e")
  case True
  then show thesis using assms by (intro big) (simp_all add: h_Write_def Let_def)
next
  case False
  let ?n = "int (length (buf h))"
  let ?f = "f\<lparr>buffered := buffered f + (int (length b) - ?n)\<rparr>"
  let ?out = "if int (length b) < off then (Panicked, set_handle i (Some (h\<lparr>buf := b\<rparr>)) ?f)
      else (Done (length data), set_handle i (Some (h\<lparr>buf := copy_at (nat off) data b, dirty := True\<rparr>)) ?f)"
  have w: "h_Write i off data f =
      (case (if ?n < e then reserveBuffer ?n e f else (True, f)) of
         (False, f') \<Rightarrow> (Failed ENOMEM, f')
       | (True, f') \<Rightarrow> if int (length b) < off then (Panicked, set_handle i (Some (h\<lparr>buf := b\<rparr>)) f')
           else (Done (length data), set_handle i (Some (h\<lparr>buf := copy_at (nat off) data b, dirty := True\<rparr>)) f'))"
    using assms(1-3) False
    by (auto simp: h_Write_def Let_def e_def b_def split: prod.split bool.split)
  have room: thesis
    if "h_Write i off data f = ?out" "length b = length (buf h) \<or> buffered f + (int (length b) - ?n) \<le> maxBufferedBytes"
    using that False by (cases "int (length b) < off") (simp_all add: crash ok)
  show thesis
  proof (cases "?n < e")
    case True
    then have l: "int (length b) = e" by (simp add: b_def)
    show thesis
    proof (cases rule: reserve_cases [of ?n e f])
      case ok
      then show thesis using True l by (intro room) (simp_all add: w)
    next
      case full
      then show thesis using False True by (intro that(2)) (simp_all add: w)
    qed
  next
    case False
    then have b: "b = buf h" by (simp add: b_def)
    have "f\<lparr>buffered := buffered f\<rparr> = f" by simp
    then show thesis using False b by (intro room) (simp_all add: w)
  qed
qed

lemma budget_write:
  assumes "budget_ok f"
  shows "budget_ok (snd (h_Write i off data f))"
proof (cases "handle_at f i")
  case (Some h)
  show ?thesis
  proof (cases "writable h \<and> 0 \<le> off")
    case True
    then have w: "writable h" "0 \<le> off" by simp_all
    from Some w show ?thesis
    proof (cases rule: h_Write_cases [of f i h off data])
      case crash
      show ?thesis unfolding crash(3) snd_conv
        by (rule budget_resize [OF assms Some]) (use crash(4) in auto)
    next
      case ok
      show ?thesis unfolding ok(3) snd_conv
        by (rule budget_resize [OF assms Some]) (use ok(4) in auto)
    qed (simp_all add: assms)
  qed (use Some assms in \<open>auto simp: h_Write_def\<close>)
qed (use assms in \<open>simp add: h_Write_def\<close>)

lemma h_truncate_cases:
  assumes "handle_at f i = Some h"
  obtains (none) e where "h_truncate i sz f = (Some e, f)"
  | (resize) b where "h_truncate i sz f = (None, set_handle i (Some (h\<lparr>buf := b, dirty := True\<rparr>))
        (f\<lparr>buffered := buffered f + (int (length b) - int (length (buf h)))\<rparr>))"
      "0 \<le> sz" "sz \<le> maxDocumentSize" "b = (if nat sz \<le> length (buf h) then take (nat sz) (buf h) else grow (nat sz) (buf h))"
      "length b \<le> length (buf h) \<or> buffered f + (int (length b) - int (length (buf h))) \<le> maxBufferedBytes"
proof (cases "sz < 0 \<or> maxDocumentSize < sz")
  case True
  then show thesis using assms none by (simp add: h_truncate_def)
next
  case False
  let ?n = "int (length (buf h))"
  consider "sz < ?n" | "?n < sz" | "sz = ?n" by linarith
  then show thesis
  proof cases
    case 1
    then have "reserveBuffer ?n sz f = (True, f\<lparr>buffered := buffered f + (sz - ?n)\<rparr>)" by (simp add: reserveBuffer_def)
    then show thesis using 1 False assms by (intro resize [of "take (nat sz) (buf h)"]) (auto simp: h_truncate_def Let_def min_def)
  next
    case 2
    show thesis
    proof (cases rule: reserve_cases [of ?n sz f])
      case ok
      then show thesis using 2 False assms by (intro resize [of "grow (nat sz) (buf h)"]) (auto simp: h_truncate_def Let_def)
    next
      case full
      then show thesis using 2 False assms none [of ENOMEM] by (simp add: h_truncate_def Let_def)
    qed
  next
    case 3
    then show thesis using False assms by (intro resize [of "buf h"]) (auto simp: h_truncate_def Let_def)
  qed
qed

lemma budget_truncate:
  assumes "budget_ok f"
  shows "budget_ok (snd (h_truncate i sz f))"
proof (cases "handle_at f i")
  case (Some h)
  from Some show ?thesis
  proof (cases rule: h_truncate_cases [of f i h sz])
    case (resize b)
    show ?thesis unfolding resize(1) snd_conv
      by (rule budget_resize [OF assms Some]) (use resize(5) in auto)
  qed (simp add: assms)
qed (use assms in \<open>simp add: h_truncate_def\<close>)

lemma budget_truncate_all: "budget_ok f \<Longrightarrow> budget_ok (snd (truncate_all js sz f))"
  by (induction js sz f rule: truncate_all.induct)
    (simp_all split: prod.split option.split, metis budget_truncate snd_conv)

lemma budget_step: "file_step J f f' \<Longrightarrow> budget_ok f \<Longrightarrow> budget_ok f'"
proof (induction rule: file_step.induct)
  case (resized f p given sz)
  then show ?case by (auto simp: set_size_def budget_truncate_all simp del: truncate_all.simps split: option.split)
next
  case (flushed f why i v)
  then show ?case
    by (auto simp: Flush_def intro!: budget_same split: option.split prod.split)
next
  case (released f i)
  then show ?case
    by (auto simp: Release_def budget_ok_def releaseBuffer_def held_set split: option.split)
qed (simp_all add: budget_open budget_create budget_write)

lemma budget_run: "file_run J f \<Longrightarrow> budget_ok f"
proof (induction rule: file_run.induct)
  case (start t)
  show ?case by (simp add: budget_ok_def held_def maxBufferedBytes_def maxDocumentSize_def)
qed (rule budget_step)


text \<open>Chunks written one after the other.\<close>

lemma copy_at_end: "copy_at (length b) c (grow (length b + length c) b) = b @ c"
  by (simp add: copy_at_def grow_def)

lemma append_chunk:
  assumes "handle_at f i = Some h" "writable h" "int (length (buf h) + length c) \<le> maxDocumentSize"
    and "buffered f + int (length c) \<le> maxBufferedBytes"
  shows "h_Write i (int (length (buf h))) c f =
    (Done (length c), set_handle i (Some (h\<lparr>buf := buf h @ c, dirty := True\<rparr>)) (f\<lparr>buffered := buffered f + int (length c)\<rparr>))"
proof -
  have e: "int64 (int (length (buf h)) + int (length c)) = int (length (buf h) + length c)"
    using assms(3) by (simp add: int64_id maxDocumentSize_def)
  have n: "nat (int (length (buf h)) + int (length c)) = length (buf h) + length c" by simp
  show ?thesis
    using assms copy_at_end [of "buf h" c] int64_id [of "int (length (buf h))"]
    by (cases "c = []") (auto simp: h_Write_def Let_def e n reserveBuffer_def copy_at_def grow_def maxDocumentSize_def)
qed

fun write_chunks :: "nat \<Rightarrow> int \<Rightarrow> string list \<Rightarrow> ('v, 'f) filesystem \<Rightarrow> bool \<times> ('v, 'f) filesystem" where
  "write_chunks i off [] f = (True, f)"
| "write_chunks i off (c # cs) f =
     (case h_Write i off c f of (Done n, f') \<Rightarrow> write_chunks i (off + int n) cs f' | (_, f') \<Rightarrow> (False, f'))"

lemma handle_at_set_same: "handle_at f i = Some h \<Longrightarrow> handle_at (set_handle i h' f) i = h'"
  by (simp add: handle_at_set)

lemma write_chunks_append:
  "\<lbrakk>handle_at f i = Some h; writable h; int (length (buf h) + length (concat cs)) \<le> maxDocumentSize;
    buffered f + int (length (concat cs)) \<le> maxBufferedBytes\<rbrakk> \<Longrightarrow>
   \<exists>f'. write_chunks i (int (length (buf h))) cs f = (True, f') \<and> ftree f' = ftree f
     \<and> handle_at f' i = Some (h\<lparr>buf := buf h @ concat cs, dirty := dirty h \<or> cs \<noteq> []\<rparr>)"
proof (induction cs arbitrary: f h)
  case (Cons c cs)
  let ?h = "h\<lparr>buf := buf h @ c, dirty := True\<rparr>"
  let ?f = "set_handle i (Some ?h) (f\<lparr>buffered := buffered f + int (length c)\<rparr>)"
  have w: "h_Write i (int (length (buf h))) c f = (Done (length c), ?f)"
    by (rule append_chunk) (use Cons.prems in simp_all)
  have "handle_at ?f i = Some ?h" using Cons.prems(1) by (intro handle_at_set_same [of _ _ h]) simp
  then show ?case
    using Cons.IH [of ?f ?h] Cons.prems by (simp add: w add.assoc)
qed simp

section \<open>Properties\<close>

text \<open>
  C26. The budget of the mount is kept: whatever is opened, written, truncated, flushed and
  closed, in any order, the counter is exactly the number of bytes the open descriptors hold
  and never exceeds \<open>maxBufferedBytes\<close>; and a read-only descriptor never writes to Vault.
\<close>
theorem buffers_within_budget:
  assumes "file_run J f"
  shows "buffered f = held f \<and> held f \<le> maxBufferedBytes
    \<and> (\<forall>h. handle_at f i = Some h \<and> \<not> writable h \<longrightarrow> Flush J why i v f = (None, v, f))"
  using budget_run [OF assms] by (simp add: budget_ok_def Flush_def)

theorem buffers_within_budget_witness:
  "let f = snd (h_Write 0 2 ''xy'' (snd (Open demo_codec CertNothing EIO 0 0 ''gh.json''
        \<lparr>O_WRITE = True, O_APPEND = False, O_TRUNC = True\<rparr> [] \<lparr>ftree = demo_tree, handles = [], buffered = 0\<rparr>)))
   in buffered f = 4 \<and> buffered f = held (f :: ('f secret gomap, 'f) filesystem)"
proof -
  let ?f0 = "\<lparr>ftree = demo_tree, handles = [], buffered = 0\<rparr> :: ('f secret gomap, 'f) filesystem"
  let ?f1 = "snd (Open demo_codec CertNothing EIO 0 0 ''gh.json'' \<lparr>O_WRITE = True, O_APPEND = False, O_TRUNC = True\<rparr> [] ?f0)"
  let ?f2 = "snd (h_Write 0 2 ''xy'' ?f1)"
  have "file_run demo_codec ?f2"
    by (intro file_run.later [OF file_run.later [OF file_run.start file_step.opened] file_step.written])
  from buffers_within_budget [OF this] have "buffered ?f2 = held ?f2" by blast
  moreover have "?f1 = addHandle \<lparr>hpath = ''gh.json'', writable = True, buf = [], dirty = True\<rparr> ?f0"
    by (simp add: Open_def servesClientCert_def demo_tree_def NewTree_def)
  then have "buffered ?f2 = 4"
    by (simp add: h_Write_def addHandle_def handle_at_def int64_id maxDocumentSize_def reserveBuffer_def
        maxBufferedBytes_def grow_def set_handle_def Let_def)
  ultimately show ?thesis by (simp add: Let_def)
qed

text \<open>
  A write puts its bytes where it says: it succeeds exactly when the end fits a document and
  the budget, and then the buffer is as long as the old one or the end of the write, its
  bytes are those written, elsewhere the old ones, and zero in between. The only offsets at
  which the copy runs past the buffer are those whose end overflows 64 bits.
\<close>
theorem write_exact:
  assumes "handle_at f i = Some h" "writable h" "0 \<le> off" "off < 2 ^ 63" "int (length data) < 2 ^ 62"
    and "int (length (buf h)) \<le> maxBufferedBytes"
  shows "case h_Write i off data f of
      (Done n, f') \<Rightarrow> n = length data \<and> off + int n \<le> maxDocumentSize
        \<and> (\<exists>b. handle_at f' i = Some (h\<lparr>buf := b, dirty := True\<rparr>)
            \<and> length b = max (length (buf h)) (nat off + length data)
            \<and> (\<forall>j < length b. b ! j = (if nat off \<le> j \<and> j < nat off + length data then data ! (j - nat off)
                 else if j < length (buf h) then buf h ! j else CHR 0x00)))
    | (Failed e, f') \<Rightarrow> f' = f \<and>
        (e = EFBIG \<and> maxDocumentSize < off + int (length data)
         \<or> e = ENOMEM \<and> maxBufferedBytes < buffered f + (off + int (length data) - int (length (buf h))))
    | (Panicked, f') \<Rightarrow> 2 ^ 63 \<le> off + int (length data)"
proof (cases "off + int (length data) < 2 ^ 63")
  case True
  then have e: "int64 (off + int (length data)) = off + int (length data)" using assms(3) by (simp add: int64_id)
  from assms(1-3) show ?thesis
  proof (cases rule: h_Write_cases [of f i h off data])
    case big
    then show ?thesis by (simp add: e)
  next
    case full
    then show ?thesis by (simp add: e)
  next
    case crash
    then show ?thesis using assms(3) by (auto simp: e split: if_splits)
  next
    case ok
    let ?b = "if int (length (buf h)) < int64 (off + int (length data)) then grow (nat (int64 (off + int (length data)))) (buf h) else buf h"
    have n: "nat (off + int (length data)) = nat off + length data" using assms(3) by (simp add: nat_add_distrib)
    have l: "length ?b = max (length (buf h)) (nat off + length data)"
      using assms(3) by (auto simp: e n max_def)
    have "handle_at (snd (h_Write i off data f)) i = Some (h\<lparr>buf := copy_at (nat off) data ?b, dirty := True\<rparr>)"
      unfolding ok(3) snd_conv using assms(1) by (intro handle_at_set_same [of _ _ h]) simp
    moreover have "copy_at (nat off) data ?b ! j = (if nat off \<le> j \<and> j < nat off + length data then data ! (j - nat off)
                 else if j < length (buf h) then buf h ! j else CHR 0x00)" if "j < length ?b" for j
      using that nth_copy_at [OF that, of "nat off" data] nth_grow [of j "nat off + length data" "buf h"]
      by (auto simp: e n split: if_splits)
    moreover have "off + int (length data) \<le> maxDocumentSize" using ok(1) by (simp add: e)
    ultimately show ?thesis unfolding ok(3) using l by auto
  qed
next
  case False
  then have e: "int64 (off + int (length data)) = off + int (length data) - 2 ^ 64"
    using assms(4,5) by (intro int64_wrap) simp_all
  then have neg: "int64 (off + int (length data)) < 0" using assms(4,5) by simp
  from assms(1-3) show ?thesis
  proof (cases rule: h_Write_cases [of f i h off data])
    case ok
    then have "off \<le> int (length (buf h))" using neg by simp
    then show ?thesis using False assms(5,6) by (simp add: maxBufferedBytes_def maxDocumentSize_def)
  qed (use False neg in \<open>auto simp: maxDocumentSize_def\<close>)
qed


theorem write_exact_witness:
  "h_Write 0 9223372036854775807 ''a'' \<lparr>ftree = (demo_tree :: ('f secret gomap, 'f) tree),
      handles = [Some \<lparr>hpath = ''gh.json'', writable = True, buf = ''{}'', dirty = False\<rparr>], buffered = 2\<rparr>
    = (Panicked, \<lparr>ftree = demo_tree,
      handles = [Some \<lparr>hpath = ''gh.json'', writable = True, buf = ''{}'', dirty = False\<rparr>], buffered = 2\<rparr>)
   \<and> (case h_Write 0 2 ''a'' \<lparr>ftree = (demo_tree :: ('f secret gomap, 'f) tree),
      handles = [Some \<lparr>hpath = ''gh.json'', writable = True, buf = ''{}'', dirty = False\<rparr>], buffered = 2\<rparr>
      of (Done n, _) \<Rightarrow> n = 1 | _ \<Rightarrow> True)"
proof -
  let ?h = "\<lparr>hpath = ''gh.json'', writable = True, buf = ''{}'', dirty = False\<rparr>"
  let ?f = "\<lparr>ftree = demo_tree, handles = [Some ?h], buffered = 2\<rparr> :: ('f secret gomap, 'f) filesystem"
  have h: "handle_at ?f 0 = Some ?h" by (simp add: handle_at_def)
  have "h_Write 0 9223372036854775807 ''a'' ?f = (Panicked, ?f)"
    by (simp add: h_Write_def h int64_def maxDocumentSize_def set_handle_def Let_def)
  moreover have "case h_Write 0 2 ''a'' ?f of (Done n, _) \<Rightarrow> n = 1 | _ \<Rightarrow> True"
    using write_exact [OF h, of 2 "''a''"]
    by (auto simp: maxBufferedBytes_def maxDocumentSize_def split: prod.splits io_result.splits)
  ultimately show ?thesis by simp
qed



end
