(* ===== verification/TokenDenylist.thy ===== *)
theory TokenDenylist
  imports Prelude
begin

text \<open>
  \<open>internal/auth/denylist.go\<close>: tokens Vault has rejected are not asked about again for a
  while. Tokens are stored by their digest, a parameter \<open>K\<close>; a time is in nanoseconds.
\<close>

type_synonym denylist = "int gomap"

definition DenyProbeInterval :: int where
  "DenyProbeInterval = 15 * 60 * 1000000000"

definition maxDeniedTokens :: nat where
  "maxDeniedTokens = 16"

definition NewTokenDenylist :: denylist where
  "NewTokenDenylist = []"

text \<open>Whether a token is suppressed at \<open>now\<close>; an entry that has expired is dropped.\<close>

definition Denied :: "(string \<Rightarrow> string) \<Rightarrow> int \<Rightarrow> string \<Rightarrow> denylist \<Rightarrow> bool \<times> denylist" where
  "Denied K now tok d =
     (if tok = [] then (False, d)
      else case map_of d (K tok) of
             None \<Rightarrow> (False, d)
           | Some until \<Rightarrow> if now < until then (True, d) else (False, mdel (K tok) d))"

fun oldest_key :: "denylist \<Rightarrow> (string \<times> int) option" where
  "oldest_key [] = None"
| "oldest_key ((k, until) # d) =
     (case oldest_key d of None \<Rightarrow> Some (k, until) | Some (k', u') \<Rightarrow> if u' < until then Some (k', u') else Some (k, until))"

definition evictOldest :: "denylist \<Rightarrow> denylist" where
  "evictOldest d = (case oldest_key d of None \<Rightarrow> d | Some (k, _) \<Rightarrow> mdel k d)"

definition Deny :: "(string \<Rightarrow> string) \<Rightarrow> int \<Rightarrow> string \<Rightarrow> denylist \<Rightarrow> bool \<times> denylist" where
  "Deny K now tok d =
     (if tok = [] then (False, d)
      else case map_of d (K tok) of
             Some until \<Rightarrow> (\<not> now < until, mput (K tok) (now + DenyProbeInterval) d)
           | None \<Rightarrow>
               (True, mput (K tok) (now + DenyProbeInterval) (if maxDeniedTokens \<le> length d then evictOldest d else d)))"

definition Clear :: "denylist \<Rightarrow> denylist" where
  "Clear d = []"

section \<open>Facts\<close>

lemma oldest_key_None: "oldest_key d = None \<longleftrightarrow> d = []"
  by (induction d rule: oldest_key.induct) (auto split: option.splits if_splits)

lemma oldest_key_in: "oldest_key d = Some (k, u) \<Longrightarrow> (k, u) \<in> set d \<and> (\<forall>p \<in> set d. u \<le> snd p)"
  by (induction d arbitrary: k u rule: oldest_key.induct)
    (auto simp: oldest_key_None split: option.splits if_splits, fastforce+)

definition denylist_ok :: "denylist \<Rightarrow> bool" where
  "denylist_ok d \<longleftrightarrow> keys_ok d \<and> length d \<le> maxDeniedTokens"

lemma length_mdel: "length (mdel k d) \<le> length d"
  by (simp add: mdel_def)

lemma length_mdel_in: "k \<in> fst ` set d \<Longrightarrow> length (mdel k d) < length d"
  by (induction d) (auto simp: mdel_def le_imp_less_Suc)

lemma evict_length: "d \<noteq> [] \<Longrightarrow> length (evictOldest d) < length d"
  by (auto simp: evictOldest_def oldest_key_None split: option.splits dest!: oldest_key_in intro!: length_mdel_in intro: rev_image_eqI)

lemma evict_ok: "keys_ok d \<Longrightarrow> keys_ok (evictOldest d)"
  by (auto simp: evictOldest_def split: option.split)

lemma Denied_ok: "denylist_ok d \<Longrightarrow> denylist_ok (snd (Denied K now tok d))"
  using length_mdel [of "K tok" d] by (auto simp: denylist_ok_def Denied_def split: option.split)

lemma Deny_ok:
  assumes "denylist_ok d"
  shows "denylist_ok (snd (Deny K now tok d))"
proof -
  have ok: "keys_ok d" "length d \<le> maxDeniedTokens" using assms by (simp_all add: denylist_ok_def)
  have some: "map_of d (K tok) = Some u \<Longrightarrow> K tok \<in> fst ` set d" for u by (force dest: map_of_SomeD)
  show ?thesis
  proof (cases "maxDeniedTokens \<le> length d")
    case True
    then have "d \<noteq> []" by (auto simp: maxDeniedTokens_def)
    from evict_length [OF this] have "length (mput (K tok) v (evictOldest d)) \<le> maxDeniedTokens" for v
      using ok evict_ok [OF ok(1)] by (simp add: length_mput)
    then show ?thesis using ok True some evict_ok [OF ok(1)]
      by (auto simp: denylist_ok_def Deny_def length_mput split: option.split)
  next
    case False
    then show ?thesis using ok some by (auto simp: denylist_ok_def Deny_def length_mput split: option.split)
  qed
qed

text \<open>Looking at one token says nothing about the others; it is suppressed until its time.\<close>

lemma Denied_fst: "fst (Denied K now tok d) \<longleftrightarrow> tok \<noteq> [] \<and> (\<exists>u. map_of d (K tok) = Some u \<and> now < u)"
  by (auto simp: Denied_def split: option.split)

lemma Denied_map:
  "map_of (snd (Denied K now tok d)) k =
     (if tok \<noteq> [] \<and> k = K tok \<and> \<not> fst (Denied K now tok d) then None else map_of d k)"
  by (auto simp: Denied_def split: option.split)

lemma Deny_map_same: "tok \<noteq> [] \<Longrightarrow> map_of (snd (Deny K now tok d)) (K tok) = Some (now + DenyProbeInterval)"
  by (auto simp: Deny_def split: option.split)

lemma Deny_map_other:
  assumes "k \<noteq> K tok" "length d < maxDeniedTokens \<or> tok = [] \<or> map_of d (K tok) \<noteq> None"
  shows "map_of (snd (Deny K now tok d)) k = map_of d k"
  using assms by (auto simp: Deny_def split: option.split)

text \<open>What a full table gives up is the entry that expires first.\<close>

lemma Deny_evicts_oldest:
  assumes "keys_ok d" "k \<noteq> K tok" "map_of d k = Some u" "map_of (snd (Deny K now tok d)) k = None"
  shows "maxDeniedTokens \<le> length d \<and> (\<forall>k' u'. map_of d k' = Some u' \<longrightarrow> u \<le> u')"
proof -
  from assms(2-4) have full: "maxDeniedTokens \<le> length d" and gone: "map_of (evictOldest d) k = None"
    by (auto simp: Deny_def split: option.splits if_splits)
  from gone assms(3) obtain u0 where o: "oldest_key d = Some (k, u0)"
    by (auto simp: evictOldest_def split: option.splits if_splits)
  from oldest_key_in [OF o] assms(1,3) have "u0 = u" "\<forall>p \<in> set d. u \<le> snd p" by (auto simp: keys_ok_map_of)
  with full show ?thesis by (auto dest!: map_of_SomeD)
qed

end
