(* ===== verification/TokenLifecycle.thy ===== *)
theory TokenLifecycle
  imports TokenDenylist
begin

text \<open>
  \<open>internal/auth/lifecycle.go\<close>: the manager that checks and renews the token on the shared
  Vault client, replaces a token that failed, and asks for a new login only when it cannot.
  Vault, the token sources and the hooks are parameters; times are nanoseconds.
\<close>

section \<open>What the manager talks to\<close>

text \<open>
  An error of the client: a 403, or anything else. \<open>renewFailedError\<close> wraps the error of a
  renewal, and \<open>IsForbidden\<close> sees through it.
\<close>

datatype vault_error = Forbidden | Transient

datatype check_error =
    VaultErr vault_error
  | TokenExpired
  | NoToken
  | TokenDenied
  | RenewFailed vault_error

fun IsForbidden :: "check_error \<Rightarrow> bool" where
  "IsForbidden (VaultErr e) = (e = Forbidden)"
| "IsForbidden (RenewFailed e) = (e = Forbidden)"
| "IsForbidden _ = False"

fun IsRenewFailed :: "check_error \<Rightarrow> bool" where
  "IsRenewFailed (RenewFailed _) = True"
| "IsRenewFailed _ = False"

definition IsTokenRejected :: "check_error \<Rightarrow> bool" where
  "IsTokenRejected e \<longleftrightarrow> IsForbidden e \<or> e = TokenExpired"

text \<open>
  The fields of lookup-self: \<open>ttl\<close> is missing, a number of seconds, or something else;
  \<open>creation\<close> is 0 when it cannot be read.
\<close>

datatype ttl_field = TtlMissing | TtlSeconds int | TtlOther

record token_data =
  ttl_raw :: ttl_field
  creation :: int
  has_expire_time :: bool
  renewable :: bool

text \<open>
  What one pass finds: \<open>LookupSelf\<close> and \<open>RenewSelf\<close> of a token, the tokens in the file, the
  environment and from a peer (empty for none), whether the recovery hook succeeds and the
  token on the client after it, and the clock at the check, at the replacement and at the end.
\<close>

record pass =
  LookupSelf :: "string \<Rightarrow> vault_error + token_data"
  RenewSelf :: "string \<Rightarrow> vault_error option"
  FileToken :: string
  EnvToken :: string
  Borrowed :: string
  RecoverOK :: bool
  RecoverToken :: string
  t_check :: int
  t_replace :: int
  t_end :: int

record settings =
  digest :: "string \<Rightarrow> string"
  checkInterval :: int
  recoveryInterval :: int
  maxDelay :: int
  disableRenewal :: bool
  hasFile :: bool
  hasBorrower :: bool
  hasRecover :: bool
  onReauth :: "(string \<Rightarrow> string) option"

definition NewLifecycleManager :: "(string \<Rightarrow> string) \<Rightarrow> int \<Rightarrow> bool \<Rightarrow> settings" where
  "NewLifecycleManager K interval noRenew =
     \<lparr>digest = K, checkInterval = interval,
      recoveryInterval = (if interval < 10 * 1000000000 then interval else 10 * 1000000000),
      maxDelay = 5 * 60 * 1000000000, disableRenewal = noRenew,
      hasFile = False, hasBorrower = False, hasRecover = False, onReauth = None\<rparr>"

text \<open>
  \<open>token\<close> is the one on the client. \<open>asked\<close> and \<open>signals\<close> record the tokens looked up and the
  calls of the re-authentication callback: what the properties speak of, not the program.
\<close>

record lm =
  token :: string
  needsReauth :: bool
  tokenInFlux :: bool
  denied :: denylist
  recoverFailures :: nat
  nextRecoverAt :: "int option"
  currentDelay :: int
  baselineTTL :: int
  baselineToken :: string
  nextTickAt :: int
  rejectQueued :: bool
  lastReject :: int
  asked :: "(string \<times> int) list"
  signals :: nat

definition NeedsReauth :: "lm \<Rightarrow> bool" where
  "NeedsReauth s \<longleftrightarrow> needsReauth s \<or> tokenInFlux s"

section \<open>Checking and renewing\<close>

definition NoteRejection :: "settings \<Rightarrow> int \<Rightarrow> string \<Rightarrow> check_error \<Rightarrow> lm \<Rightarrow> lm" where
  "NoteRejection c now tok e s =
     (if IsTokenRejected e then s\<lparr>denied := snd (Deny (digest c) now tok (denied s))\<rparr> else s)"

text \<open>The baseline of the renewal threshold, pinned to the token it was measured on.\<close>

definition note_baseline :: "int \<Rightarrow> lm \<Rightarrow> lm" where
  "note_baseline ttl s =
     (let s1 = (if token s \<noteq> baselineToken s then s\<lparr>baselineTTL := 0, baselineToken := token s\<rparr> else s)
      in if baselineTTL s1 < ttl then s1\<lparr>baselineTTL := ttl\<rparr> else s1)"

definition seconds :: "int \<Rightarrow> int" where
  "seconds n = int64 (n * 1000000000)"

text \<open>What follows a lookup that succeeded: expiry, and renewal in the last quarter of the lease.\<close>

definition renew_if_due :: "settings \<Rightarrow> pass \<Rightarrow> token_data \<Rightarrow> lm \<Rightarrow> check_error option \<times> lm" where
  "renew_if_due c P data s =
     (case ttl_raw data of
        TtlMissing \<Rightarrow> (None, s)
      | TtlOther \<Rightarrow> (None, s)
      | TtlSeconds n \<Rightarrow>
          let ttl = seconds n in
          if ttl \<le> 0 then
            (if has_expire_time data
             then (Some TokenExpired, NoteRejection c (t_check P) (token s) TokenExpired s)
             else (None, s))
          else
            let s1 = note_baseline ttl s;
                baseline = (if seconds (creation data) \<le> 0 then baselineTTL s1 else seconds (creation data))
            in if ttl \<le> baseline div 4 \<and> renewable data \<and> \<not> disableRenewal c
               then (case RenewSelf P (token s) of Some e \<Rightarrow> (Some (RenewFailed e), s1) | None \<Rightarrow> (None, s1))
               else (None, s1))"

definition checkAndRenew :: "settings \<Rightarrow> pass \<Rightarrow> lm \<Rightarrow> check_error option \<times> lm" where
  "checkAndRenew c P s =
     (if token s = [] then (Some NoToken, s)
      else case Denied (digest c) (t_check P) (token s) (denied s) of
        (True, d) \<Rightarrow> (Some TokenDenied, s\<lparr>denied := d\<rparr>)
      | (False, d) \<Rightarrow>
          let s1 = s\<lparr>denied := d, asked := (token s, t_check P) # asked s\<rparr> in
          case LookupSelf P (token s) of
            Inl e \<Rightarrow> (Some (VaultErr e), NoteRejection c (t_check P) (token s) (VaultErr e) s1)
          | Inr data \<Rightarrow> renew_if_due c P data s1)"

section \<open>Replacing the token\<close>

text \<open>The candidates that are new, not denied, and each once; looking may drop expired entries.\<close>

definition addCandidate :: "settings \<Rightarrow> int \<Rightarrow> string \<Rightarrow> string \<Rightarrow> string list \<times> denylist \<Rightarrow> string list \<times> denylist" where
  "addCandidate c now current tok st =
     (case st of (cands, d) \<Rightarrow>
        if tok = [] \<or> tok = current then st
        else case Denied (digest c) now tok d of
          (True, d') \<Rightarrow> (cands, d')
        | (False, d') \<Rightarrow> (if tok \<in> set cands then (cands, d') else (cands @ [tok], d')))"

definition candidates :: "settings \<Rightarrow> pass \<Rightarrow> string \<Rightarrow> denylist \<Rightarrow> string list \<times> denylist" where
  "candidates c P current d =
     (let add = addCandidate c (t_replace P) current in
      (if hasBorrower c then add (Borrowed P) else id)
        (add (EnvToken P) ((if hasFile c then add (FileToken P) else id) ([], d))))"

fun try_candidates :: "settings \<Rightarrow> pass \<Rightarrow> string list \<Rightarrow> lm \<Rightarrow> bool \<times> lm" where
  "try_candidates c P [] s = (False, s)"
| "try_candidates c P (t # ts) s =
     (let s1 = s\<lparr>token := t, asked := (t, t_replace P) # asked s\<rparr> in
      case LookupSelf P t of
        Inr _ \<Rightarrow> (True, s1)
      | Inl e \<Rightarrow> try_candidates c P ts (NoteRejection c (t_replace P) t (VaultErr e) s1))"

definition tryReload :: "settings \<Rightarrow> pass \<Rightarrow> lm \<Rightarrow> bool \<times> lm" where
  "tryReload c P s =
     (if \<not> hasFile c \<and> \<not> hasBorrower c then (False, s)
      else case candidates c P (token s) (denied s) of
        (cands, d) \<Rightarrow>
          let s1 = s\<lparr>denied := d\<rparr> in
          if cands = [] then (False, s1)
          else case try_candidates c P cands s1 of
            (True, s2) \<Rightarrow> (True, s2)
          | (False, s2) \<Rightarrow> (False, s2\<lparr>token := token s\<rparr>))"

text \<open>The wait after the n-th failure: \<open>recoveryInterval\<close> shifted, where the shift may overflow.\<close>

definition recoverBackoff :: "settings \<Rightarrow> nat \<Rightarrow> int" where
  "recoverBackoff c failures =
     (if failures \<le> 1 then 0
      else let d = int64 (recoveryInterval c * 2 ^ min (failures - 1) 16)
           in if d \<le> 0 \<or> maxDelay c < d then maxDelay c else d)"

definition backOffRecovery :: "settings \<Rightarrow> int \<Rightarrow> lm \<Rightarrow> lm" where
  "backOffRecovery c now s =
     (let n = Suc (recoverFailures s); d = recoverBackoff c n
      in s\<lparr>recoverFailures := n, nextRecoverAt := (if 0 < d then Some (now + d) else None)\<rparr>)"

definition resetRecoveryBackoff :: "lm \<Rightarrow> lm" where
  "resetRecoveryBackoff s = s\<lparr>recoverFailures := 0, nextRecoverAt := None\<rparr>"

definition tryRecover :: "settings \<Rightarrow> pass \<Rightarrow> lm \<Rightarrow> bool \<times> lm" where
  "tryRecover c P s =
     (if \<not> hasRecover c then (False, s)
      else if (case nextRecoverAt s of Some t \<Rightarrow> t_replace P < t | None \<Rightarrow> False) then (False, s)
      else let s1 = s\<lparr>token := RecoverToken P\<rparr> in
        if \<not> RecoverOK P then (False, backOffRecovery c (t_replace P) s1)
        else if token s1 = [] then (False, backOffRecovery c (t_replace P) s1)
        else (True, resetRecoveryBackoff s1))"

definition withTokenInFlux :: "(lm \<Rightarrow> bool \<times> lm) \<Rightarrow> lm \<Rightarrow> bool \<times> lm" where
  "withTokenInFlux f s =
     (case f (s\<lparr>tokenInFlux := True\<rparr>) of (ok, s') \<Rightarrow> (ok, s'\<lparr>tokenInFlux := False\<rparr>))"

section \<open>One cycle\<close>

definition clearReauth :: "lm \<Rightarrow> lm" where
  "clearReauth s = resetRecoveryBackoff (s\<lparr>needsReauth := False\<rparr>)"

definition signalReauth :: "settings \<Rightarrow> lm \<Rightarrow> lm" where
  "signalReauth c s =
     (if needsReauth s then s
      else s\<lparr>needsReauth := True, signals := Suc (signals s),
             token := (case onReauth c of None \<Rightarrow> token s | Some f \<Rightarrow> f (token s))\<rparr>)"

definition drainReject :: "lm \<Rightarrow> lm" where
  "drainReject s = s\<lparr>rejectQueued := False\<rparr>"

definition backoffFrom :: "settings \<Rightarrow> int \<Rightarrow> bool \<Rightarrow> int" where
  "backoffFrom c current scheduled =
     (if \<not> scheduled then current else if maxDelay c < current * 2 then maxDelay c else current * 2)"

text \<open>The delay the timer is armed for; \<open>deadline\<close> is when the pre-empted tick was due.\<close>

definition armAfterCycle :: "int \<Rightarrow> bool \<Rightarrow> bool \<Rightarrow> int \<Rightarrow> lm \<Rightarrow> int" where
  "armAfterCycle now scheduled healthy deadline s =
     (if \<not> scheduled \<and> \<not> healthy \<and> deadline - now < currentDelay s then max 0 (deadline - now) else currentDelay s)"

text \<open>A cycle that ended with a working token.\<close>

definition back_to_normal :: "settings \<Rightarrow> lm \<Rightarrow> lm" where
  "back_to_normal c s = drainReject ((clearReauth s)\<lparr>currentDelay := checkInterval c\<rparr>)"

definition runCheckCycle :: "settings \<Rightarrow> pass \<Rightarrow> bool \<Rightarrow> int \<Rightarrow> lm \<Rightarrow> int \<times> lm" where
  "runCheckCycle c P scheduled deadline s =
     (case checkAndRenew c P s of
        (None, s1) \<Rightarrow>
          let s2 = back_to_normal c s1 in (armAfterCycle (t_end P) scheduled True deadline s2, s2)
      | (Some e, s1) \<Rightarrow>
          if IsForbidden e \<or> e = TokenExpired \<or> e = TokenDenied \<or> e = NoToken \<or> needsReauth s1 \<or> token s1 = [] then
            (case withTokenInFlux (\<lambda>s. case tryReload c P s of (True, s') \<Rightarrow> (True, s') | (False, s') \<Rightarrow> tryRecover c P s') s1 of
               (True, s2) \<Rightarrow> (checkInterval c, back_to_normal c s2)
             | (False, s2) \<Rightarrow>
                 let s3 = (signalReauth c s2)\<lparr>currentDelay := recoveryInterval c\<rparr>
                 in (armAfterCycle (t_end P) scheduled False deadline s3, s3))
          else if IsRenewFailed e then
            (case withTokenInFlux (tryReload c P) s1 of
               (True, s2) \<Rightarrow> (checkInterval c, back_to_normal c s2)
             | (False, s2) \<Rightarrow>
                 let s3 = s2\<lparr>currentDelay := backoffFrom c (currentDelay s2) scheduled\<rparr>
                 in (armAfterCycle (t_end P) scheduled False deadline s3, s3))
          else
            let s2 = s1\<lparr>currentDelay := backoffFrom c (currentDelay s1) scheduled\<rparr>
            in (armAfterCycle (t_end P) scheduled False deadline s2, s2))"

section \<open>The loop\<close>

text \<open>\<open>NotifyRejected\<close>: \<open>elapsed\<close> on the monotonic clock; the result says whether it queued.\<close>

definition NotifyRejected :: "settings \<Rightarrow> check_error \<Rightarrow> int \<Rightarrow> lm \<Rightarrow> bool \<times> lm" where
  "NotifyRejected c e elapsed0 s =
     (if \<not> IsTokenRejected e then (False, s)
      else let window = (if recoveryInterval c \<le> 0 then 10 * 1000000000 else recoveryInterval c);
               elapsed = (if elapsed0 = 0 then 1 else elapsed0) in
        if lastReject s \<noteq> 0 \<and> elapsed - lastReject s < window then (False, s)
        else if rejectQueued s then (False, s)
        else (True, s\<lparr>lastReject := elapsed, rejectQueued := True\<rparr>))"

definition on_reload :: "settings \<Rightarrow> pass \<Rightarrow> lm \<Rightarrow> lm" where
  "on_reload c P s =
     (case withTokenInFlux (tryReload c P) (s\<lparr>denied := Clear (denied s)\<rparr>) of
        (True, s1) \<Rightarrow> (clearReauth s1)\<lparr>currentDelay := checkInterval c, nextTickAt := t_end P + checkInterval c\<rparr>
      | (False, s1) \<Rightarrow> s1)"

definition on_timer :: "settings \<Rightarrow> pass \<Rightarrow> lm \<Rightarrow> lm" where
  "on_timer c P s = (case runCheckCycle c P True 0 s of (d, s1) \<Rightarrow> s1\<lparr>nextTickAt := t_end P + d\<rparr>)"

definition on_reject :: "settings \<Rightarrow> pass \<Rightarrow> lm \<Rightarrow> lm" where
  "on_reject c P s =
     (case runCheckCycle c P False (nextTickAt s) (s\<lparr>rejectQueued := False\<rparr>) of (d, s1) \<Rightarrow> s1\<lparr>nextTickAt := t_end P + d\<rparr>)"

text \<open>
  A step of the manager, or of another part that puts a token on the client. A reload before
  the loop's next turn is the same step later.
\<close>

inductive lm_step :: "settings \<Rightarrow> int \<times> lm \<Rightarrow> int \<times> lm \<Rightarrow> bool" for c where
  reloaded: "now \<le> t_check P \<Longrightarrow> t_check P \<le> t_replace P \<Longrightarrow> t_replace P \<le> t_end P
    \<Longrightarrow> lm_step c (now, s) (t_end P, on_reload c P s)"
| ticked: "now \<le> t_check P \<Longrightarrow> nextTickAt s \<le> t_check P \<Longrightarrow> t_check P \<le> t_replace P \<Longrightarrow> t_replace P \<le> t_end P
    \<Longrightarrow> lm_step c (now, s) (t_end P, on_timer c P s)"
| rejected: "rejectQueued s \<Longrightarrow> now \<le> t_check P \<Longrightarrow> t_check P \<le> t_replace P \<Longrightarrow> t_replace P \<le> t_end P
    \<Longrightarrow> lm_step c (now, s) (t_end P, on_reject c P s)"
| notified: "lm_step c (now, s) (now, snd (NotifyRejected c e elapsed s))"
| logged_in: "lm_step c (now, s) (now, s\<lparr>token := t\<rparr>)"

definition lm_start :: "settings \<Rightarrow> string \<Rightarrow> int \<Rightarrow> lm" where
  "lm_start c tok now =
     \<lparr>token = tok, needsReauth = False, tokenInFlux = False, denied = NewTokenDenylist, recoverFailures = 0,
      nextRecoverAt = None, currentDelay = checkInterval c, baselineTTL = 0, baselineToken = [],
      nextTickAt = now + checkInterval c, rejectQueued = False, lastReject = 0, asked = [], signals = 0\<rparr>"

inductive lm_run :: "settings \<Rightarrow> int \<times> lm \<Rightarrow> bool" for c where
  start: "lm_run c (now, lm_start c tok now)"
| later: "lm_run c st \<Longrightarrow> lm_step c st st' \<Longrightarrow> lm_run c st'"


section \<open>Facts about one cycle\<close>

text \<open>What checking and replacing leave alone: the signal, the schedule and the reports.\<close>

definition untouched :: "lm \<Rightarrow> lm \<Rightarrow> bool" where
  "untouched s s' \<longleftrightarrow> needsReauth s' = needsReauth s \<and> tokenInFlux s' = tokenInFlux s \<and> currentDelay s' = currentDelay s
     \<and> nextTickAt s' = nextTickAt s \<and> rejectQueued s' = rejectQueued s \<and> lastReject s' = lastReject s \<and> signals s' = signals s"

lemma untouched_refl [simp]: "untouched s s"
  by (simp add: untouched_def)

lemma untouched_trans: "untouched s s' \<Longrightarrow> untouched s' s'' \<Longrightarrow> untouched s s''"
  by (simp add: untouched_def)

lemma NoteRejection_untouched [simp]:
  "untouched s (NoteRejection c now tok e s')" if "untouched s s'"
  using that by (simp add: NoteRejection_def untouched_def)

lemma NoteRejection_fields [simp]:
  "token (NoteRejection c now tok e s) = token s" "asked (NoteRejection c now tok e s) = asked s"
  by (simp_all add: NoteRejection_def)

lemma NoteRejection_ok: "denylist_ok (denied s) \<Longrightarrow> denylist_ok (denied (NoteRejection c now tok e s))"
  by (simp add: NoteRejection_def Deny_ok)

lemma note_baseline_fields [simp]:
  "token (note_baseline n s) = token s" "asked (note_baseline n s) = asked s" "denied (note_baseline n s) = denied s"
  "untouched s' (note_baseline n s) = untouched s' s"
  by (simp_all add: note_baseline_def Let_def untouched_def)

lemma renew_frame:
  assumes "renew_if_due c P data s = (r, s1)"
  shows "token s1 = token s \<and> untouched s s1 \<and> asked s1 = asked s \<and> (denylist_ok (denied s) \<longrightarrow> denylist_ok (denied s1))
    \<and> (r = None \<or> r = Some TokenExpired \<or> (\<exists>e. r = Some (RenewFailed e) \<and> RenewSelf P (token s) = Some e))"
  using assms
  by (auto simp: renew_if_due_def Let_def NoteRejection_ok split: ttl_field.splits if_splits option.splits)

lemma check_frame:
  assumes "checkAndRenew c P s = (r, s1)"
  shows "token s1 = token s \<and> untouched s s1 \<and> (denylist_ok (denied s) \<longrightarrow> denylist_ok (denied s1))
    \<and> asked s1 = (if token s = [] \<or> fst (Denied (digest c) (t_check P) (token s) (denied s)) then []
                     else [(token s, t_check P)]) @ asked s"
proof -
  obtain b d where D: "Denied (digest c) (t_check P) (token s) (denied s) = (b, d)" by fastforce
  have d: "denylist_ok (denied s) \<Longrightarrow> denylist_ok d" using Denied_ok [of "denied s" "digest c" "t_check P" "token s"] by (simp add: D)
  let ?s1 = "s\<lparr>denied := d, asked := (token s, t_check P) # asked s\<rparr>"
  have u: "untouched s ?s1" "untouched s (s\<lparr>denied := d\<rparr>)" by (simp_all add: untouched_def)
  consider "token s = []" | "token s \<noteq> []" b
    | e where "token s \<noteq> []" "\<not> b" "LookupSelf P (token s) = Inl e"
    | data where "token s \<noteq> []" "\<not> b" "LookupSelf P (token s) = Inr data"
    by (cases "LookupSelf P (token s)") blast+
  then show ?thesis
  proof cases
    case 4
    then have "renew_if_due c P data ?s1 = (r, s1)" using assms by (simp add: checkAndRenew_def D)
    from renew_frame [OF this] show ?thesis using 4 d untouched_trans [OF u(1)] by (simp add: D)
  qed (use assms d u in \<open>auto simp: checkAndRenew_def D NoteRejection_ok\<close>)
qed

lemma NoteRejection_other:
  "k \<noteq> digest c tok \<Longrightarrow> length (denied s) < maxDeniedTokens
   \<Longrightarrow> map_of (denied (NoteRejection c now tok e s)) k = map_of (denied s) k"
  by (simp add: NoteRejection_def Deny_map_other)

lemma check_denied:
  assumes "checkAndRenew c P s = (r, s1)" "k \<noteq> digest c (token s)" "length (denied s) < maxDeniedTokens"
  shows "map_of (denied s1) k = map_of (denied s) k"
proof -
  obtain b d where D: "Denied (digest c) (t_check P) (token s) (denied s) = (b, d)" by fastforce
  have d: "map_of d k = map_of (denied s) k" "length d < maxDeniedTokens"
    using D assms(2,3) length_mdel [of "digest c (token s)" "denied s"]
    by (auto simp: Denied_def split: if_splits option.splits)
  have "map_of (denied s1) k = map_of (denied s2) k" if "renew_if_due c P data s2 = (r, s1)" "token s2 = token s" "denied s2 = d" for data s2
    using that assms(2) d(2)
    by (auto simp: renew_if_due_def Let_def NoteRejection_other split: ttl_field.splits if_splits option.splits)
  then show ?thesis
    using assms d
    by (auto simp: checkAndRenew_def D Let_def NoteRejection_other split: if_splits bool.splits sum.splits)
qed

text \<open>The candidates: new tokens from the sources that are not suppressed, each once.\<close>

definition suppressed :: "settings \<Rightarrow> denylist \<Rightarrow> int \<Rightarrow> string \<Rightarrow> bool" where
  "suppressed c d now tok \<longleftrightarrow> fst (Denied (digest c) now tok d)"

text \<open>Looking up drops expired entries only, so it changes no verdict from then on.\<close>

definition fades :: "int \<Rightarrow> denylist \<Rightarrow> denylist \<Rightarrow> bool" where
  "fades now d d' \<longleftrightarrow> (\<forall>k u. now < u \<longrightarrow> (map_of d' k = Some u \<longleftrightarrow> map_of d k = Some u))"

lemma fades_refl [simp]: "fades now d d"
  by (simp add: fades_def)

lemma fades_trans: "fades now d d' \<Longrightarrow> fades now d' d'' \<Longrightarrow> fades now d d''"
  by (simp add: fades_def)

lemma Denied_fades: "fades now d (snd (Denied K now tok d))"
  by (auto simp: fades_def Denied_def split: option.split)

lemma fades_suppressed: "fades now d d' \<Longrightarrow> suppressed c d' now tok = suppressed c d now tok"
  by (auto simp: fades_def suppressed_def Denied_fst)

definition good_candidates :: "settings \<Rightarrow> pass \<Rightarrow> string \<Rightarrow> denylist \<Rightarrow> string list \<Rightarrow> bool" where
  "good_candidates c P current d cands \<longleftrightarrow>
     distinct cands \<and> (\<forall>t \<in> set cands. t \<noteq> [] \<and> t \<noteq> current \<and> \<not> suppressed c d (t_replace P) t)"

lemma addCandidate_good:
  assumes "fades (t_replace P) d0 d" "good_candidates c P current d0 cands" "denylist_ok d"
  shows "case addCandidate c (t_replace P) current tok (cands, d) of (cands', d') \<Rightarrow>
    fades (t_replace P) d0 d' \<and> denylist_ok d' \<and> good_candidates c P current d0 cands'
    \<and> length cands' \<le> Suc (length cands) \<and> set cands' \<subseteq> insert tok (set cands)"
proof -
  obtain b d' where D: "Denied (digest c) (t_replace P) tok d = (b, d')" by fastforce
  have "fades (t_replace P) d d'" using Denied_fades [of "t_replace P" d "digest c" tok] by (simp add: D)
  then have f: "fades (t_replace P) d0 d'" using assms(1) fades_trans by blast
  have o: "denylist_ok d'" using Denied_ok [OF assms(3), of "digest c" "t_replace P" tok] by (simp add: D)
  have "b = suppressed c d0 (t_replace P) tok"
    using fades_suppressed [OF assms(1), of c tok] by (simp add: suppressed_def D)
  then show ?thesis
    using assms f o by (auto simp: addCandidate_def D good_candidates_def split: bool.split)
qed

lemma candidates_good:
  assumes "denylist_ok d"
  shows "case candidates c P current d of (cands, d') \<Rightarrow>
    fades (t_replace P) d d' \<and> denylist_ok d' \<and> good_candidates c P current d cands
    \<and> length cands \<le> 3 \<and> set cands \<subseteq> {FileToken P, EnvToken P, Borrowed P}"
proof -
  let ?add = "addCandidate c (t_replace P) current"
  define s1 where "s1 = (if hasFile c then ?add (FileToken P) else id) ([], d)"
  define s2 where "s2 = ?add (EnvToken P) s1"
  define s3 where "s3 = (if hasBorrower c then ?add (Borrowed P) else id) s2"
  have nil: "good_candidates c P current d []" by (simp add: good_candidates_def)
  have 1: "fades (t_replace P) d (snd s1) \<and> denylist_ok (snd s1) \<and> good_candidates c P current d (fst s1)
      \<and> length (fst s1) \<le> 1 \<and> set (fst s1) \<subseteq> {FileToken P}"
    using addCandidate_good [OF fades_refl nil assms, of "FileToken P"] nil assms
    by (auto simp: s1_def)
  have 2: "fades (t_replace P) d (snd s2) \<and> denylist_ok (snd s2) \<and> good_candidates c P current d (fst s2)
      \<and> length (fst s2) \<le> 2 \<and> set (fst s2) \<subseteq> {FileToken P, EnvToken P}"
    using addCandidate_good [where P = P and ?d0.0 = d and d = "snd s1" and c = c and current = current and cands = "fst s1" and tok = "EnvToken P"] 1
    by (auto simp: s2_def split: prod.splits)
  have 3: "fades (t_replace P) d (snd s3) \<and> denylist_ok (snd s3) \<and> good_candidates c P current d (fst s3)
      \<and> length (fst s3) \<le> 3 \<and> set (fst s3) \<subseteq> {FileToken P, EnvToken P, Borrowed P}"
    using addCandidate_good [where P = P and ?d0.0 = d and d = "snd s2" and c = c and current = current and cands = "fst s2" and tok = "Borrowed P"] 2
    by (auto simp: s3_def split: prod.splits)
  have "candidates c P current d = s3" by (simp add: candidates_def Let_def s1_def s2_def s3_def)
  with 3 show ?thesis by (simp add: case_prod_unfold)
qed

lemma try_candidates_frame:
  "try_candidates c P cands s = (ok, s') \<Longrightarrow>
     untouched s s' \<and> (denylist_ok (denied s) \<longrightarrow> denylist_ok (denied s'))
     \<and> (\<exists>tried. asked s' = rev (map (\<lambda>t. (t, t_replace P)) tried) @ asked s \<and> (\<exists>rest. cands = tried @ rest))
     \<and> (ok \<longrightarrow> token s' \<in> set cands \<and> is_ok (LookupSelf P (token s')))"
proof (induction cands arbitrary: s)
  case (Cons t ts)
  let ?s1 = "s\<lparr>token := t, asked := (t, t_replace P) # asked s\<rparr>"
  have u: "untouched s ?s1" by (simp add: untouched_def)
  show ?case
  proof (cases "LookupSelf P t")
    case (Inr data)
    then have s': "ok" "s' = ?s1" using Cons.prems by simp_all
    have "\<exists>tried. asked s' = rev (map (\<lambda>t. (t, t_replace P)) tried) @ asked s \<and> (\<exists>rest. t # ts = tried @ rest)"
      by (rule exI [of _ "[t]"]) (simp add: s'(2))
    moreover have "untouched s s'" "token s' = t" "denied s' = denied s" using u s'(2) by simp_all
    ultimately show ?thesis using Inr by simp
  next
    case (Inl e)
    let ?s2 = "NoteRejection c (t_replace P) t (VaultErr e) ?s1"
    have "try_candidates c P ts ?s2 = (ok, s')" using Cons.prems Inl by simp
    note IH = Cons.IH [OF this]
    then obtain tried rest where t: "asked s' = rev (map (\<lambda>t. (t, t_replace P)) tried) @ asked ?s2" "ts = tried @ rest"
      by blast
    have "untouched s s'" using IH untouched_trans [OF NoteRejection_untouched [OF u]] by blast
    moreover have "denylist_ok (denied s) \<longrightarrow> denylist_ok (denied s')" using IH NoteRejection_ok [of ?s1] by simp
    moreover have "\<exists>tried. asked s' = rev (map (\<lambda>t. (t, t_replace P)) tried) @ asked s \<and> (\<exists>rest. t # ts = tried @ rest)"
      by (rule exI [of _ "t # tried"]) (simp add: t)
    moreover have "ok \<longrightarrow> token s' \<in> set (t # ts) \<and> is_ok (LookupSelf P (token s'))" using IH by simp
    ultimately show ?thesis by blast
  qed
qed (auto intro!: exI [of _ "[]"])

lemma tryReload_frame:
  assumes "tryReload c P s = (ok, s')" "denylist_ok (denied s)"
  shows "untouched s s'" "denylist_ok (denied s')"
    and "\<exists>tried. asked s' = rev (map (\<lambda>t. (t, t_replace P)) tried) @ asked s
           \<and> good_candidates c P (token s) (denied s) tried \<and> length tried \<le> 3"
    and "ok \<Longrightarrow> token s' \<noteq> token s \<and> token s' \<noteq> [] \<and> is_ok (LookupSelf P (token s'))"
    and "\<not> ok \<Longrightarrow> token s' = token s"
proof -
  have nil: "good_candidates c P (token s) (denied s) []" by (simp add: good_candidates_def)
  have goal: "untouched s s' \<and> denylist_ok (denied s')
    \<and> (\<exists>tried. asked s' = rev (map (\<lambda>t. (t, t_replace P)) tried) @ asked s
           \<and> good_candidates c P (token s) (denied s) tried \<and> length tried \<le> 3)
    \<and> (ok \<longrightarrow> token s' \<noteq> token s \<and> token s' \<noteq> [] \<and> is_ok (LookupSelf P (token s')))
    \<and> (\<not> ok \<longrightarrow> token s' = token s)"
  proof (cases "\<not> hasFile c \<and> \<not> hasBorrower c")
    case True
    then show ?thesis using assms nil by (auto simp: tryReload_def intro!: exI [of _ "[]"])
  next
    case False
    obtain cands d where cd: "candidates c P (token s) (denied s) = (cands, d)" by fastforce
    have g: "fades (t_replace P) (denied s) d" "denylist_ok d" "good_candidates c P (token s) (denied s) cands" "length cands \<le> 3"
      using candidates_good [OF assms(2), where c = c and P = P and current = "token s"] by (simp_all add: cd)
    let ?s1 = "s\<lparr>denied := d\<rparr>"
    have u: "untouched s ?s1" by (simp add: untouched_def)
    show ?thesis
    proof (cases "cands = []")
      case True
      then have "ok = False" "s' = ?s1" using assms(1) False cd by (auto simp: tryReload_def Let_def)
      then show ?thesis using g u nil by (auto intro!: exI [of _ "[]"])
    next
      case ne: False
      obtain b s2 where t: "try_candidates c P cands ?s1 = (b, s2)" by fastforce
      have r: "ok = b" "s' = (if b then s2 else s2\<lparr>token := token s\<rparr>)"
        using assms(1) False ne cd t by (auto simp: tryReload_def Let_def split: bool.splits)
      note f = try_candidates_frame [OF t]
      obtain tried rest where tr: "asked s2 = rev (map (\<lambda>t. (t, t_replace P)) tried) @ asked s" "cands = tried @ rest"
        using f by auto
      have "good_candidates c P (token s) (denied s) tried" "length tried \<le> 3"
        using g(3,4) tr(2) by (auto simp: good_candidates_def)
      moreover have "untouched s s'" using untouched_trans [OF u, of s2] f r by (auto simp: untouched_def)
      moreover have "denylist_ok (denied s')" using f g(2) r by simp
      moreover have "ok \<longrightarrow> token s' \<noteq> token s \<and> token s' \<noteq> [] \<and> is_ok (LookupSelf P (token s'))"
        using f g(3) r unfolding good_candidates_def by auto
      ultimately show ?thesis using tr(1) r by auto
    qed
  qed
  then show "untouched s s'" "denylist_ok (denied s')"
    "\<exists>tried. asked s' = rev (map (\<lambda>t. (t, t_replace P)) tried) @ asked s
           \<and> good_candidates c P (token s) (denied s) tried \<and> length tried \<le> 3"
    "ok \<Longrightarrow> token s' \<noteq> token s \<and> token s' \<noteq> [] \<and> is_ok (LookupSelf P (token s'))"
    "\<not> ok \<Longrightarrow> token s' = token s" by blast+
qed

lemma tryRecover_frame:
  assumes "tryRecover c P s = (ok, s')"
  shows "untouched s s'" "denied s' = denied s" "asked s' = asked s" "ok \<Longrightarrow> token s' \<noteq> []"
  using assms
  by (auto simp: tryRecover_def untouched_def Let_def resetRecoveryBackoff_def backOffRecovery_def split: if_splits option.splits)


text \<open>Both replacements under one gate.\<close>

definition replacement :: "settings \<Rightarrow> pass \<Rightarrow> lm \<Rightarrow> bool \<times> lm" where
  "replacement c P s = (case tryReload c P s of (True, s') \<Rightarrow> (True, s') | (False, s') \<Rightarrow> tryRecover c P s')"

definition asks :: "settings \<Rightarrow> pass \<Rightarrow> lm \<Rightarrow> lm \<Rightarrow> bool" where
  "asks c P s s' \<longleftrightarrow> (\<exists>tried. asked s' = rev (map (\<lambda>t. (t, t_replace P)) tried) @ asked s
     \<and> good_candidates c P (token s) (denied s) tried \<and> length tried \<le> 3)"

lemma asks_refl [simp]: "asks c P s s"
  by (auto simp: asks_def good_candidates_def intro!: exI [of _ "[]"])

lemma replacement_frame:
  assumes "replacement c P s = (ok, s')" "denylist_ok (denied s)"
  shows "untouched s s' \<and> denylist_ok (denied s') \<and> asks c P s s'
    \<and> (ok \<longrightarrow> token s' \<noteq> [] \<and> (is_ok (LookupSelf P (token s')) \<or> RecoverOK P \<and> token s' = RecoverToken P))
    \<and> (\<not> hasRecover c \<longrightarrow> \<not> ok \<longrightarrow> token s' = token s)"
proof -
  obtain b s1 where r: "tryReload c P s = (b, s1)" by fastforce
  note f = tryReload_frame [OF r assms(2)]
  show ?thesis
  proof (cases b)
    case True
    then have "ok" "s' = s1" using assms(1) r by (simp_all add: replacement_def)
    then show ?thesis using f True by (simp add: asks_def)
  next
    case False
    then have t: "tryRecover c P s1 = (ok, s')" using assms(1) r by (simp add: replacement_def)
    note g = tryRecover_frame [OF t]
    have "ok \<longrightarrow> RecoverOK P \<and> token s' = RecoverToken P" "\<not> hasRecover c \<longrightarrow> s' = s1"
      using t by (auto simp: tryRecover_def Let_def resetRecoveryBackoff_def split: if_splits)
    then show ?thesis using f g False untouched_trans [OF f(1) g(1)] by (auto simp: asks_def)
  qed
qed

lemma tryReload_asks:
  "tryReload c P s = (ok, s') \<Longrightarrow> denylist_ok (denied s) \<Longrightarrow>
   untouched s s' \<and> denylist_ok (denied s') \<and> asks c P s s'
   \<and> (ok \<longrightarrow> token s' \<noteq> [] \<and> is_ok (LookupSelf P (token s'))) \<and> (\<not> ok \<longrightarrow> token s' = token s)"
  using tryReload_frame [of c P s ok s'] by (simp add: asks_def)

lemma gate_frame:
  assumes "withTokenInFlux f s = (ok, s')" "\<not> tokenInFlux s"
    and "\<And>s0 s1 b. f s0 = (b, s1) \<Longrightarrow> denylist_ok (denied s0) \<Longrightarrow> untouched s0 s1 \<and> denylist_ok (denied s1) \<and> asks c P s0 s1 \<and> Q b (token s0) (token s1)"
    and "denylist_ok (denied s)"
  shows "untouched s s' \<and> denylist_ok (denied s') \<and> asks c P s s' \<and> Q ok (token s) (token s')"
proof -
  obtain s1 where f: "f (s\<lparr>tokenInFlux := True\<rparr>) = (ok, s1)" "s' = s1\<lparr>tokenInFlux := False\<rparr>"
    using assms(1) by (auto simp: withTokenInFlux_def split: prod.splits)
  from assms(3) [OF f(1)] assms(2,4) f(2) show ?thesis by (auto simp: untouched_def asks_def)
qed

section \<open>Facts about the loop\<close>

lemma back_to_normal_fields [simp]:
  "token (back_to_normal c s) = token s" "needsReauth (back_to_normal c s) = False"
  "tokenInFlux (back_to_normal c s) = tokenInFlux s" "currentDelay (back_to_normal c s) = checkInterval c"
  "denied (back_to_normal c s) = denied s" "asked (back_to_normal c s) = asked s"
  "signals (back_to_normal c s) = signals s" "nextTickAt (back_to_normal c s) = nextTickAt s"
  "lastReject (back_to_normal c s) = lastReject s" "rejectQueued (back_to_normal c s) = False"
  by (simp_all add: back_to_normal_def drainReject_def clearReauth_def resetRecoveryBackoff_def)

text \<open>The four ways a cycle ends.\<close>

definition recoverable :: "check_error \<Rightarrow> lm \<Rightarrow> bool" where
  "recoverable e s \<longleftrightarrow> IsForbidden e \<or> e = TokenExpired \<or> e = TokenDenied \<or> e = NoToken \<or> needsReauth s \<or> token s = []"

lemma runCheckCycle_cases:
  assumes "runCheckCycle c P scheduled deadline s = (d, s')" "\<not> tokenInFlux s" "denylist_ok (denied s)"
  obtains (healthy) s1 where "checkAndRenew c P s = (None, s1)" "s' = back_to_normal c s1" "d = checkInterval c"
  | (replaced) e s1 s2 where "checkAndRenew c P s = (Some e, s1)" "s' = back_to_normal c s2" "d = checkInterval c"
      "untouched s s2" "denylist_ok (denied s2)" "asks c P s1 s2" "token s2 \<noteq> []"
      "is_ok (LookupSelf P (token s2)) \<or> recoverable e s1 \<and> RecoverOK P \<and> token s2 = RecoverToken P"
  | (stuck) e s1 s2 where "checkAndRenew c P s = (Some e, s1)" "recoverable e s1"
      "s' = (signalReauth c s2)\<lparr>currentDelay := recoveryInterval c\<rparr>" "d = armAfterCycle (t_end P) scheduled False deadline s'"
      "untouched s s2" "denylist_ok (denied s2)" "asks c P s1 s2"
  | (waiting) e s1 s2 where "checkAndRenew c P s = (Some e, s1)" "\<not> recoverable e s1"
      "s' = s2\<lparr>currentDelay := backoffFrom c (currentDelay s) scheduled\<rparr>" "d = armAfterCycle (t_end P) scheduled False deadline s'"
      "untouched s s2" "denylist_ok (denied s2)" "asks c P s1 s2" "token s2 = token s"
proof -
  obtain r s1 where k: "checkAndRenew c P s = (r, s1)" by fastforce
  note f = check_frame [OF k]
  have nf: "\<not> tokenInFlux s1" and ok: "denylist_ok (denied s1)" and u: "untouched s s1"
    using f assms(2,3) by (simp_all add: untouched_def)
  show thesis
  proof (cases r)
    case None
    then show thesis using assms(1) k by (intro healthy) (auto simp: runCheckCycle_def Let_def armAfterCycle_def)
  next
    case (Some e)
    show thesis
    proof (cases "recoverable e s1")
      case True
      obtain b s2 where w: "withTokenInFlux (replacement c P) s1 = (b, s2)" by fastforce
      note g = gate_frame [OF w nf, where c = c and P = P and Q = "\<lambda>b t t'. b \<longrightarrow> t' \<noteq> [] \<and> (is_ok (LookupSelf P t') \<or> RecoverOK P \<and> t' = RecoverToken P)"]
      have g: "untouched s1 s2 \<and> denylist_ok (denied s2) \<and> asks c P s1 s2
          \<and> (b \<longrightarrow> token s2 \<noteq> [] \<and> (is_ok (LookupSelf P (token s2)) \<or> RecoverOK P \<and> token s2 = RecoverToken P))"
        by (rule g) (use replacement_frame ok in blast)+
      have run: "runCheckCycle c P scheduled deadline s =
          (if b then (checkInterval c, back_to_normal c s2)
           else let s3 = (signalReauth c s2)\<lparr>currentDelay := recoveryInterval c\<rparr>
                in (armAfterCycle (t_end P) scheduled False deadline s3, s3))"
        using True w k Some unfolding runCheckCycle_def replacement_def recoverable_def
        by (auto simp: split: bool.split)
      note u2 = untouched_trans [OF u, of s2]
      show thesis
      proof (cases b)
        case True
        then show thesis using assms(1) run k Some g u2 \<open>recoverable e s1\<close> by (intro replaced [of e s1 s2]) auto
      next
        case False
        then show thesis using assms(1) run k Some g u2 True by (intro stuck [of e s1 s2]) (auto simp: Let_def)
      qed
    next
      case False
      show thesis
      proof (cases "IsRenewFailed e")
        case True
        obtain b s2 where w: "withTokenInFlux (tryReload c P) s1 = (b, s2)" by fastforce
        have g: "untouched s1 s2 \<and> denylist_ok (denied s2) \<and> asks c P s1 s2
            \<and> ((b \<longrightarrow> token s2 \<noteq> [] \<and> is_ok (LookupSelf P (token s2))) \<and> (\<not> b \<longrightarrow> token s2 = token s1))"
          by (rule gate_frame [OF w nf, where c = c and P = P and Q = "\<lambda>b t t'. (b \<longrightarrow> t' \<noteq> [] \<and> is_ok (LookupSelf P t')) \<and> (\<not> b \<longrightarrow> t' = t)"])
            (use tryReload_asks ok in blast)+
        have run: "runCheckCycle c P scheduled deadline s =
            (if b then (checkInterval c, back_to_normal c s2)
             else let s3 = s2\<lparr>currentDelay := backoffFrom c (currentDelay s2) scheduled\<rparr>
                  in (armAfterCycle (t_end P) scheduled False deadline s3, s3))"
          using False True w k Some unfolding runCheckCycle_def recoverable_def by (auto split: bool.split)
        have cd: "currentDelay s2 = currentDelay s" using g u by (simp add: untouched_def)
        note u2 = untouched_trans [OF u, of s2]
        show thesis
        proof (cases b)
          case True
          then show thesis using assms(1) run k Some g u2 by (intro replaced [of e s1 s2]) auto
        next
          case b: False
          then show thesis using assms(1) run k Some g u2 False f cd by (intro waiting [of e s1 s2]) (auto simp: Let_def)
        qed
      next
        case nr: False
        have cd: "currentDelay s1 = currentDelay s" using u by (simp add: untouched_def)
        have "runCheckCycle c P scheduled deadline s =
            (let s2 = s1\<lparr>currentDelay := backoffFrom c (currentDelay s1) scheduled\<rparr>
             in (armAfterCycle (t_end P) scheduled False deadline s2, s2))"
          using False nr k Some unfolding runCheckCycle_def recoverable_def by auto
        then show thesis using assms(1) k Some u ok f False cd by (intro waiting [of e s1 s1]) (auto simp: Let_def)
      qed
    qed
  qed
qed

definition settings_ok :: "settings \<Rightarrow> bool" where
  "settings_ok c \<longleftrightarrow> 0 \<le> recoveryInterval c \<and> recoveryInterval c \<le> checkInterval c \<and> 0 \<le> maxDelay c"

definition longest :: "settings \<Rightarrow> int" where
  "longest c = max (checkInterval c) (maxDelay c)"

definition lm_ok :: "settings \<Rightarrow> int \<Rightarrow> lm \<Rightarrow> bool" where
  "lm_ok c now s \<longleftrightarrow> \<not> tokenInFlux s \<and> denylist_ok (denied s) \<and> 0 \<le> currentDelay s \<and> currentDelay s \<le> longest c
     \<and> nextTickAt s \<le> now + longest c \<and> (needsReauth s \<longrightarrow> nextTickAt s \<le> now + recoveryInterval c)"

lemma arm_bounds:
  "0 \<le> currentDelay s \<Longrightarrow> 0 \<le> armAfterCycle now scheduled healthy deadline s
   \<and> armAfterCycle now scheduled healthy deadline s \<le> currentDelay s
   \<and> (\<not> scheduled \<and> \<not> healthy \<longrightarrow> armAfterCycle now scheduled healthy deadline s \<le> max 0 (deadline - now))"
  by (auto simp: armAfterCycle_def)

lemma backoff_bounds: "settings_ok c \<Longrightarrow> 0 \<le> d \<Longrightarrow> d \<le> longest c \<Longrightarrow> 0 \<le> backoffFrom c d b \<and> backoffFrom c d b \<le> longest c"
  by (auto simp: backoffFrom_def settings_ok_def longest_def)

lemma signalReauth_fields [simp]:
  "denied (signalReauth c s) = denied s" "tokenInFlux (signalReauth c s) = tokenInFlux s"
  "needsReauth (signalReauth c s) = True" "asked (signalReauth c s) = asked s" "nextTickAt (signalReauth c s) = nextTickAt s"
  "lastReject (signalReauth c s) = lastReject s" "rejectQueued (signalReauth c s) = rejectQueued s"
  "signals (signalReauth c s) = signals s + (if needsReauth s then 0 else 1)"
  by (simp_all add: signalReauth_def)

lemma cycle_ok:
  assumes "runCheckCycle c P scheduled deadline s = (d, s')" "lm_ok c now s" "settings_ok c" "now \<le> t_end P"
  shows "lm_ok c (t_end P) (s'\<lparr>nextTickAt := t_end P + d\<rparr>) \<and> 0 \<le> d"
proof -
  have nf: "\<not> tokenInFlux s" and ok: "denylist_ok (denied s)" using assms(2) by (simp_all add: lm_ok_def)
  have ci: "0 \<le> checkInterval c" "checkInterval c \<le> longest c" "recoveryInterval c \<le> longest c" "0 \<le> recoveryInterval c"
    using assms(3) by (auto simp: settings_ok_def longest_def)
  from assms(1) nf ok show ?thesis
  proof (cases rule: runCheckCycle_cases)
    case (healthy s1)
    then show ?thesis using check_frame [OF healthy(1)] nf ok ci by (simp add: lm_ok_def untouched_def)
  next
    case (replaced e s1 s2)
    then show ?thesis using nf ci by (simp add: lm_ok_def untouched_def)
  next
    case (stuck e s1 s2)
    then show ?thesis using nf ci arm_bounds [of s' "t_end P" scheduled False deadline] by (auto simp: lm_ok_def untouched_def)
  next
    case (waiting e s1 s2)
    have "\<not> needsReauth s1" using waiting(2) by (simp add: recoverable_def)
    then have nr: "\<not> needsReauth s2" using waiting(5) check_frame [OF waiting(1)] by (simp add: untouched_def)
    have "0 \<le> currentDelay s' \<and> currentDelay s' \<le> longest c"
      using backoff_bounds [OF assms(3), of "currentDelay s" scheduled] assms(2) waiting(3) by (simp add: lm_ok_def)
    then show ?thesis using waiting nf nr arm_bounds [of s' "t_end P" scheduled False deadline]
      by (auto simp: lm_ok_def untouched_def)
  qed
qed


lemma lm_ok_later: "lm_ok c now s \<Longrightarrow> now \<le> now' \<Longrightarrow> lm_ok c now' s"
  by (auto simp: lm_ok_def)

lemma lm_ok_step:
  assumes "lm_step c (now, s) (now', s')" "lm_ok c now s" "settings_ok c"
  shows "lm_ok c now' s' \<and> now \<le> now'"
  using assms(1)
proof cases
  case (reloaded P)
  have le: "now \<le> t_end P" using reloaded by simp
  obtain b s1 where w: "withTokenInFlux (tryReload c P) (s\<lparr>denied := Clear (denied s)\<rparr>) = (b, s1)" by fastforce
  have g: "untouched (s\<lparr>denied := Clear (denied s)\<rparr>) s1 \<and> denylist_ok (denied s1)
      \<and> asks c P (s\<lparr>denied := Clear (denied s)\<rparr>) s1 \<and> True"
    by (rule gate_frame [OF w, where Q = "\<lambda>_ _ _. True"])
      (use tryReload_asks assms(2) in \<open>auto simp: lm_ok_def denylist_ok_def Clear_def\<close>)
  have ci: "0 \<le> checkInterval c" "checkInterval c \<le> longest c" using assms(3) by (auto simp: settings_ok_def longest_def)
  show ?thesis using g lm_ok_later [OF assms(2) le] le ci reloaded(1,2)
    by (auto simp: on_reload_def w lm_ok_def untouched_def clearReauth_def resetRecoveryBackoff_def split: bool.split)
next
  case (ticked P)
  obtain d s1 where r: "runCheckCycle c P True 0 s = (d, s1)" by fastforce
  have le: "now \<le> t_end P" using ticked by simp
  show ?thesis using cycle_ok [OF r assms(2,3) le] le ticked(1,2) by (simp add: on_timer_def r)
next
  case (rejected P)
  obtain d s1 where r: "runCheckCycle c P False (nextTickAt s) (s\<lparr>rejectQueued := False\<rparr>) = (d, s1)" by fastforce
  have le: "now \<le> t_end P" using rejected by simp
  have "lm_ok c now (s\<lparr>rejectQueued := False\<rparr>)" using assms(2) by (simp add: lm_ok_def)
  from cycle_ok [OF r this assms(3) le] show ?thesis using le rejected(1,2) by (simp add: on_reject_def r)
next
  case (notified e elapsed)
  then show ?thesis using assms(2) by (simp add: NotifyRejected_def Let_def lm_ok_def)
next
  case (logged_in t)
  then show ?thesis using assms(2) by (simp add: lm_ok_def)
qed

lemma lm_run_ok: "lm_run c st \<Longrightarrow> settings_ok c \<Longrightarrow> lm_ok c (fst st) (snd st)"
proof (induction rule: lm_run.induct)
  case (start tok now)
  then show ?case by (auto simp: lm_ok_def lm_start_def denylist_ok_def NewTokenDenylist_def settings_ok_def longest_def)
next
  case (later st st')
  then show ?case using lm_ok_step [of c "fst st" "snd st" "fst st'" "snd st'"] by simp
qed

section \<open>Properties\<close>

text \<open>
  C28. The checks keep coming. However reloads, rejection reports, logins and cycles follow one
  another, the next check is never further off than the longer of the check interval and the
  maximal delay, and while a new login is awaited no further than the recovery interval; the
  gate is closed only during a replacement, and the denylist stays within its bound. A
  report never makes the next check later, unless it ended with a working token.
\<close>
theorem checks_keep_coming:
  assumes "lm_run c (now, s)" "settings_ok c"
  shows "\<not> tokenInFlux s \<and> length (denied s) \<le> maxDeniedTokens
    \<and> nextTickAt s \<le> now + max (checkInterval c) (maxDelay c)
    \<and> (needsReauth s \<longrightarrow> nextTickAt s \<le> now + recoveryInterval c)
    \<and> (needsReauth (on_reject c P s) \<longrightarrow> nextTickAt (on_reject c P s) \<le> max (nextTickAt s) (t_end P))"
proof -
  have ok: "lm_ok c now s" using lm_run_ok [OF assms] by simp
  let ?s = "s\<lparr>rejectQueued := False\<rparr>"
  obtain d s1 where r: "runCheckCycle c P False (nextTickAt s) ?s = (d, s1)" by fastforce
  have "nextTickAt (on_reject c P s) \<le> max (nextTickAt s) (t_end P)" if "needsReauth (on_reject c P s)"
  proof -
    have n: "needsReauth s1" using that by (simp add: on_reject_def r)
    have cd: "0 \<le> currentDelay s" "0 \<le> recoveryInterval c" using ok assms(2) by (simp_all add: lm_ok_def settings_ok_def)
    have nf: "\<not> tokenInFlux ?s" "denylist_ok (denied ?s)" using ok by (simp_all add: lm_ok_def)
    from r nf have "d \<le> max 0 (nextTickAt s - t_end P)"
    proof (cases rule: runCheckCycle_cases)
      case (stuck e s1' s2)
      then show ?thesis using arm_bounds [of s1 "t_end P" False False "nextTickAt s"] cd by simp
    next
      case (waiting e s1' s2)
      then have "currentDelay s1 = currentDelay s" by (simp add: backoffFrom_def)
      then show ?thesis using arm_bounds [of s1 "t_end P" False False "nextTickAt s"] cd waiting(4) by simp
    qed (use n in simp_all)
    then show ?thesis by (auto simp: on_reject_def r)
  qed
  with ok show ?thesis by (auto simp: lm_ok_def denylist_ok_def longest_def)
qed

definition quiet_pass :: "(string \<Rightarrow> vault_error + token_data) \<Rightarrow> pass" where
  "quiet_pass look =
     \<lparr>LookupSelf = look, RenewSelf = (\<lambda>_. None), FileToken = ''f'', EnvToken = [], Borrowed = [],
      RecoverOK = False, RecoverToken = [], t_check = 0, t_replace = 0, t_end = 0\<rparr>"

definition demo_settings :: settings where
  "demo_settings = (NewLifecycleManager id (300 * 1000000000) False)\<lparr>hasFile := True\<rparr>"

lemma demo_settings_ok: "settings_ok demo_settings"
  by (simp add: settings_ok_def demo_settings_def NewLifecycleManager_def)

theorem checks_keep_coming_witness:
  "let s = snd (NotifyRejected demo_settings (VaultErr Forbidden) 7 (lm_start demo_settings ''t'' 0))
   in rejectQueued s \<and> nextTickAt s \<le> 300 * 1000000000"
proof -
  let ?s = "snd (NotifyRejected demo_settings (VaultErr Forbidden) 7 (lm_start demo_settings ''t'' 0))"
  have "lm_run demo_settings (0, ?s)" by (rule lm_run.later [OF lm_run.start lm_step.notified])
  from checks_keep_coming [OF this demo_settings_ok, of undefined] have "nextTickAt ?s \<le> 300 * 1000000000"
    by (simp add: demo_settings_def NewLifecycleManager_def)
  moreover have "rejectQueued ?s"
    by (simp add: NotifyRejected_def lm_start_def IsTokenRejected_def Let_def)
  ultimately show ?thesis by (simp add: Let_def)
qed

text \<open>
  C29. A cycle asks Vault as little as it can: at most four lookups, each of another token, none
  of a token it has been told not to ask about; a dead token on the client whose sources
  offer nothing new costs no request at all.
\<close>
theorem cycle_asks_sparingly:
  assumes "runCheckCycle c P scheduled deadline s = (d, s')" "\<not> tokenInFlux s" "denylist_ok (denied s)"
    and "t_check P \<le> t_replace P" "inj (digest c)" "length (denied s) < maxDeniedTokens"
  shows "\<exists>new. asked s' = new @ asked s \<and> length new \<le> 4 \<and> distinct (map fst new)
    \<and> (\<forall>(t, at) \<in> set new. t \<noteq> [] \<and> at \<in> {t_check P, t_replace P}
        \<and> (\<forall>until. map_of (denied s) (digest c t) = Some until \<longrightarrow> until \<le> at))
    \<and> (token s = [] \<or> suppressed c (denied s) (t_check P) (token s) \<longrightarrow> token s \<notin> fst ` set new)"
proof -
  obtain r s1 where k: "checkAndRenew c P s = (r, s1)" by fastforce
  note f = check_frame [OF k]
  define first where "first = (if token s = [] \<or> suppressed c (denied s) (t_check P) (token s) then [] else [(token s, t_check P)])"
  have a1: "asked s1 = first @ asked s" using f by (simp add: first_def suppressed_def)
  have "\<exists>s2. asked s' = asked s2 \<and> asks c P s1 s2"
    using assms(1-3)
  proof (cases rule: runCheckCycle_cases)
    case (healthy s1')
    then show ?thesis using k by (intro exI [of _ s1]) simp
  next
    case (replaced e s1' s2)
    then show ?thesis using k by (intro exI [of _ s2]) simp
  next
    case (stuck e s1' s2)
    then show ?thesis using k by (intro exI [of _ s2]) simp
  next
    case (waiting e s1' s2)
    then show ?thesis using k by (intro exI [of _ s2]) simp
  qed
  then obtain tried where t: "asked s' = rev (map (\<lambda>t. (t, t_replace P)) tried) @ asked s1"
      "good_candidates c P (token s1) (denied s1) tried" "length tried \<le> 3"
    by (auto simp: asks_def)
  have tok: "token s1 = token s" using f by simp
  let ?new = "rev (map (\<lambda>t. (t, t_replace P)) tried) @ first"
  have other: "until \<le> t_replace P" if "u \<in> set tried" "map_of (denied s) (digest c u) = Some until" for u until
  proof -
    have u: "u \<noteq> token s" "u \<noteq> []" "\<not> suppressed c (denied s1) (t_replace P) u"
      using t(2) that(1) tok by (auto simp: good_candidates_def)
    have "digest c u \<noteq> digest c (token s)" using u(1) assms(5) by (simp add: inj_eq)
    then have "map_of (denied s1) (digest c u) = Some until" using check_denied [OF k _ assms(6)] that(2) by simp
    then show ?thesis using u(2,3) by (auto simp: suppressed_def Denied_fst)
  qed
  have own: "until \<le> t_check P" if "first \<noteq> []" "map_of (denied s) (digest c (token s)) = Some until" for until
    using that by (auto simp: first_def suppressed_def Denied_fst split: if_splits)
  have "distinct (map fst ?new)"
    using t(2) tok by (auto simp: good_candidates_def first_def rev_map [symmetric] comp_def)
  moreover have "length ?new \<le> 4" using t(3) by (simp add: first_def)
  moreover have "\<forall>(u, at) \<in> set ?new. u \<noteq> [] \<and> at \<in> {t_check P, t_replace P}
      \<and> (\<forall>until. map_of (denied s) (digest c u) = Some until \<longrightarrow> until \<le> at)"
    using other own t(2) by (auto simp: good_candidates_def first_def split: if_splits)
  moreover have "token s = [] \<or> suppressed c (denied s) (t_check P) (token s) \<longrightarrow> token s \<notin> fst ` set ?new"
    using t(2) tok by (auto simp: good_candidates_def first_def)
  ultimately show ?thesis using t(1) a1 by (intro exI [of _ ?new]) simp
qed

theorem cycle_asks_sparingly_witness:
  "asked (snd (runCheckCycle demo_settings (quiet_pass (\<lambda>_. Inl Forbidden)) True 0 (lm_start demo_settings ''t'' 0)))
    = [(''f'', 0), (''t'', 0)]
   \<and> length (asked (snd (runCheckCycle demo_settings (quiet_pass (\<lambda>_. Inl Forbidden)) True 0 (lm_start demo_settings ''t'' 0)))) \<le> 4"
proof -
  let ?P = "quiet_pass (\<lambda>_. Inl Forbidden)" and ?s = "lm_start demo_settings ''t'' 0"
  obtain d s' where r: "runCheckCycle demo_settings ?P True 0 ?s = (d, s')" by fastforce
  have "\<not> tokenInFlux ?s" "denylist_ok (denied ?s)" "t_check ?P \<le> t_replace ?P" "inj (digest demo_settings)"
    "length (denied ?s) < maxDeniedTokens"
    by (simp_all add: lm_start_def denylist_ok_def NewTokenDenylist_def quiet_pass_def demo_settings_def
        NewLifecycleManager_def maxDeniedTokens_def)
  from cycle_asks_sparingly [OF r this] obtain new where n: "asked s' = new @ asked ?s" "length new \<le> 4" by blast
  have "asked (snd (runCheckCycle demo_settings ?P True 0 ?s)) = [(''f'', 0), (''t'', 0)]" by code_simp
  then show ?thesis using n r by (simp add: lm_start_def)
qed

text \<open>
  A working token is kept: if the token on the client passes the lookup, is not expired and
  is either not due or not refused its renewal, a cycle leaves it, or a different one that
  passes the lookup when the renewal failed; it never signals a new login, ends one that was
  awaited when the check is clean, and calls the recovery hook for nothing.
\<close>
theorem working_token_kept:
  assumes "runCheckCycle c P scheduled deadline s = (d, s')" "\<not> tokenInFlux s" "denylist_ok (denied s)"
    and "token s \<noteq> []" "\<not> suppressed c (denied s) (t_check P) (token s)"
    and "LookupSelf P (token s) = Inr data"
    and "\<And>n. ttl_raw data = TtlSeconds n \<Longrightarrow> 0 < seconds n \<or> \<not> has_expire_time data"
    and "RenewSelf P (token s) \<noteq> Some Forbidden" "\<not> needsReauth s"
  shows "\<not> needsReauth s' \<and> signals s' = signals s
    \<and> is_ok (LookupSelf P (token s')) \<and> (RenewSelf P (token s) = None \<longrightarrow> token s' = token s)"
proof -
  obtain r s1 where k: "checkAndRenew c P s = (r, s1)" by fastforce
  note f = check_frame [OF k]
  have u: "needsReauth s1 = needsReauth s" "token s1 = token s" using f by (simp_all add: untouched_def)
  obtain d1 where D: "Denied (digest c) (t_check P) (token s) (denied s) = (False, d1)"
    using assms(5) by (cases "Denied (digest c) (t_check P) (token s) (denied s)") (simp add: suppressed_def)
  have renew: "renew_if_due c P data (s\<lparr>denied := d1, asked := (token s, t_check P) # asked s\<rparr>) = (r, s1)"
    using k assms(4,6) by (simp add: checkAndRenew_def D)
  have r: "r = None \<or> r = Some (RenewFailed Transient) \<and> RenewSelf P (token s) = Some Transient"
  proof -
    have "r \<noteq> Some TokenExpired"
      using renew assms(7) by (auto simp: renew_if_due_def Let_def split: ttl_field.splits if_splits option.splits)
    then show ?thesis using renew_frame [OF renew] assms(8) by (auto intro: vault_error.exhaust)
  qed
  from assms(1-3) show ?thesis
  proof (cases rule: runCheckCycle_cases)
    case (healthy s1')
    then show ?thesis using k f assms(6) by (simp add: untouched_def)
  next
    case (replaced e s1' s2)
    then have "e = RenewFailed Transient" using k r by simp
    then have "\<not> recoverable e s1'" using replaced(1) k u assms(4,9) by (simp add: recoverable_def)
    then show ?thesis using replaced k r f by (auto simp: untouched_def)
  next
    case (stuck e s1' s2)
    then have "e = RenewFailed Transient" using k r by simp
    then show ?thesis using stuck(1,2) k u assms(4,9) by (simp add: recoverable_def)
  next
    case (waiting e s1' s2)
    then show ?thesis using k r f assms(6,9) by (simp add: untouched_def)
  qed
qed

definition lease :: "int \<Rightarrow> token_data" where
  "lease n = \<lparr>ttl_raw = TtlSeconds n, creation = 1000, has_expire_time = True, renewable = True\<rparr>"

theorem working_token_kept_witness:
  "token (snd (runCheckCycle demo_settings (quiet_pass (\<lambda>_. Inr (lease 10))) True 0 (lm_start demo_settings ''t'' 0))) = ''t''"
proof -
  let ?P = "quiet_pass (\<lambda>_. Inr (lease 10))" and ?s = "lm_start demo_settings ''t'' 0"
  obtain d s' where r: "runCheckCycle demo_settings ?P True 0 ?s = (d, s')" by fastforce
  have "\<not> tokenInFlux ?s" "denylist_ok (denied ?s)" "token ?s \<noteq> []" "\<not> suppressed demo_settings (denied ?s) (t_check ?P) (token ?s)"
    "LookupSelf ?P (token ?s) = Inr (lease 10)" "RenewSelf ?P (token ?s) \<noteq> Some Forbidden" "\<not> needsReauth ?s"
    by (simp_all add: lm_start_def denylist_ok_def NewTokenDenylist_def quiet_pass_def suppressed_def Denied_def)
  moreover have "0 < seconds n \<or> \<not> has_expire_time (lease 10)" if "ttl_raw (lease 10) = TtlSeconds n" for n
    using that by (simp add: lease_def seconds_def int64_def)
  ultimately have "RenewSelf ?P (token ?s) = None \<longrightarrow> token s' = token ?s"
    using working_token_kept [OF r] by blast
  then show ?thesis using r by (simp add: quiet_pass_def lm_start_def)
qed

text \<open>
  A login is asked for once and only when nothing else helps: a cycle signals exactly when it
  leaves a state in which it was not signalled for one in which the check failed for good and
  every source and the recovery hook failed too; whenever it does not signal, the token on
  the client passed a lookup, was minted by the hook, or met only a transient failure.
\<close>
theorem login_asked_once:
  assumes "runCheckCycle c P scheduled deadline s = (d, s')" "\<not> tokenInFlux s" "denylist_ok (denied s)"
  shows "signals s' = signals s + (if needsReauth s' \<and> \<not> needsReauth s then 1 else 0)
    \<and> (needsReauth s' \<longrightarrow> currentDelay s' = recoveryInterval c
         \<and> (\<exists>e s1 s2. checkAndRenew c P s = (Some e, s1) \<and> recoverable e s1 \<and> untouched s s2 \<and> asks c P s1 s2))
    \<and> (\<not> needsReauth s' \<longrightarrow> fst (checkAndRenew c P s) = None \<and> token s' = token s
         \<or> is_ok (LookupSelf P (token s')) \<or> RecoverOK P \<and> token s' = RecoverToken P
         \<or> token s' = token s \<and> \<not> needsReauth s \<and> (\<exists>e s1. checkAndRenew c P s = (Some e, s1) \<and> \<not> recoverable e s1))"
  using assms
proof (cases rule: runCheckCycle_cases)
  case (healthy s1)
  then show ?thesis using check_frame [OF healthy(1)] by (simp add: untouched_def)
next
  case (replaced e s1 s2)
  then show ?thesis by (auto simp: untouched_def)
next
  case (stuck e s1 s2)
  then show ?thesis by (auto simp: untouched_def)
next
  case (waiting e s1 s2)
  have "\<not> needsReauth s1" using waiting(2) by (simp add: recoverable_def)
  then have "\<not> needsReauth s" using check_frame [OF waiting(1)] by (simp add: untouched_def)
  then show ?thesis using waiting by (auto simp: untouched_def)
qed

theorem login_asked_once_witness:
  "let s' = snd (runCheckCycle demo_settings (quiet_pass (\<lambda>_. Inl Forbidden)) True 0 (lm_start demo_settings ''t'' 0))
   in needsReauth s' \<and> signals s' = 1 \<and> currentDelay s' = 10 * 1000000000"
proof -
  let ?P = "quiet_pass (\<lambda>_. Inl Forbidden)" and ?s = "lm_start demo_settings ''t'' 0"
  obtain d s' where r: "runCheckCycle demo_settings ?P True 0 ?s = (d, s')" by fastforce
  have "\<not> tokenInFlux ?s" "denylist_ok (denied ?s)"
    by (simp_all add: lm_start_def denylist_ok_def NewTokenDenylist_def)
  note p = login_asked_once [OF r this]
  have "needsReauth (snd (runCheckCycle demo_settings ?P True 0 ?s))" by code_simp
  then have n: "needsReauth s'" by (simp add: r)
  have "signals s' = 1" "currentDelay s' = recoveryInterval demo_settings" using p n by (simp_all add: lm_start_def)
  moreover have "recoveryInterval demo_settings = 10 * 1000000000" by (simp add: demo_settings_def NewLifecycleManager_def)
  ultimately show ?thesis using n by (simp add: r Let_def)
qed

text \<open>
  The wait after the n-th failed recovery in closed form: none after the first, then doubling
  from the recovery interval up to the maximal delay, where it stays; the shift never overflows.
\<close>
lemma recovery_backoff:
  assumes "0 < recoveryInterval c" "recoveryInterval c \<le> 10 * 1000000000" "recoveryInterval c \<le> maxDelay c" "maxDelay c \<le> 5 * 60 * 1000000000"
  shows "recoverBackoff c n = (if n \<le> 1 then 0 else min (recoveryInterval c * 2 ^ min (n - 1) 16) (maxDelay c))"
    and "1 < n \<Longrightarrow> recoveryInterval c \<le> recoverBackoff c n"
proof -
  let ?p = "2 ^ min (n - 1) 16 :: int"
  have p: "1 \<le> ?p" "?p \<le> 2 ^ 16" by (simp, intro power_increasing) simp_all
  have b: "recoveryInterval c \<le> recoveryInterval c * ?p" using p(1) assms(1) by (simp add: mult_le_cancel_left1)
  have "recoveryInterval c * ?p \<le> 10 * 1000000000 * 2 ^ 16"
    using p(2) assms(1,2) by (intro mult_mono) simp_all
  then have "recoveryInterval c * ?p < 2 ^ 63" by (rule le_less_trans) simp
  moreover have "- (2 ^ 63) \<le> recoveryInterval c * ?p" using b assms(1) by (intro order_trans [OF _ b]) simp
  ultimately have w: "int64 (recoveryInterval c * ?p) = recoveryInterval c * ?p" by (intro int64_id)
  show c: "recoverBackoff c n = (if n \<le> 1 then 0 else min (recoveryInterval c * ?p) (maxDelay c))"
  proof -
    obtain x where x: "recoveryInterval c * ?p = x" by blast
    have "0 < x" using b assms(1) unfolding x by linarith
    then show ?thesis unfolding recoverBackoff_def Let_def w unfolding x by (simp add: min_def)
  qed
  show "recoveryInterval c \<le> recoverBackoff c n" if "1 < n" using that b assms(3) unfolding c by simp
qed

text \<open>Reports that wake the loop are at least a recovery interval apart, whatever happens between.\<close>

lemma reports_spaced:
  assumes "NotifyRejected c e t s = (True, s')" "NotifyRejected c e' t' s'' = (True, s3)" "lastReject s'' = lastReject s'"
    and "t \<noteq> 0" "t' \<noteq> 0" "0 < recoveryInterval c"
  shows "t + recoveryInterval c \<le> t'"
  using assms by (auto simp: NotifyRejected_def Let_def split: if_splits)

text \<open>
  Finding: a renewal refused with a 403 is taken for a rejected token, although the lookup of
  that token has just succeeded; without another token or a recovery hook the manager
  signals a new login, and its callback takes the working token off the client.
\<close>
lemma refused_renewal_discards_token:
  "let c = demo_settings\<lparr>onReauth := Some (\<lambda>_. [])\<rparr>;
       P = (quiet_pass (\<lambda>t. if t = ''t'' then Inr (lease 10) else Inl Forbidden))\<lparr>RenewSelf := \<lambda>_. Some Forbidden\<rparr>;
       s' = snd (runCheckCycle c P True 0 (lm_start c ''t'' 0))
   in needsReauth s' \<and> token s' = [] \<and> is_ok (LookupSelf P ''t'')"
  by code_simp

end
