(* ===== verification/Refresh.thy ===== *)
theory Refresh
  imports GoVal
begin

text \<open>
  The refresh manager (\<open>internal/enrol/refresh.go\<close>): it reads the secret of every enrolment
  whose engine can rotate it, asks the provider for a new credential past half of its life,
  writes that back with check-and-set, and wipes a credential the provider has rejected. What
  Vault and the providers answer is arbitrary; configuration reloads fall between any two
  calls. Times are nanoseconds; \<open>time.Parse\<close> for RFC 3339 is a parameter.
\<close>

section \<open>State\<close>

record 'f enrolment =
  Engine :: string
  Settings :: "'f goval gomap option"
  HelpText :: string

record 'f vsecret =
  Data :: "'f goval gomap"
  Version :: nat
  CreatedTime :: int

record revokedMark =
  rversion :: nat
  rcreated :: int

record change =
  CKey :: string
  CVersion :: nat
  CLocal :: bool

record rsettings =
  checkInterval :: int
  maxBackoff :: int
  parseRFC3339 :: "string \<Rightarrow> int option"

text \<open>\<open>changes\<close> is what the change hook has been told, newest first.\<close>

record 'f rm =
  enrolments :: "string \<Rightarrow> 'f enrolment option"
  backoffs :: "string \<Rightarrow> (int \<times> int) option"
  revoked :: "string \<Rightarrow> revokedMark option"
  seen :: "string \<Rightarrow> nat option"
  changes :: "change list"

definition defaultRefreshInterval :: int where
  "defaultRefreshInterval = 60 * 1000000000"

definition NewRefreshManager :: "(string \<Rightarrow> 'f enrolment option) \<Rightarrow> int \<Rightarrow> (string \<Rightarrow> int option) \<Rightarrow> rsettings \<times> 'f rm" where
  "NewRefreshManager es interval parse =
     (\<lparr>checkInterval = (if interval \<le> 0 then defaultRefreshInterval else interval),
        maxBackoff = 5 * 60 * 1000000000, parseRFC3339 = parse\<rparr>,
      \<lparr>enrolments = es, backoffs = Map.empty, revoked = Map.empty, seen = Map.empty, changes = []\<rparr>)"

text \<open>The engines that implement \<open>Refresher\<close>.\<close>

definition is_refresher :: "string \<Rightarrow> bool" where
  "is_refresher engine \<longleftrightarrow> engine \<in> {''jfrog'', ''databricks'', ''github''}"

section \<open>Operations on the state\<close>

definition mark_of :: "'f vsecret \<Rightarrow> revokedMark" where
  "mark_of s = \<lparr>rversion = Version s, rcreated = CreatedTime s\<rparr>"

definition matches :: "revokedMark \<Rightarrow> 'f vsecret \<Rightarrow> bool" where
  "matches r s \<longleftrightarrow> rversion r = Version s \<and> rcreated r = CreatedTime s"

definition refreshEquivalent :: "'f enrolment \<Rightarrow> 'f enrolment \<Rightarrow> bool" where
  "refreshEquivalent a b \<longleftrightarrow> Engine a = Engine b \<and> Settings a = Settings b"

definition sameEnrolment :: "(string \<Rightarrow> 'f enrolment option) \<Rightarrow> (string \<Rightarrow> 'f enrolment option) \<Rightarrow> string \<Rightarrow> bool" where
  "sameEnrolment old cur key =
     (case (old key, cur key) of (Some a, Some b) \<Rightarrow> refreshEquivalent a b | _ \<Rightarrow> False)"

definition UpdateConfig :: "(string \<Rightarrow> 'f enrolment option) \<Rightarrow> 'f rm \<Rightarrow> 'f rm" where
  "UpdateConfig es s =
     s\<lparr>enrolments := es,
       backoffs := (\<lambda>k. if sameEnrolment (enrolments s) es k then backoffs s k else None),
       revoked := (\<lambda>k. if sameEnrolment (enrolments s) es k then revoked s k else None),
       seen := (\<lambda>k. if es k = None then None else seen s k)\<rparr>"

definition inBackoff :: "string \<Rightarrow> int \<Rightarrow> 'f rm \<Rightarrow> bool" where
  "inBackoff key now s = (case backoffs s key of None \<Rightarrow> False | Some (_, nextAttempt) \<Rightarrow> now < nextAttempt)"

definition bumpBackoff :: "rsettings \<Rightarrow> int \<Rightarrow> string \<Rightarrow> 'f rm \<Rightarrow> 'f rm" where
  "bumpBackoff c now key s =
     (let d0 = (case backoffs s key of None \<Rightarrow> 0 | Some (d, _) \<Rightarrow> d);
          d1 = (if d0 = 0 then checkInterval c else int64 (d0 * 2));
          d2 = (if maxBackoff c < d1 then maxBackoff c else d1)
      in s\<lparr>backoffs := (backoffs s)(key \<mapsto> (d2, now + d2))\<rparr>)"

definition resetBackoff :: "string \<Rightarrow> 'f rm \<Rightarrow> 'f rm" where
  "resetBackoff key s = s\<lparr>backoffs := (backoffs s)(key := None)\<rparr>"

definition clearRevoked :: "string \<Rightarrow> 'f rm \<Rightarrow> 'f rm" where
  "clearRevoked key s = s\<lparr>revoked := (revoked s)(key := None)\<rparr>"

definition setRevoked :: "string \<Rightarrow> 'f enrolment \<Rightarrow> revokedMark \<Rightarrow> 'f rm \<Rightarrow> 'f rm" where
  "setRevoked key used mark s =
     (case enrolments s key of
        None \<Rightarrow> s
      | Some cur \<Rightarrow> if refreshEquivalent cur used then s\<lparr>revoked := (revoked s)(key \<mapsto> mark)\<rparr> else s)"

definition stillArmed :: "string \<Rightarrow> 'f enrolment \<Rightarrow> 'f rm \<Rightarrow> bool" where
  "stillArmed key used s =
     (case (revoked s key, enrolments s key) of
        (Some _, Some cur) \<Rightarrow> refreshEquivalent cur used
      | _ \<Rightarrow> False)"

definition markAbsent :: "string \<Rightarrow> 'f rm \<Rightarrow> 'f rm" where
  "markAbsent key s = s\<lparr>seen := (seen s)(key \<mapsto> 0)\<rparr>"

definition observeVersion :: "string \<Rightarrow> nat \<Rightarrow> 'f rm \<Rightarrow> 'f rm" where
  "observeVersion key version s =
     (let s' = s\<lparr>seen := (seen s)(key \<mapsto> version)\<rparr> in
      case seen s key of
        None \<Rightarrow> s'
      | Some prev \<Rightarrow>
          if prev \<noteq> version then s'\<lparr>changes := \<lparr>CKey = key, CVersion = version, CLocal = False\<rparr> # changes s\<rparr>
          else s')"

definition recordWrite :: "string \<Rightarrow> nat \<Rightarrow> 'f rm \<Rightarrow> 'f rm" where
  "recordWrite key version s =
     s\<lparr>seen := (seen s)(key \<mapsto> version),
       changes := \<lparr>CKey = key, CVersion = version, CLocal = True\<rparr> # changes s\<rparr>"

text \<open>What a read of a secret returns: \<open>None\<close> for an error, \<open>Some None\<close> for no secret.\<close>

type_synonym 'f reading = "'f vsecret option option"

definition changedDuringBackoff :: "string \<Rightarrow> 'f reading \<Rightarrow> 'f rm \<Rightarrow> bool \<times> 'f rm" where
  "changedDuringBackoff key r s =
     (case r of
        None \<Rightarrow> (False, s)
      | Some secret \<Rightarrow>
          let version = (case secret of None \<Rightarrow> 0 | Some x \<Rightarrow> Version x) in
          (case seen s key of
             None \<Rightarrow> (False, s)
           | Some prev \<Rightarrow>
               if prev = version then (False, s)
               else if secret = None then (False, markAbsent key s)
               else (True, observeVersion key version s)))"

section \<open>One enrolment\<close>

fun stringifyStringMap :: "'f goval gomap \<Rightarrow> string gomap" where
  "stringifyStringMap [] = []"
| "stringifyStringMap ((k, GStr s) # m) = (k, s) # stringifyStringMap m"
| "stringifyStringMap (_ # m) = stringifyStringMap m"

text \<open>Whether a secret is past half of its life; \<open>Time.Sub\<close> saturates at 64 bits.\<close>

datatype due = Legacy | Malformed | NotYet | Due

definition field :: "string \<Rightarrow> string gomap \<Rightarrow> string" where
  "field k m = (case map_of m k of None \<Rightarrow> [] | Some v \<Rightarrow> v)"

definition half_life :: "int \<Rightarrow> int \<Rightarrow> int" where
  "half_life issued expires = issued + min (expires - issued) (2 ^ 63 - 1) div 2"

definition rotation_due :: "rsettings \<Rightarrow> int \<Rightarrow> string gomap \<Rightarrow> due" where
  "rotation_due c now existing =
     (if field ''expires_at'' existing = [] then Legacy
      else if field ''issued_at'' existing = [] then Malformed
      else case (parseRFC3339 c (field ''expires_at'' existing), parseRFC3339 c (field ''issued_at'' existing)) of
        (Some expires, Some issued) \<Rightarrow>
          if expires \<le> issued then Malformed
          else if now < half_life issued expires then NotYet else Due
      | _ \<Rightarrow> Malformed)"

text \<open>\<open>refreshOne\<close> up to the call it makes next.\<close>

datatype 'f action = Done | Wipe "'f vsecret" | Present "'f vsecret"

definition after_read :: "rsettings \<Rightarrow> int \<Rightarrow> string \<Rightarrow> 'f reading \<Rightarrow> 'f rm \<Rightarrow> 'f action \<times> 'f rm" where
  "after_read c now key r s =
     (case r of
        None \<Rightarrow> (Done, bumpBackoff c now key s)
      | Some None \<Rightarrow> (Done, markAbsent key (clearRevoked key (resetBackoff key s)))
      | Some (Some secret) \<Rightarrow>
          let s = observeVersion key (Version secret) s;
              armed = (case revoked s key of None \<Rightarrow> False | Some mark \<Rightarrow> matches mark secret);
              s' = (if revoked s key = None then s else clearRevoked key s)
          in if armed then (Wipe secret, s)
             else (case rotation_due c now (stringifyStringMap (Data secret)) of
                Legacy \<Rightarrow> (Done, s')
              | Malformed \<Rightarrow> (Done, bumpBackoff c now key s')
              | NotYet \<Rightarrow> (Done, s')
              | Due \<Rightarrow> (Present secret, s')))"

datatype answer = Rotated "string gomap" | ErrRevoked | RefreshFailed

definition after_refresh :: "rsettings \<Rightarrow> int \<Rightarrow> string \<Rightarrow> 'f enrolment \<Rightarrow> 'f vsecret \<Rightarrow> answer \<Rightarrow> 'f rm \<Rightarrow> string gomap option \<times> 'f rm" where
  "after_refresh c now key e secret ans s =
     (case ans of
        Rotated data \<Rightarrow> (Some data, s)
      | ErrRevoked \<Rightarrow> (None, setRevoked key e (mark_of secret) s)
      | RefreshFailed \<Rightarrow> (None, bumpBackoff c now key s))"

datatype cas_result = CASWritten | CASMismatch | CASFailed

definition after_write :: "rsettings \<Rightarrow> int \<Rightarrow> string \<Rightarrow> 'f vsecret \<Rightarrow> cas_result \<Rightarrow> 'f rm \<Rightarrow> 'f rm" where
  "after_write c now key secret res s =
     (case res of
        CASMismatch \<Rightarrow> resetBackoff key s
      | CASFailed \<Rightarrow> bumpBackoff c now key s
      | CASWritten \<Rightarrow> recordWrite key (Suc (Version secret)) (resetBackoff key s))"

definition after_delete :: "rsettings \<Rightarrow> int \<Rightarrow> string \<Rightarrow> bool \<Rightarrow> 'f rm \<Rightarrow> 'f rm" where
  "after_delete c now key ok s =
     (if ok then markAbsent key (clearRevoked key (resetBackoff key s)) else bumpBackoff c now key s)"

text \<open>The calls \<open>refreshOne\<close> makes, over a world the calls may change.\<close>

record ('w, 'f) outside =
  ReadSecret :: "string \<Rightarrow> 'w \<Rightarrow> 'f reading"
  EngineRefresh :: "string \<Rightarrow> 'f goval gomap option \<Rightarrow> string gomap \<Rightarrow> 'w \<Rightarrow> answer \<times> 'w"
  WriteCAS :: "string \<Rightarrow> string gomap \<Rightarrow> nat \<Rightarrow> 'w \<Rightarrow> cas_result \<times> 'w"
  DeleteSecret :: "string \<Rightarrow> 'w \<Rightarrow> bool \<times> 'w"

definition wipeRevoked :: "('w, 'f) outside \<Rightarrow> rsettings \<Rightarrow> int \<Rightarrow> string \<Rightarrow> 'f enrolment \<Rightarrow> 'w \<times> 'f rm \<Rightarrow> 'w \<times> 'f rm" where
  "wipeRevoked X c now key e ws =
     (case ws of (w, s) \<Rightarrow>
        if \<not> stillArmed key e s then (w, s)
        else case DeleteSecret X key w of (ok, w') \<Rightarrow> (w', after_delete c now key ok s))"

definition refreshOne :: "('w, 'f) outside \<Rightarrow> rsettings \<Rightarrow> int \<Rightarrow> string \<Rightarrow> 'f enrolment \<Rightarrow> 'w \<times> 'f rm \<Rightarrow> 'w \<times> 'f rm" where
  "refreshOne X c now key e ws =
     (case ws of (w, s) \<Rightarrow>
        case after_read c now key (ReadSecret X key w) s of
          (Done, s) \<Rightarrow> (w, s)
        | (Wipe secret, s) \<Rightarrow> wipeRevoked X c now key e (w, s)
        | (Present secret, s) \<Rightarrow>
            case EngineRefresh X (Engine e) (Settings e) (stringifyStringMap (Data secret)) w of (ans, w) \<Rightarrow>
            case after_refresh c now key e secret ans s of
              (None, s) \<Rightarrow> (w, s)
            | (Some data, s) \<Rightarrow>
                case WriteCAS X key data (Version secret) w of (res, w) \<Rightarrow> (w, after_write c now key secret res s))"

definition tick_one :: "('w, 'f) outside \<Rightarrow> rsettings \<Rightarrow> int \<Rightarrow> (string \<Rightarrow> int) \<Rightarrow> (string \<Rightarrow> 'f enrolment option) \<Rightarrow> string \<Rightarrow> 'w \<times> 'f rm \<Rightarrow> 'w \<times> 'f rm" where
  "tick_one X c now clock snapshot key ws =
     (case (snapshot key, ws) of
        (None, _) \<Rightarrow> ws
      | (Some e, w, s) \<Rightarrow>
          if \<not> is_refresher (Engine e) then ws
          else if inBackoff key now s then
            (case changedDuringBackoff key (ReadSecret X key w) s of
               (False, s) \<Rightarrow> (w, s)
             | (True, s) \<Rightarrow> refreshOne X c (clock key) key e (w, resetBackoff key s))
          else refreshOne X c (clock key) key e ws)"

text \<open>
  The keys in the order Go's map iteration happens to give them; a cancelled context ends the
  tick after a prefix. The backoff gate uses the time of the tick, each visit its own.
\<close>

definition tick :: "('w, 'f) outside \<Rightarrow> rsettings \<Rightarrow> int \<Rightarrow> (string \<Rightarrow> int) \<Rightarrow> string list \<Rightarrow> 'w \<times> 'f rm \<Rightarrow> 'w \<times> 'f rm" where
  "tick X c now clock keys ws = fold (tick_one X c now clock (enrolments (snd ws))) keys ws"

section \<open>The manager beside configuration reloads\<close>

text \<open>
  A reload runs between any two calls of a tick. \<open>hist\<close> records, newest first, what the manager
  asked and was told: reads of a visit and reads that only look for a change during backoff,
  tokens presented, rejections that were taken down, writes, deletions begun and done.
\<close>

datatype 'f rnote =
    NRead string "'f reading"
  | NPeek string "'f reading"
  | NPresented string revokedMark "'f enrolment"
  | NRejected string revokedMark "'f enrolment"
  | NWrote string nat
  | NDeleted string "'f enrolment"
  | NGone string
  | NConfig "string \<Rightarrow> 'f enrolment option"

datatype 'f job =
    Idle
  | Reading string "'f enrolment"
  | Wiping string "'f enrolment" "'f vsecret"
  | Deleting string "'f enrolment"
  | Presenting string "'f enrolment" "'f vsecret"
  | Writing string "'f enrolment" "'f vsecret" "string gomap"

record 'f rstate =
  mgr :: "'f rm"
  todo :: "string list"
  snap :: "string \<Rightarrow> 'f enrolment option"
  job :: "'f job"
  hist :: "'f rnote list"

fun job_after :: "string \<Rightarrow> 'f enrolment \<Rightarrow> 'f action \<Rightarrow> 'f job" where
  "job_after key e Done = Idle"
| "job_after key e (Wipe x) = Wiping key e x"
| "job_after key e (Present x) = Presenting key e x"

fun presented :: "string \<Rightarrow> 'f enrolment \<Rightarrow> 'f action \<Rightarrow> 'f rnote list" where
  "presented key e (Present x) = [NPresented key (mark_of x) e]"
| "presented key e a = []"

text \<open>A rejection is taken down unless the enrolment was changed while the provider answered.\<close>

definition rejected :: "string \<Rightarrow> 'f enrolment \<Rightarrow> 'f vsecret \<Rightarrow> answer \<Rightarrow> 'f rm \<Rightarrow> 'f rnote list" where
  "rejected key e x ans s =
     (case (ans, enrolments s key) of
        (ErrRevoked, Some cur) \<Rightarrow> if refreshEquivalent cur e then [NRejected key (mark_of x) e] else []
      | _ \<Rightarrow> [])"

inductive rstep :: "rsettings \<Rightarrow> 'f rstate \<Rightarrow> 'f rstate \<Rightarrow> bool" for c where
  reload: "rstep c st (st\<lparr>mgr := UpdateConfig es (mgr st), hist := NConfig es # hist st\<rparr>)"
| begin_tick: "rstep c st (st\<lparr>todo := keys, snap := enrolments (mgr st)\<rparr>)"
    if "job st = Idle" "todo st = []" "distinct keys" "set keys = dom (enrolments (mgr st))"
| cancelled: "rstep c st (st\<lparr>todo := []\<rparr>)" if "job st = Idle"
| skipped: "rstep c st (st\<lparr>todo := rest\<rparr>)"
    if "job st = Idle" "todo st = key # rest" "snap st key = Some e" "\<not> is_refresher (Engine e)"
| visited: "rstep c st (st\<lparr>todo := rest, job := Reading key e\<rparr>)"
    if "job st = Idle" "todo st = key # rest" "snap st key = Some e" "is_refresher (Engine e)" "\<not> inBackoff key now (mgr st)"
| unchanged: "rstep c st (st\<lparr>todo := rest, mgr := s, hist := NPeek key r # hist st\<rparr>)"
    if "job st = Idle" "todo st = key # rest" "snap st key = Some e" "is_refresher (Engine e)" "inBackoff key now (mgr st)"
      "changedDuringBackoff key r (mgr st) = (False, s)"
| changed: "rstep c st (st\<lparr>todo := rest, mgr := resetBackoff key s, job := Reading key e, hist := NPeek key r # hist st\<rparr>)"
    if "job st = Idle" "todo st = key # rest" "snap st key = Some e" "is_refresher (Engine e)" "inBackoff key now (mgr st)"
      "changedDuringBackoff key r (mgr st) = (True, s)"
| read: "rstep c st (st\<lparr>mgr := s, job := job_after key e a, hist := presented key e a @ NRead key r # hist st\<rparr>)"
    if "job st = Reading key e" "after_read c now key r (mgr st) = (a, s)"
| rotated: "rstep c st (st\<lparr>mgr := s, job := Writing key e x data, hist := hist st\<rparr>)"
    if "job st = Presenting key e x" "after_refresh c now key e x ans (mgr st) = (Some data, s)"
| refused: "rstep c st (st\<lparr>mgr := s, job := Idle, hist := rejected key e x ans (mgr st) @ hist st\<rparr>)"
    if "job st = Presenting key e x" "after_refresh c now key e x ans (mgr st) = (None, s)"
| written: "rstep c st (st\<lparr>mgr := after_write c now key x res (mgr st), job := Idle,
      hist := (if res = CASWritten then NWrote key (Suc (Version x)) # hist st else hist st)\<rparr>)"
    if "job st = Writing key e x data"
| disarmed: "rstep c st (st\<lparr>job := Idle\<rparr>)" if "job st = Wiping key e x" "\<not> stillArmed key e (mgr st)"
| deleting: "rstep c st (st\<lparr>job := Deleting key e, hist := NDeleted key e # hist st\<rparr>)"
    if "job st = Wiping key e x" "stillArmed key e (mgr st)"
| deleted: "rstep c st (st\<lparr>mgr := after_delete c now key ok (mgr st), job := Idle, hist := (if ok then NGone key # hist st else hist st)\<rparr>)"
    if "job st = Deleting key e"

inductive rrun :: "rsettings \<Rightarrow> 'f rstate \<Rightarrow> 'f rstate \<Rightarrow> bool" for c where
  start: "rrun c st st"
| later: "rrun c st st' \<Longrightarrow> rstep c st' st'' \<Longrightarrow> rrun c st st''"

definition rstart :: "'f rm \<Rightarrow> 'f rstate" where
  "rstart s = \<lparr>mgr = s, todo = [], snap = Map.empty, job = Idle, hist = []\<rparr>"

subsection \<open>What the history says\<close>

text \<open>
  A rejection of version \<open>m\<close> under enrolment \<open>e\<close> stands while every later read of a visit shows
  that version (or fails), every later configuration keeps the enrolment and the secret has
  not been wiped; it is confirmed once a later visit has read that version.
\<close>

fun undisturbed :: "string \<Rightarrow> revokedMark \<Rightarrow> 'f enrolment \<Rightarrow> 'f rnote \<Rightarrow> bool" where
  "undisturbed key m e (NRead k r) = (k = key \<longrightarrow> (case r of None \<Rightarrow> True | Some None \<Rightarrow> False | Some (Some x) \<Rightarrow> mark_of x = m))"
| "undisturbed key m e (NConfig es) = (case es key of None \<Rightarrow> False | Some e' \<Rightarrow> refreshEquivalent e' e)"
| "undisturbed key m e (NGone k) = (k \<noteq> key)"
| "undisturbed key m e _ = True"

fun standing :: "string \<Rightarrow> revokedMark \<Rightarrow> 'f enrolment \<Rightarrow> 'f rnote list \<Rightarrow> bool" where
  "standing key m e [] = False"
| "standing key m e (n # h) = (n = NRejected key m e \<or> undisturbed key m e n \<and> standing key m e h)"

fun reads_mark :: "string \<Rightarrow> revokedMark \<Rightarrow> 'f rnote \<Rightarrow> bool" where
  "reads_mark key m (NRead k (Some (Some x))) = (k = key \<and> mark_of x = m)"
| "reads_mark key m _ = False"

fun confirmed :: "string \<Rightarrow> revokedMark \<Rightarrow> 'f enrolment \<Rightarrow> 'f rnote list \<Rightarrow> bool" where
  "confirmed key m e [] = False"
| "confirmed key m e (n # h) =
     (undisturbed key m e n \<and> (confirmed key m e h \<or> reads_mark key m n \<and> standing key m e h))"

text \<open>The version a key was last known to have, and the notices that follow from a history.\<close>

definition reading_version :: "'f vsecret option \<Rightarrow> nat" where
  "reading_version r = (case r of None \<Rightarrow> 0 | Some x \<Rightarrow> Version x)"

fun last_seen :: "string \<Rightarrow> 'f rnote list \<Rightarrow> nat option" where
  "last_seen key [] = None"
| "last_seen key (NRead k (Some r) # h) = (if k = key then Some (reading_version r) else last_seen key h)"
| "last_seen key (NPeek k (Some r) # h) =
     (if k = key \<and> last_seen key h \<noteq> None then Some (reading_version r) else last_seen key h)"
| "last_seen key (NWrote k v # h) = (if k = key then Some v else last_seen key h)"
| "last_seen key (NGone k # h) = (if k = key then Some 0 else last_seen key h)"
| "last_seen key (NConfig es # h) = (if es key = None then None else last_seen key h)"
| "last_seen key (_ # h) = last_seen key h"

definition notice :: "string \<Rightarrow> nat \<Rightarrow> 'f rnote list \<Rightarrow> change list" where
  "notice key v h = (if last_seen key h \<in> {None, Some v} then [] else [\<lparr>CKey = key, CVersion = v, CLocal = False\<rparr>])"

fun notices :: "'f rnote list \<Rightarrow> change list" where
  "notices [] = []"
| "notices (NRead k (Some (Some x)) # h) = notice k (Version x) h @ notices h"
| "notices (NPeek k (Some (Some x)) # h) = notice k (Version x) h @ notices h"
| "notices (NWrote k v # h) = \<lparr>CKey = k, CVersion = v, CLocal = True\<rparr> # notices h"
| "notices (_ # h) = notices h"

subsection \<open>Frames of the operations\<close>

named_theorems rm_simps "the fields of the manager after an operation"

lemma refreshEquivalent_refl [simp]: "refreshEquivalent e e"
  by (simp add: refreshEquivalent_def)

lemma refreshEquivalent_sym: "refreshEquivalent a b \<Longrightarrow> refreshEquivalent b a"
  by (simp add: refreshEquivalent_def)

lemma refreshEquivalent_trans: "refreshEquivalent a b \<Longrightarrow> refreshEquivalent b d \<Longrightarrow> refreshEquivalent a d"
  by (simp add: refreshEquivalent_def)

lemma matches_iff: "matches m x \<longleftrightarrow> mark_of x = m"
  by (cases m) (auto simp: matches_def mark_of_def)

lemma UpdateConfig_fields [rm_simps]:
  "enrolments (UpdateConfig es s) = es"
  "revoked (UpdateConfig es s) k = (if sameEnrolment (enrolments s) es k then revoked s k else None)"
  "seen (UpdateConfig es s) k = (if es k = None then None else seen s k)"
  "changes (UpdateConfig es s) = changes s"
  by (simp_all add: UpdateConfig_def)

lemma bumpBackoff_fields [rm_simps]:
  "enrolments (bumpBackoff c now key s) = enrolments s" "revoked (bumpBackoff c now key s) = revoked s"
  "seen (bumpBackoff c now key s) = seen s" "changes (bumpBackoff c now key s) = changes s"
  by (simp_all add: bumpBackoff_def Let_def)

lemma resetBackoff_fields [rm_simps]:
  "enrolments (resetBackoff key s) = enrolments s" "revoked (resetBackoff key s) = revoked s"
  "seen (resetBackoff key s) = seen s" "changes (resetBackoff key s) = changes s"
  by (simp_all add: resetBackoff_def)

lemma clearRevoked_fields [rm_simps]:
  "enrolments (clearRevoked key s) = enrolments s" "revoked (clearRevoked key s) = (revoked s)(key := None)"
  "seen (clearRevoked key s) = seen s" "changes (clearRevoked key s) = changes s" "backoffs (clearRevoked key s) = backoffs s"
  by (simp_all add: clearRevoked_def)

lemma setRevoked_fields [rm_simps]:
  "enrolments (setRevoked key e m s) = enrolments s" "seen (setRevoked key e m s) = seen s"
  "changes (setRevoked key e m s) = changes s" "backoffs (setRevoked key e m s) = backoffs s"
  "revoked (setRevoked key e m s) = (case enrolments s key of None \<Rightarrow> revoked s
     | Some cur \<Rightarrow> if refreshEquivalent cur e then (revoked s)(key \<mapsto> m) else revoked s)"
  by (simp_all add: setRevoked_def split: option.split)

lemma markAbsent_fields [rm_simps]:
  "enrolments (markAbsent key s) = enrolments s" "revoked (markAbsent key s) = revoked s"
  "seen (markAbsent key s) = (seen s)(key \<mapsto> 0)" "changes (markAbsent key s) = changes s" "backoffs (markAbsent key s) = backoffs s"
  by (simp_all add: markAbsent_def)

lemma recordWrite_fields [rm_simps]:
  "enrolments (recordWrite key v s) = enrolments s" "revoked (recordWrite key v s) = revoked s"
  "seen (recordWrite key v s) = (seen s)(key \<mapsto> v)" "backoffs (recordWrite key v s) = backoffs s"
  "changes (recordWrite key v s) = \<lparr>CKey = key, CVersion = v, CLocal = True\<rparr> # changes s"
  by (simp_all add: recordWrite_def)

lemma observeVersion_fields [rm_simps]:
  "enrolments (observeVersion key v s) = enrolments s" "revoked (observeVersion key v s) = revoked s"
  "seen (observeVersion key v s) = (seen s)(key \<mapsto> v)" "backoffs (observeVersion key v s) = backoffs s"
  "changes (observeVersion key v s) =
     (if seen s key \<in> {None, Some v} then changes s else \<lparr>CKey = key, CVersion = v, CLocal = False\<rparr> # changes s)"
  by (auto simp: observeVersion_def Let_def split: option.split)

lemma after_write_fields [rm_simps]:
  "enrolments (after_write c now key x res s) = enrolments s" "revoked (after_write c now key x res s) = revoked s"
  "seen (after_write c now key x res s) = (if res = CASWritten then (seen s)(key \<mapsto> Suc (Version x)) else seen s)"
  "changes (after_write c now key x res s) =
     (if res = CASWritten then \<lparr>CKey = key, CVersion = Suc (Version x), CLocal = True\<rparr> # changes s else changes s)"
  by (cases res; simp add: after_write_def rm_simps)+

lemma after_delete_fields [rm_simps]:
  "enrolments (after_delete c now key ok s) = enrolments s"
  "revoked (after_delete c now key ok s) = (if ok then (revoked s)(key := None) else revoked s)"
  "seen (after_delete c now key ok s) = (if ok then (seen s)(key \<mapsto> 0) else seen s)"
  "changes (after_delete c now key ok s) = changes s"
  by (simp_all add: after_delete_def rm_simps)

lemma changedDuringBackoff_fields:
  assumes "changedDuringBackoff key r s = (b, s')"
  shows "enrolments s' = enrolments s" "revoked s' = revoked s" "backoffs s' = backoffs s"
    "seen s' = (case r of None \<Rightarrow> seen s | Some x \<Rightarrow> if seen s key = None then seen s else (seen s)(key \<mapsto> reading_version x))"
    "changes s' = (case r of Some (Some x) \<Rightarrow>
        if seen s key \<in> {None, Some (Version x)} then changes s
        else \<lparr>CKey = key, CVersion = Version x, CLocal = False\<rparr> # changes s
      | _ \<Rightarrow> changes s)"
  using assms unfolding changedDuringBackoff_def reading_version_def
  by (auto simp: Let_def rm_simps fun_upd_idem split: option.splits if_splits)

lemma after_read_fields:
  assumes "after_read c now key r s = (a, s')"
  shows "enrolments s' = enrolments s"
    "revoked s' = (case r of None \<Rightarrow> revoked s | Some None \<Rightarrow> (revoked s)(key := None)
       | Some (Some x) \<Rightarrow> if revoked s key = Some (mark_of x) then revoked s else (revoked s)(key := None))"
    "seen s' = (case r of None \<Rightarrow> seen s | Some x \<Rightarrow> (seen s)(key \<mapsto> reading_version x))"
    "changes s' = (case r of Some (Some x) \<Rightarrow>
        if seen s key \<in> {None, Some (Version x)} then changes s
        else \<lparr>CKey = key, CVersion = Version x, CLocal = False\<rparr> # changes s
      | _ \<Rightarrow> changes s)"
    "(\<exists>x. a = Wipe x) \<longleftrightarrow> (\<exists>x. r = Some (Some x) \<and> revoked s key = Some (mark_of x))"
    "a = Wipe x \<or> a = Present x \<Longrightarrow> r = Some (Some x)"
  using assms unfolding after_read_def reading_version_def
  by (auto simp: Let_def rm_simps matches_iff fun_upd_idem split: option.splits if_splits due.splits)

lemma after_refresh_fields:
  assumes "after_refresh c now key e x ans s = (d, s')"
  shows "enrolments s' = enrolments s" "seen s' = seen s" "changes s' = changes s"
    "revoked s' = (if rejected key e x ans s = [] then revoked s else (revoked s)(key \<mapsto> mark_of x))"
  using assms by (auto simp: after_refresh_def rejected_def rm_simps split: answer.splits option.splits if_splits)

subsection \<open>The marks of the manager are the standing rejections\<close>

definition marks_ok :: "'f rm \<Rightarrow> 'f rnote list \<Rightarrow> bool" where
  "marks_ok s h \<longleftrightarrow>
     (\<forall>key m. revoked s key = Some m \<longleftrightarrow> (\<exists>e. standing key m e h))
   \<and> (\<forall>key m e. standing key m e h \<longrightarrow> (\<exists>e'. enrolments s key = Some e' \<and> refreshEquivalent e' e))"

lemma marks_okI:
  assumes "\<And>key m e. standing key m e h \<Longrightarrow> revoked s key = Some m \<and> (\<exists>e'. enrolments s key = Some e' \<and> refreshEquivalent e' e)"
    and "\<And>key m. revoked s key = Some m \<Longrightarrow> \<exists>e. standing key m e h"
  shows "marks_ok s h"
  using assms unfolding marks_ok_def by blast

lemma marks_okD:
  assumes "marks_ok s h" "standing key m e h"
  shows "revoked s key = Some m" "\<exists>e'. enrolments s key = Some e' \<and> refreshEquivalent e' e"
  using assms unfolding marks_ok_def by blast+

lemma marks_okE:
  assumes "marks_ok s h" "revoked s key = Some m"
  obtains e e' where "standing key m e h" "enrolments s key = Some e'" "refreshEquivalent e' e"
  using assms unfolding marks_ok_def by blast

lemma marks_same:
  assumes "marks_ok s h" "revoked s' = revoked s" "enrolments s' = enrolments s"
    and "\<And>key m e. undisturbed key m e n" "\<And>key m e. n \<noteq> NRejected key m e"
  shows "marks_ok s' (n # h)"
  using assms by (simp add: marks_ok_def)

lemma marks_kept:
  assumes "marks_ok s h" "revoked s' = revoked s" "enrolments s' = enrolments s"
  shows "marks_ok s' h"
  using assms by (simp add: marks_ok_def)

lemma marks_reload:
  assumes "marks_ok s h"
  shows "marks_ok (UpdateConfig es s) (NConfig es # h)"
proof (rule marks_okI)
  fix key m e
  assume "standing key m e (NConfig es # h)"
  then obtain e2 where e: "standing key m e h" "es key = Some e2" "refreshEquivalent e2 e" by (auto split: option.splits)
  with marks_okD [OF assms e(1)] have "sameEnrolment (enrolments s) es key"
    by (auto simp: sameEnrolment_def dest: refreshEquivalent_trans refreshEquivalent_sym)
  then show "revoked (UpdateConfig es s) key = Some m \<and> (\<exists>e'. enrolments (UpdateConfig es s) key = Some e' \<and> refreshEquivalent e' e)"
    using marks_okD(1) [OF assms e(1)] e by (simp add: rm_simps)
next
  fix key m
  assume "revoked (UpdateConfig es s) key = Some m"
  then have "sameEnrolment (enrolments s) es key" "revoked s key = Some m" by (simp_all add: rm_simps split: if_splits)
  from assms this(2) obtain e e' where e: "standing key m e h" "enrolments s key = Some e'" "refreshEquivalent e' e"
    by (rule marks_okE)
  with \<open>sameEnrolment (enrolments s) es key\<close> obtain e2 where "es key = Some e2" "refreshEquivalent e' e2"
    by (auto simp: sameEnrolment_def split: option.splits)
  moreover from this(2) e(3) have "refreshEquivalent e2 e" by (simp add: refreshEquivalent_def)
  ultimately show "\<exists>e. standing key m e (NConfig es # h)" using e(1) by (intro exI [of _ e]) simp
qed

lemma marks_read:
  assumes "marks_ok s h" "after_read c now key r s = (a, s')"
  shows "marks_ok s' (NRead key r # h)"
proof (rule marks_okI)
  fix k m e
  assume "standing k m e (NRead key r # h)"
  then have u: "undisturbed k m e (NRead key r)" and st: "standing k m e h" by auto
  show "revoked s' k = Some m \<and> (\<exists>e'. enrolments s' k = Some e' \<and> refreshEquivalent e' e)"
    using u marks_okD [OF assms(1) st] by (auto simp: after_read_fields [OF assms(2)] split: option.splits if_splits)
next
  fix k m
  assume m: "revoked s' k = Some m"
  then have "revoked s k = Some m" by (auto simp: after_read_fields [OF assms(2)] split: option.splits if_splits)
  with assms(1) obtain e e' where "standing k m e h" by (elim marks_okE)
  moreover have "undisturbed k m e (NRead key r)"
    using m by (auto simp: after_read_fields [OF assms(2)] split: option.splits if_splits)
  ultimately show "\<exists>e. standing k m e (NRead key r # h)" by auto
qed

lemma marks_rejected:
  assumes "marks_ok s h" "after_refresh c now key e x ans s = (d, s')" "revoked s key = None"
  shows "marks_ok s' (rejected key e x ans s @ h)"
proof (cases "rejected key e x ans s = []")
  case True
  have "marks_ok s' h"
    using after_refresh_fields [OF assms(2)] True by (intro marks_kept [OF assms(1)]) simp_all
  with True show ?thesis by simp
next
  case False
  then obtain cur where r: "rejected key e x ans s = [NRejected key (mark_of x) e]" "enrolments s key = Some cur" "refreshEquivalent cur e"
    by (auto simp: rejected_def split: answer.splits option.splits if_splits)
  have none: "\<not> standing key m e' h" for m e' using marks_okD(1) [OF assms(1), of key m e'] assms(3) by auto
  show ?thesis
  proof (rule marks_okI)
    fix k m e'
    assume "standing k m e' (rejected key e x ans s @ h)"
    then consider "k = key" "m = mark_of x" "e' = e" | "k \<noteq> key" "standing k m e' h" using none unfolding r(1) by auto
    then show "revoked s' k = Some m \<and> (\<exists>e''. enrolments s' k = Some e'' \<and> refreshEquivalent e'' e')"
      by cases (use r marks_okD [OF assms(1)] in \<open>simp_all add: after_refresh_fields [OF assms(2)]\<close>)
  next
    fix k m
    assume "revoked s' k = Some m"
    then show "\<exists>e'. standing k m e' (rejected key e x ans s @ h)"
      using assms(1) unfolding after_refresh_fields [OF assms(2)] r(1) by (auto split: if_splits elim: marks_okE)
  qed
qed

lemma marks_gone:
  assumes "marks_ok s h"
  shows "marks_ok (after_delete c now key True s) (NGone key # h)"
proof (rule marks_okI)
  fix k m e
  assume "standing k m e (NGone key # h)"
  with marks_okD [OF assms, of k m e] show "revoked (after_delete c now key True s) k = Some m
      \<and> (\<exists>e'. enrolments (after_delete c now key True s) k = Some e' \<and> refreshEquivalent e' e)"
    by (auto simp: rm_simps)
qed (use assms in \<open>auto simp: rm_simps split: if_splits elim: marks_okE\<close>)

subsection \<open>The invariant of the runs\<close>

fun job_ok :: "'f rm \<Rightarrow> 'f rnote list \<Rightarrow> 'f job \<Rightarrow> bool" where
  "job_ok s h (Wiping key e x) \<longleftrightarrow> revoked s key = None \<or> (\<exists>m e'. revoked s key = Some m \<and> confirmed key m e' h)"
| "job_ok s h (Presenting key e x) \<longleftrightarrow> revoked s key = None"
| "job_ok s h _ \<longleftrightarrow> True"

fun good :: "'f rnote list \<Rightarrow> bool" where
  "good [] = True"
| "good (NDeleted key e # h) = ((\<exists>m e'. confirmed key m e' h \<and> refreshEquivalent e e') \<and> good h)"
| "good (NPresented key m e # h) = ((\<forall>m' e'. \<not> standing key m' e' h) \<and> good h)"
| "good (_ # h) = good h"

definition rinv :: "'f rstate \<Rightarrow> bool" where
  "rinv st \<longleftrightarrow> marks_ok (mgr st) (hist st) \<and> job_ok (mgr st) (hist st) (job st) \<and> good (hist st)"

lemma rinvI: "marks_ok s h \<Longrightarrow> job_ok s h j \<Longrightarrow> good h \<Longrightarrow> mgr st = s \<Longrightarrow> hist st = h \<Longrightarrow> job st = j \<Longrightarrow> rinv st"
  by (simp add: rinv_def)

lemma rinvD: "rinv st \<Longrightarrow> marks_ok (mgr st) (hist st)" "rinv st \<Longrightarrow> job_ok (mgr st) (hist st) (job st)" "rinv st \<Longrightarrow> good (hist st)"
  by (simp_all add: rinv_def)

lemma confirmed_standing: "confirmed key m e h \<Longrightarrow> standing key m e h"
  by (induction h) auto

lemma job_ok_reload:
  assumes "marks_ok s h" "job_ok s h j"
  shows "job_ok (UpdateConfig es s) (NConfig es # h) j"
proof (cases j)
  case (Wiping key e x)
  show ?thesis
  proof (cases "revoked (UpdateConfig es s) key")
    case (Some m)
    then have k: "revoked s key = Some m" "sameEnrolment (enrolments s) es key" by (simp_all add: rm_simps split: if_splits)
    with assms(2) Wiping obtain e' where c: "confirmed key m e' h" by auto
    from marks_okD(2) [OF assms(1) confirmed_standing [OF c]] obtain e1 where "enrolments s key = Some e1" "refreshEquivalent e1 e'" by blast
    with k(2) have "undisturbed key m e' (NConfig es)"
      by (auto simp: sameEnrolment_def refreshEquivalent_def split: option.splits)
    with c Some Wiping show ?thesis by auto
  qed (simp add: Wiping)
qed (use assms in \<open>auto simp: rm_simps\<close>)

lemma job_ok_read:
  assumes "marks_ok s h" "after_read c now key r s = (a, s')"
  shows "job_ok s' (presented key e a @ NRead key r # h) (job_after key e a)"
proof (cases a)
  case (Wipe x)
  then have r: "r = Some (Some x)" "revoked s key = Some (mark_of x)"
    using after_read_fields(5) [OF assms(2)] after_read_fields(6) [OF assms(2), of x] by auto
  moreover have "revoked s' key = Some (mark_of x)" using r by (simp add: after_read_fields [OF assms(2)])
  moreover obtain e' where "standing key (mark_of x) e' h" using marks_okE [OF assms(1) r(2)] by metis
  ultimately have "revoked s' key = Some (mark_of x) \<and> confirmed key (mark_of x) e' (NRead key r # h)" by simp
  with Wipe show ?thesis by auto
next
  case (Present x)
  then have "r = Some (Some x)" "revoked s key \<noteq> Some (mark_of x)"
    using after_read_fields(5) [OF assms(2)] after_read_fields(6) [OF assms(2), of x] by auto
  with Present show ?thesis by (simp add: after_read_fields [OF assms(2)])
qed simp

lemma not_standing: "marks_ok s h \<Longrightarrow> revoked s key = None \<Longrightarrow> \<not> standing key m e h"
  using marks_okD(1) by fastforce

lemma good_read:
  assumes "marks_ok s h" "after_read c now key r s = (a, s')" "good h"
  shows "good (presented key e a @ NRead key r # h)" "marks_ok s' (presented key e a @ NRead key r # h)"
proof -
  have m: "marks_ok s' (NRead key r # h)" by (rule marks_read [OF assms(1,2)])
  have "job_ok s' (presented key e a @ NRead key r # h) (job_after key e a)" by (rule job_ok_read [OF assms(1,2)])
  then show "good (presented key e a @ NRead key r # h)"
    using not_standing [OF m] assms(3) by (cases a) (simp_all del: standing.simps)
  show "marks_ok s' (presented key e a @ NRead key r # h)"
    using m by (cases a) (auto intro: marks_same)
qed

lemma rinv_step: "rstep c st st' \<Longrightarrow> rinv st \<Longrightarrow> rinv st'"
proof (induction rule: rstep.induct)
  case (reload st es)
  then show ?case using marks_reload job_ok_reload rinvD by (intro rinvI) (auto simp: rinv_def)
next
  case (unchanged st key rest e now r s)
  then show ?case
    using changedDuringBackoff_fields [OF unchanged(6)] rinvD [OF unchanged(7)] marks_same [of "mgr st" "hist st" s "NPeek key r"]
    by (intro rinvI) simp_all
next
  case (changed st key rest e now r s)
  then show ?case
    using changedDuringBackoff_fields [OF changed(6)] rinvD [OF changed(7)]
      marks_same [of "mgr st" "hist st" "resetBackoff key s" "NPeek key r"]
    by (intro rinvI) (simp_all add: rm_simps)
next
  case (read st key e now r a s)
  then show ?case using good_read [OF rinvD(1) read(2) rinvD(3)] job_ok_read [OF rinvD(1) read(2)] by (intro rinvI) simp_all
next
  case (rotated st key e x now ans data s)
  then show ?case
    using rinvD [OF rotated(3)] by (intro rinvI) (auto simp: after_refresh_def split: answer.splits)
next
  case (refused st key e x now ans s)
  then have "revoked (mgr st) key = None" using rinvD(2) [OF refused(3)] by simp
  then have "marks_ok s (rejected key e x ans (mgr st) @ hist st)"
    by (rule marks_rejected [OF rinvD(1) [OF refused(3)] refused(2)])
  moreover have "good (rejected key e x ans (mgr st) @ hist st)"
    using rinvD(3) [OF refused(3)] by (auto simp: rejected_def split: answer.splits option.splits)
  ultimately show ?case by (intro rinvI) simp_all
next
  case (written st key e x data res now)
  have m: "marks_ok (after_write c now key x res (mgr st)) (hist st)"
    by (rule marks_kept [OF rinvD(1) [OF written(2)]]) (simp_all add: rm_simps)
  then have "marks_ok (after_write c now key x res (mgr st)) (NWrote key (Suc (Version x)) # hist st)"
    by (rule marks_same) simp_all
  with m have "marks_ok (after_write c now key x res (mgr st))
      (if res = CASWritten then NWrote key (Suc (Version x)) # hist st else hist st)" by presburger
  then show ?case by (rule rinvI) (use rinvD(3) [OF written(2)] in simp_all)
next
  case (deleting st key e x)
  then obtain m e' cur where c: "revoked (mgr st) key = Some m" "confirmed key m e' (hist st)"
      "enrolments (mgr st) key = Some cur" "refreshEquivalent cur e"
    using rinvD(2) [OF deleting(3)] by (auto simp: stillArmed_def split: option.splits)
  with marks_okD(2) [OF rinvD(1) [OF deleting(3)] confirmed_standing [OF c(2)]]
  have "refreshEquivalent e e'" by (auto simp: refreshEquivalent_def)
  with c(2) have "good (NDeleted key e # hist st)" using rinvD(3) [OF deleting(3)] by auto
  moreover have "marks_ok (mgr st) (NDeleted key e # hist st)"
    by (rule marks_same [OF rinvD(1) [OF deleting(3)]]) simp_all
  ultimately show ?case by (intro rinvI) simp_all
next
  case (deleted st key e ok now)
  have "marks_ok (after_delete c now key ok (mgr st)) (if ok then NGone key # hist st else hist st)"
  proof (cases ok)
    case False
    then show ?thesis by (simp, intro marks_kept [OF rinvD(1) [OF deleted(2)]]) (simp_all add: rm_simps)
  qed (use marks_gone [OF rinvD(1) [OF deleted(2)]] in simp)
  then show ?case using rinvD(3) [OF deleted(2)] by (intro rinvI) simp_all
qed (auto simp: rinv_def)

lemma rinv_start: "revoked s = Map.empty \<Longrightarrow> rinv (rstart s)"
  by (simp add: rinv_def rstart_def marks_ok_def)

lemma rinv_run: "rrun c st st' \<Longrightarrow> rinv st \<Longrightarrow> rinv st'"
  by (induction rule: rrun.induct) (auto intro: rinv_step)

lemma good_split: "good (h0 @ h) \<Longrightarrow> good h"
  by (induction h0 rule: good.induct) auto

subsection \<open>Notices, retries, and the visit as one call\<close>

definition told :: "'f rstate \<Rightarrow> bool" where
  "told st \<longleftrightarrow> seen (mgr st) = (\<lambda>k. last_seen k (hist st)) \<and> changes (mgr st) = notices (hist st)"

lemma last_seen_presented: "last_seen k (presented key e a @ h) = last_seen k h" "notices (presented key e a @ h) = notices h"
  by (cases a; simp)+

lemma last_seen_rejected: "last_seen k (rejected key e x ans s @ h) = last_seen k h" "notices (rejected key e x ans s @ h) = notices h"
  by (auto simp: rejected_def split: answer.split option.split)

lemma told_step: "rstep c st st' \<Longrightarrow> told st \<Longrightarrow> told st'"
proof (induction rule: rstep.induct)
  case (unchanged st key rest e now r s)
  then show ?case using changedDuringBackoff_fields(4,5) [OF unchanged(6)]
    by (auto simp: told_def fun_eq_iff notice_def split: option.splits)
next
  case (changed st key rest e now r s)
  then show ?case using changedDuringBackoff_fields(4,5) [OF changed(6)]
    by (auto simp: told_def fun_eq_iff notice_def rm_simps split: option.splits)
next
  case (read st key e now r a s)
  then show ?case using after_read_fields(3,4) [OF read(2)]
    by (auto simp: told_def fun_eq_iff notice_def last_seen_presented split: option.splits)
next
  case (rotated st key e x now ans data s)
  then show ?case using after_refresh_fields(2,3) [OF rotated(2)] by (simp add: told_def)
next
  case (refused st key e x now ans s)
  then show ?case using after_refresh_fields(2,3) [OF refused(2)] by (simp add: told_def last_seen_rejected)
qed (auto simp: told_def rm_simps fun_eq_iff)

lemma told_start: "seen s = Map.empty \<Longrightarrow> changes s = [] \<Longrightarrow> told (rstart s)"
  by (simp add: told_def rstart_def)

lemma told_run: "rrun c st st' \<Longrightarrow> told st \<Longrightarrow> told st'"
  by (induction rule: rrun.induct) (auto intro: told_step)

text \<open>The visit of \<open>refreshOne\<close>, with nothing in between, is a run of the steps.\<close>

lemma visit_ends: "rrun c st st' \<Longrightarrow> st' = st\<lparr>mgr := s', job := Idle, hist := hist st'\<rparr> \<Longrightarrow> \<exists>h. rrun c st (st\<lparr>mgr := s', job := Idle, hist := h\<rparr>)"
  by metis

lemma refreshOne_steps:
  assumes "refreshOne X c now key e (w, s) = (w', s')" "job st = Reading key e" "mgr st = s"
  shows "\<exists>h. rrun c st (st\<lparr>mgr := s', job := Idle, hist := h\<rparr>)"
proof -
  obtain a s1 where r: "after_read c now key (ReadSecret X key w) s = (a, s1)" by fastforce
  let ?st1 = "st\<lparr>mgr := s1, job := job_after key e a, hist := presented key e a @ NRead key (ReadSecret X key w) # hist st\<rparr>"
  have run1: "rrun c st ?st1" using r assms by (intro rrun.later [OF rrun.start] rstep.read) simp_all
  show ?thesis
  proof (cases a)
    case Done
    then show ?thesis using run1 r assms by (auto simp: refreshOne_def)
  next
    case (Wipe x)
    show ?thesis
    proof (cases "stillArmed key e s1")
      case True
      obtain ok where s': "s' = after_delete c now key ok s1"
        using r Wipe True assms(1) by (auto simp: refreshOne_def wipeRevoked_def split: prod.splits)
      have 1: "rstep c ?st1 (?st1\<lparr>job := Deleting key e, hist := NDeleted key e # hist ?st1\<rparr>)"
        by (rule rstep.deleting) (use Wipe True in simp_all)
      have 2: "rstep c (?st1\<lparr>job := Deleting key e, hist := NDeleted key e # hist ?st1\<rparr>)
          ((?st1\<lparr>job := Deleting key e, hist := NDeleted key e # hist ?st1\<rparr>)\<lparr>mgr := after_delete c now key ok s1, job := Idle,
            hist := (if ok then NGone key # NDeleted key e # hist ?st1 else NDeleted key e # hist ?st1)\<rparr>)"
        using rstep.deleted [of "?st1\<lparr>job := Deleting key e, hist := NDeleted key e # hist ?st1\<rparr>" key e c ok now] by (cases ok) simp_all
      show ?thesis by (rule visit_ends [OF rrun.later [OF rrun.later [OF run1 1] 2]]) (simp add: s')
    next
      case False
      then have eq: "s' = s1" using r Wipe assms(1) by (simp add: refreshOne_def wipeRevoked_def)
      have 1: "rstep c ?st1 (?st1\<lparr>job := Idle\<rparr>)" by (rule rstep.disarmed) (use Wipe False in simp_all)
      show ?thesis by (rule visit_ends [OF rrun.later [OF run1 1]]) (simp add: eq)
    qed
  next
    case (Present x)
    obtain ans w1 where ans: "EngineRefresh X (Engine e) (Settings e) (stringifyStringMap (Data x)) w = (ans, w1)" by fastforce
    obtain d s2 where f: "after_refresh c now key e x ans s1 = (d, s2)" by fastforce
    have j1: "job ?st1 = Presenting key e x" "mgr ?st1 = s1" using Present by simp_all
    show ?thesis
    proof (cases d)
      case None
      then have eq: "s' = s2" using r Present ans f assms(1) by (simp add: refreshOne_def)
      have 1: "rstep c ?st1 (?st1\<lparr>mgr := s2, job := Idle, hist := rejected key e x ans s1 @ hist ?st1\<rparr>)"
        using rstep.refused [OF j1(1), of c now ans s2] f None j1(2) by simp
      show ?thesis by (rule visit_ends [OF rrun.later [OF run1 1]]) (simp add: eq)
    next
      case (Some data)
      let ?st2 = "?st1\<lparr>mgr := s2, job := Writing key e x data, hist := hist ?st1\<rparr>"
      obtain res where s': "s' = after_write c now key x res s2"
        using r Present ans f Some assms(1) by (auto simp: refreshOne_def split: prod.splits)
      have 1: "rstep c ?st1 ?st2" using rstep.rotated [OF j1(1), of c now ans data s2] f Some j1(2) by simp
      have 2: "rstep c ?st2 (?st2\<lparr>mgr := after_write c now key x res s2, job := Idle,
          hist := (if res = CASWritten then NWrote key (Suc (Version x)) # hist ?st2 else hist ?st2)\<rparr>)"
        using rstep.written [of ?st2 key e x data c res now] by (cases "res = CASWritten") simp_all
      show ?thesis by (rule visit_ends [OF rrun.later [OF rrun.later [OF run1 1] 2]]) (simp add: s')
    qed
  qed
qed

subsection \<open>The retry schedule\<close>

lemma bump_first: "backoffs s key = None \<Longrightarrow> backoffs (bumpBackoff c now key s) key
    = Some (min (checkInterval c) (maxBackoff c), now + min (checkInterval c) (maxBackoff c))"
  by (simp add: bumpBackoff_def Let_def min_def)

lemma bump_again:
  assumes "backoffs s key = Some (d, t)" "0 < d" "d < 2 ^ 62"
  shows "backoffs (bumpBackoff c now key s) key = Some (min (d * 2) (maxBackoff c), now + min (d * 2) (maxBackoff c))"
proof -
  have "int64 (d * 2) = d * 2" using assms(2,3) by (intro int64_id) simp_all
  then show ?thesis using assms by (simp add: bumpBackoff_def Let_def min_def)
qed

definition retry_delay :: "rsettings \<Rightarrow> nat \<Rightarrow> int" where
  "retry_delay c n = min (checkInterval c * 2 ^ n) (maxBackoff c)"

lemma retry_delay_bounds:
  assumes "0 < checkInterval c" "0 < maxBackoff c" "maxBackoff c < 2 ^ 62"
  shows "0 < retry_delay c n" "retry_delay c n < 2 ^ 62" "min (retry_delay c n * 2) (maxBackoff c) = retry_delay c (Suc n)"
proof -
  show "0 < retry_delay c n" using assms by (simp add: retry_delay_def)
  show "retry_delay c n < 2 ^ 62" using assms unfolding retry_delay_def by (intro le_less_trans [OF min.cobounded2])
  show "min (retry_delay c n * 2) (maxBackoff c) = retry_delay c (Suc n)"
    using assms by (auto simp: retry_delay_def min_def algebra_simps)
qed

text \<open>
  After \<open>n + 1\<close> failures in a row an enrolment waits \<open>2 ^ n\<close> check intervals from the last of
  them, \<open>maxBackoff\<close> at most.
\<close>

lemma retry_schedule:
  assumes "0 < checkInterval c" "0 < maxBackoff c" "maxBackoff c < 2 ^ 62" "backoffs s key = None"
  shows "backoffs (fold (\<lambda>now. bumpBackoff c now key) (nows @ [now]) s) key
    = Some (retry_delay c (length nows), now + retry_delay c (length nows))"
proof (induction nows arbitrary: now rule: rev_induct)
  case Nil
  with assms show ?case by (simp add: bump_first retry_delay_def)
next
  case (snoc n ns)
  from bump_again [OF snoc, of c now] retry_delay_bounds [OF assms(1-3), of "length ns"]
  show ?case by simp
qed

section \<open>Properties\<close>

text \<open>
  C30. A credential is wiped on evidence only. However visits, provider answers, writes of others
  and configuration reloads fall together: a deletion is begun only for a secret whose very
  version the provider rejected under the same engine and settings, which no reload has
  changed since, and which a later visit has read again unchanged; a token is presented
  only while no rejection stands; and the marks the manager keeps are the standing rejections.
\<close>
theorem wiped_on_evidence_only:
  assumes "rrun c (rstart s) st" "revoked s = Map.empty"
  shows "(revoked (mgr st) key = Some m \<longleftrightarrow> (\<exists>e. standing key m e (hist st)))
    \<and> (hist st = h0 @ NDeleted key e # h \<longrightarrow> (\<exists>m e'. confirmed key m e' h \<and> refreshEquivalent e e'))
    \<and> (hist st = h0 @ NPresented key m e # h \<longrightarrow> (\<forall>m' e'. \<not> standing key m' e' h))"
proof -
  have inv: "rinv st" by (rule rinv_run [OF assms(1) rinv_start [OF assms(2)]])
  have "good (n # h)" if "hist st = h0 @ n # h" for n using rinvD(3) [OF inv] that good_split by metis
  then show ?thesis using rinvD(1) [OF inv] by (auto simp: marks_ok_def)
qed

definition demo_enrolment :: "'f enrolment" where
  "demo_enrolment = \<lparr>Engine = ''jfrog'', Settings = None, HelpText = []\<rparr>"

definition demo_settings :: rsettings where
  "demo_settings = fst (NewRefreshManager (Map.empty :: string \<Rightarrow> unit enrolment option) 0
     (\<lambda>t. if t = ''0'' then Some 0 else if t = ''10'' then Some 10 else None))"

definition demo_mgr :: "'f rm" where
  "demo_mgr = snd (NewRefreshManager [''k'' \<mapsto> demo_enrolment] 0 (\<lambda>_. None))"

definition demo_vsecret :: "'f vsecret" where
  "demo_vsecret = \<lparr>Data = [(''expires_at'', GStr ''10''), (''issued_at'', GStr ''0'')], Version = 1, CreatedTime = 0\<rparr>"

lemma demo_due: "rotation_due demo_settings 100 (stringifyStringMap (Data (demo_vsecret :: 'f vsecret))) = Due"
  by (simp add: demo_vsecret_def rotation_due_def demo_settings_def NewRefreshManager_def field_def half_life_def)

lemma rrun_to: "rrun c st st' \<Longrightarrow> rstep c st' st'' \<Longrightarrow> st'' = u \<Longrightarrow> rrun c st u"
  using rrun.later by metis

lemma demo_refused_twice:
  fixes s :: "'f rm"
  defines "e \<equiv> demo_enrolment" and "x \<equiv> demo_vsecret :: 'f vsecret"
    and "s \<equiv> demo_mgr\<lparr>seen := [''k'' \<mapsto> 1], revoked := [''k'' \<mapsto> mark_of (demo_vsecret :: 'f vsecret)]\<rparr>"
  shows "rrun demo_settings (rstart demo_mgr) \<lparr>mgr = s, todo = [], snap = [''k'' \<mapsto> e], job = Deleting ''k'' e,
      hist = [NDeleted ''k'' e, NRead ''k'' (Some (Some x)), NRejected ''k'' (mark_of x) e,
        NPresented ''k'' (mark_of x) e, NRead ''k'' (Some (Some x))]\<rparr>"
proof -
  let ?s1 = "demo_mgr\<lparr>seen := [''k'' \<mapsto> 1]\<rparr>" and ?r = "Some (Some x)" and ?es = "[''k'' \<mapsto> e]"
  let ?st = "\<lambda>s t j h. \<lparr>mgr = s, todo = t, snap = ?es, job = j, hist = h\<rparr>"
  let ?h1 = "[NPresented ''k'' (mark_of x) e, NRead ''k'' (Some (Some x))]"
  let ?h2 = "NRejected ''k'' (mark_of x) e # ?h1" and ?run = "rrun demo_settings (rstart demo_mgr)"
  have es: "enrolments (demo_mgr :: 'f rm) = ?es" "is_refresher (Engine e)" "backoffs (demo_mgr :: 'f rm) = Map.empty"
    "seen (demo_mgr :: 'f rm) = Map.empty" "revoked (demo_mgr :: 'f rm) = Map.empty"
    by (simp_all add: demo_mgr_def NewRefreshManager_def e_def is_refresher_def demo_enrolment_def)
  have s: "enrolments s = ?es" "backoffs s = Map.empty" "revoked s = [''k'' \<mapsto> mark_of x]" "seen s = [''k'' \<mapsto> 1]"
    by (simp_all add: s_def es x_def)
  have r1: "after_read demo_settings 100 ''k'' ?r demo_mgr = (Present x, ?s1)"
    using demo_due by (simp add: after_read_def es x_def observeVersion_def Let_def demo_vsecret_def)
  have r2: "after_read demo_settings 100 ''k'' ?r s = (Wipe x, s)"
    by (simp add: after_read_def s matches_iff observeVersion_def Let_def x_def demo_vsecret_def fun_upd_idem)
  have f: "after_refresh demo_settings 100 ''k'' e x ErrRevoked ?s1 = (None, s)"
    by (simp add: after_refresh_def setRevoked_def es s_def x_def)
  have rej: "rejected ''k'' e x ErrRevoked ?s1 = [NRejected ''k'' (mark_of x) e]" by (simp add: rejected_def es)
  have "?run (?st demo_mgr [''k''] Idle [])"
    by (rule rrun_to [OF rrun.start rstep.begin_tick [where keys = "[''k'']"]]) (simp_all add: rstart_def es)
  then have "?run (?st demo_mgr [] (Reading ''k'' e) [])"
    by (rule rrun_to [OF _ rstep.visited [where key = "''k''" and e = e and now = 100]]) (simp_all add: es inBackoff_def)
  then have "?run (?st ?s1 [] (Presenting ''k'' e x) ?h1)"
    by (rule rrun_to [OF _ rstep.read [where key = "''k''" and e = e and a = "Present x" and s = ?s1 and r = ?r and now = 100]]) (simp_all add: r1)
  then have "?run (?st s [] Idle ?h2)"
    by (rule rrun_to [OF _ rstep.refused [where key = "''k''" and e = e and x = x and ans = ErrRevoked and s = s and now = 100]]) (simp_all add: f [unfolded One_nat_def] rej [unfolded One_nat_def])
  then have "?run (?st s [''k''] Idle ?h2)"
    by (rule rrun_to [OF _ rstep.begin_tick [where keys = "[''k'']"]]) (simp_all add: s)
  then have "?run (?st s [] (Reading ''k'' e) ?h2)"
    by (rule rrun_to [OF _ rstep.visited [where key = "''k''" and e = e and now = 100]]) (simp_all add: es s inBackoff_def)
  then have "?run (?st s [] (Wiping ''k'' e x) (NRead ''k'' ?r # ?h2))"
    by (rule rrun_to [OF _ rstep.read [where key = "''k''" and e = e and a = "Wipe x" and s = s and r = ?r and now = 100]]) (simp_all add: r2)
  then show ?thesis
    by (rule rrun_to [OF _ rstep.deleting [where key = "''k''" and e = e and x = x]]) (simp_all add: s stillArmed_def)
qed

theorem wiped_on_evidence_only_witness:
  "\<exists>m e'. confirmed ''k'' m e' [NRead ''k'' (Some (Some (demo_vsecret :: 'f vsecret))),
      NRejected ''k'' (mark_of (demo_vsecret :: 'f vsecret)) demo_enrolment,
      NPresented ''k'' (mark_of (demo_vsecret :: 'f vsecret)) demo_enrolment, NRead ''k'' (Some (Some demo_vsecret))]
    \<and> refreshEquivalent demo_enrolment e'"
proof -
  have "revoked (demo_mgr :: 'f rm) = Map.empty" by (simp add: demo_mgr_def NewRefreshManager_def)
  from wiped_on_evidence_only [OF demo_refused_twice this, where key = "''k''" and e = demo_enrolment and h0 = "[]"]
  show ?thesis by simp
qed

text \<open>
  The change hook is told of every change and of nothing else: in every interleaving the
  notices are exactly those of the history of reads and writes, one for each write of its
  own and one for each read of a version other than the one last known, none for the
  first sighting of an enrolment.
\<close>
theorem change_notices_exact:
  assumes "rrun c (rstart s) st" "seen s = Map.empty" "changes s = []"
  shows "changes (mgr st) = notices (hist st) \<and> seen (mgr st) key = last_seen key (hist st)"
  using told_run [OF assms(1) told_start [OF assms(2,3)]] by (simp add: told_def)

theorem change_notices_exact_witness:
  "let s = \<lparr>mgr = demo_mgr, todo = [], snap = Map.empty, job = Idle, hist = [NConfig Map.empty]\<rparr> :: 'f rstate
   in changes (mgr (s\<lparr>mgr := UpdateConfig Map.empty demo_mgr\<rparr>)) = []"
proof -
  have "rrun demo_settings (rstart demo_mgr) ((rstart demo_mgr)\<lparr>mgr := UpdateConfig Map.empty (mgr (rstart demo_mgr)),
      hist := NConfig Map.empty # hist (rstart demo_mgr)\<rparr> :: 'f rstate)"
    by (rule rrun.later [OF rrun.start rstep.reload])
  from change_notices_exact [OF this, of "''k''"] show ?thesis
    by (simp add: demo_mgr_def NewRefreshManager_def rstart_def)
qed

end
