(* ===== verification/ConfigLayers.thy ===== *)
theory ConfigLayers
  imports Sync KVPath Refresh
begin

text \<open>
  How a configuration is put together from layers (\<open>internal/config\<close>: \<open>merge.go\<close>,
  \<open>partial.go\<close>, \<open>socketlist.go\<close>, \<open>user.go\<close> and the helpers of \<open>config.go\<close>): documents of a
  remote service merged over the local base, the user's preferences ratcheted over policy,
  and the list of peer sockets. \<open>time.ParseDuration\<close> is a parameter; a YAML document is given
  as the keys of its top-level mapping.
\<close>

section \<open>Durations and keys\<close>

text \<open>\<open>strconv.ParseInt(num, 10, 64)\<close>: not a numeral, out of range, or a value.\<close>

datatype parsed_int = NotANumber | OutOfRange | Parsed int

definition ParseInt64 :: "string \<Rightarrow> parsed_int" where
  "ParseInt64 s =
     (let neg = has_prefix ''-'' s;
          ds = (if has_prefix ''-'' s \<or> has_prefix ''+'' s then tl s else s)
      in if ds = [] \<or> \<not> list_all (\<lambda>c. c \<in> set ''0123456789'') ds then NotANumber
         else let n = (foldl (\<lambda>a c. 10 * a + (of_char c - 48)) 0 ds :: int); v = (if neg then - n else n)
              in if - (2 ^ 63) \<le> v \<and> v < 2 ^ 63 then Parsed v else OutOfRange)"

definition day :: int where
  "day = 24 * 3600 * 1000000000"

definition ParseDuration :: "(string \<Rightarrow> int option) \<Rightarrow> string \<Rightarrow> int option" where
  "ParseDuration std text =
     (let s = trim_space text in
      if s = [] then None
      else if has_suffix ''d'' s then
        (case ParseInt64 (butlast s) of
           OutOfRange \<Rightarrow> None
         | NotANumber \<Rightarrow> std s
         | Parsed days \<Rightarrow> if days < 0 \<or> (2 ^ 63 - 1) div day < days then None else Some (int64 (days * day)))
      else std s)"

text \<open>The shape of an enrolment key.\<close>

definition validateEnrolmentKey :: "string \<Rightarrow> bool" where
  "validateEnrolmentKey key \<longleftrightarrow>
     CHR 0x5C \<notin> set key
   \<and> count_list key (CHR ''/'') \<le> 1
   \<and> list_all (\<lambda>seg. trim_space seg \<noteq> [] \<and> seg \<noteq> ''.'' \<and> seg \<noteq> ''..'') (split_ch (CHR ''/'') key)"

definition GitHubTokenLifetime :: "'f goval gomap \<Rightarrow> bool option" where
  "GitHubTokenLifetime settings =
     (case map_of settings ''token_lifetime'' of
        None \<Rightarrow> Some False
      | Some (GStr s) \<Rightarrow>
          if s = ''expiring'' then Some True
          else if s = [] \<or> s = ''non-expiring'' then Some False
          else None
      | Some _ \<Rightarrow> None)"

definition settings_map :: "'f enrolment \<Rightarrow> 'f goval gomap" where
  "settings_map e = (case Settings e of None \<Rightarrow> [] | Some m \<Rightarrow> m)"

definition validateEnrolment :: "(string \<Rightarrow> int option) \<Rightarrow> string \<Rightarrow> 'f enrolment \<Rightarrow> bool" where
  "validateEnrolment std key e \<longleftrightarrow>
     trim_space key \<noteq> [] \<and> validateEnrolmentKey key \<and> Engine e \<noteq> []
   \<and> (case map_of (settings_map e) ''token_ttl'' of
        None \<Rightarrow> True
      | Some (GStr s) \<Rightarrow> (case ParseDuration std s of None \<Rightarrow> False | Some d \<Rightarrow> 10 * 60 * 1000000000 \<le> d)
      | Some _ \<Rightarrow> False)
   \<and> (Engine e = ''github'' \<longrightarrow> GitHubTokenLifetime (settings_map e) \<noteq> None)"

section \<open>Partial documents\<close>

text \<open>The sections a remote document may change, on top of the rest of a configuration.\<close>

record 'f dynamic_config =
  SyncInterval :: string
  Rules :: "rule list"
  Enrolments :: "'f enrolment gomap"

text \<open>\<open>psync\<close> is \<open>None\<close> when the document has no sync section.\<close>

record 'f partial =
  psync :: "string option"
  prules :: "rule list"
  penrolments :: "'f enrolment gomap"

definition rule_index :: "rule list \<Rightarrow> string \<Rightarrow> nat option" where
  "rule_index rs = fold (\<lambda>(i, r) m. m(Name r \<mapsto> i)) (enumerate 0 rs) Map.empty"

definition merge_rule :: "rule \<Rightarrow> rule list \<times> (string \<Rightarrow> nat option) \<Rightarrow> rule list \<times> (string \<Rightarrow> nat option)" where
  "merge_rule r st =
     (case st of (out, index) \<Rightarrow>
        case index (Name r) of
          Some i \<Rightarrow> (out[i := r], index)
        | None \<Rightarrow> (out @ [r], index(Name r \<mapsto> length out)))"

definition mergeRules :: "rule list \<Rightarrow> rule list \<Rightarrow> rule list" where
  "mergeRules base overlay =
     (if overlay = [] then base else fst (fold merge_rule overlay (base, rule_index base)))"

definition put_all :: "'v gomap \<Rightarrow> 'v gomap \<Rightarrow> 'v gomap" where
  "put_all m src = fold (\<lambda>(k, v). mput k v) src m"

definition ApplyPartial :: "('f, 'z) dynamic_config_scheme \<Rightarrow> 'f partial option \<Rightarrow> ('f, 'z) dynamic_config_scheme" where
  "ApplyPartial base p =
     (case p of
        None \<Rightarrow> base
      | Some p \<Rightarrow>
          base\<lparr>SyncInterval := (case psync p of Some i \<Rightarrow> if i \<noteq> [] then i else SyncInterval base | None \<Rightarrow> SyncInterval base),
               Rules := mergeRules (Rules base) (prules p),
               Enrolments := put_all (Enrolments base) (penrolments p)\<rparr>)"

definition no_partial :: "'f partial" where
  "no_partial = \<lparr>psync = None, prules = [], penrolments = []\<rparr>"

definition MergePartial :: "'f partial option \<Rightarrow> 'f partial option \<Rightarrow> 'f partial" where
  "MergePartial dst src =
     (let d = (case dst of None \<Rightarrow> no_partial | Some d \<Rightarrow> d) in
      case src of
        None \<Rightarrow> d
      | Some p \<Rightarrow>
          d\<lparr>psync := (case psync p of Some i \<Rightarrow> if i \<noteq> [] then Some i else psync d | None \<Rightarrow> psync d),
            prules := mergeRules (prules d) (prules p),
            penrolments := put_all (penrolments d) (penrolments p)\<rparr>)"

definition partialStaticSections :: "string list" where
  "partialStaticSections =
     [''agent'', ''bypass_system_config'', ''client_cert'', ''docker'', ''fuse'', ''observability'',
      ''remote_config'', ''vault'', ''web'']"

definition partialDynamicSections :: "string list" where
  "partialDynamicSections = [''sync'', ''rules'', ''enrolments'']"

datatype section_error = LocalOnly string | Misspelt string string

text \<open>The check of one top-level key, and of all in the order Go's map iteration gives them.\<close>

definition section_check :: "string list \<Rightarrow> string list \<Rightarrow> string \<Rightarrow> section_error option" where
  "section_check static dynamic key =
     (let lower = to_lower key in
      if lower \<in> set static then Some (LocalOnly key)
      else if lower \<in> set dynamic \<and> key \<noteq> lower then Some (Misspelt key lower)
      else None)"

fun first_error :: "('k \<Rightarrow> 'e option) \<Rightarrow> 'k list \<Rightarrow> 'e option" where
  "first_error f [] = None"
| "first_error f (k # ks) = (case f k of Some e \<Rightarrow> Some e | None \<Rightarrow> first_error f ks)"

definition ParsePartial :: "(string list \<Rightarrow> 'f partial) \<Rightarrow> string list \<Rightarrow> section_error + 'f partial" where
  "ParsePartial decode keys =
     (case first_error (section_check partialStaticSections partialDynamicSections) keys of
        Some e \<Rightarrow> Inl e
      | None \<Rightarrow> Inr (decode keys))"

definition Partial_Validate :: "(string \<Rightarrow> int option) \<Rightarrow> 'f partial \<Rightarrow> bool" where
  "Partial_Validate std p \<longleftrightarrow>
     (case psync p of Some i \<Rightarrow> i = [] \<or> std i \<noteq> None | None \<Rightarrow> True)
   \<and> is_ok (validateRules 0 (prules p) {})
   \<and> list_all (\<lambda>(key, e). validateEnrolment std key e) (penrolments p)"

section \<open>Peer sockets\<close>

text \<open>\<open>vault.token_socket\<close>: \<open>None\<close> is the absent key, \<open>Some []\<close> switches peer sockets off.\<close>

type_synonym socket_list = "string list option"

datatype socket_node = SNull | SScalar string | SSeq "string list" | SOther

definition LegacyPeerSocket :: string where
  "LegacyPeerSocket = ''~/.ssh/dotvault.sock''"

definition PerHostPeerSocketGlob :: string where
  "PerHostPeerSocketGlob = ''~/.ssh/dotvault.*.sock''"

definition DefaultPeerSocketPatterns :: "string list" where
  "DefaultPeerSocketPatterns = [LegacyPeerSocket, PerHostPeerSocketGlob]"

definition ExpandLegacyScalar :: "string \<Rightarrow> string list" where
  "ExpandLegacyScalar v = (if v = LegacyPeerSocket then [LegacyPeerSocket, PerHostPeerSocketGlob] else [v])"

definition SocketList_MarshalYAML :: "socket_list \<Rightarrow> socket_node" where
  "SocketList_MarshalYAML s = (case s of None \<Rightarrow> SNull | Some ps \<Rightarrow> SSeq ps)"

fun SocketList_UnmarshalYAML :: "socket_node \<Rightarrow> socket_list option" where
  "SocketList_UnmarshalYAML SNull = Some None"
| "SocketList_UnmarshalYAML (SScalar v) = Some (Some (if v = [] then [] else ExpandLegacyScalar v))"
| "SocketList_UnmarshalYAML (SSeq ps) = Some (Some ps)"
| "SocketList_UnmarshalYAML SOther = None"

datatype socket_error = PatEmpty | PatNUL | PatUser | PatRelative | PatDotDot | PatGlobDir

text \<open>The segments between slashes of either kind (\<open>strings.FieldsFunc\<close>), and the directory.\<close>

definition slash :: "char \<Rightarrow> bool" where
  "slash c \<longleftrightarrow> c = CHR ''/'' \<or> c = CHR 0x5C"

fun path_fields :: "string \<Rightarrow> string \<Rightarrow> string list" where
  "path_fields acc [] = (if acc = [] then [] else [rev acc])"
| "path_fields acc (c # s) =
     (if slash c then (if acc = [] then path_fields [] s else rev acc # path_fields [] s)
      else path_fields (c # acc) s)"

definition pattern_dir :: "string \<Rightarrow> string" where
  "pattern_dir p = rev (dropWhile (\<lambda>c. \<not> slash c) (rev p))"

definition ValidateSocketPattern :: "(string \<Rightarrow> bool) \<Rightarrow> string \<Rightarrow> socket_error option" where
  "ValidateSocketPattern isAbs p =
     (if p = [] then Some PatEmpty
      else if CHR 0x00 \<in> set p then Some PatNUL
      else if \<not> (has_prefix ''~/'' p \<or> p = ''~'') \<and> has_prefix ''~'' p then Some PatUser
      else if \<not> (has_prefix ''~/'' p \<or> p = ''~'') \<and> \<not> isAbs p then Some PatRelative
      else if list_ex (\<lambda>seg. seg = ''..'') (path_fields [] p) then Some PatDotDot
      else if list_ex (\<lambda>c. c \<in> set ''*?['') (pattern_dir p) then Some PatGlobDir
      else None)"

definition peerSocketPatterns :: "socket_list \<Rightarrow> string list" where
  "peerSocketPatterns s = (case s of None \<Rightarrow> DefaultPeerSocketPatterns | Some ps \<Rightarrow> ps)"

definition validateTokenSockets :: "(string \<Rightarrow> bool) \<Rightarrow> socket_list \<Rightarrow> socket_error option" where
  "validateTokenSockets isAbs s = first_error (ValidateSocketPattern isAbs) (case s of None \<Rightarrow> [] | Some ps \<Rightarrow> ps)"

text \<open>\<open>api\<close> is \<open>apiSocketCandidate\<close>: empty when no local socket exists.\<close>

definition apiSocketCandidate :: "bool \<Rightarrow> bool \<Rightarrow> string \<Rightarrow> string \<Rightarrow> string" where
  "apiSocketCandidate on windows path fallback =
     (if \<not> on \<or> windows then [] else if path \<noteq> [] then path else fallback)"

definition TokenBorrowSockets :: "string \<Rightarrow> socket_list \<Rightarrow> string list" where
  "TokenBorrowSockets api s = (if api \<noteq> [] then [api] else []) @ peerSocketPatterns s"

section \<open>The user's overlay\<close>

record fuse_config =
  FEnabled :: bool
  FMountpoint :: string
  FReadWrite :: bool
  FCacheTTL :: int
  FRawCacheTTL :: string

record user_fuse =
  UEnabled :: "bool option"
  UMountpoint :: string
  UReadWrite :: "bool option"
  UCacheTTL :: string

definition isAbsMountpoint :: "(string \<Rightarrow> bool) \<Rightarrow> string \<Rightarrow> bool" where
  "isAbsMountpoint isAbs p \<longleftrightarrow> has_prefix ''~'' p \<or> has_prefix ''/'' p \<or> isAbs p"

definition DefaultFUSECacheTTL :: int where
  "DefaultFUSECacheTTL = 30 * 1000000000"

definition MaxFUSECacheTTL :: int where
  "MaxFUSECacheTTL = 600 * 1000000000"

definition validateFUSE :: "(string \<Rightarrow> int option) \<Rightarrow> (string \<Rightarrow> bool) \<Rightarrow> fuse_config \<Rightarrow> fuse_config option" where
  "validateFUSE std isAbs f =
     (if FMountpoint f \<noteq> [] \<and> \<not> isAbsMountpoint isAbs (FMountpoint f) then None
      else if FRawCacheTTL f = [] then Some (f\<lparr>FCacheTTL := DefaultFUSECacheTTL\<rparr>)
      else case ParseDuration std (FRawCacheTTL f) of
        None \<Rightarrow> None
      | Some d \<Rightarrow> if d < 0 \<or> MaxFUSECacheTTL < d then None else Some (f\<lparr>FCacheTTL := d\<rparr>))"

definition overlay_fuse :: "user_fuse \<Rightarrow> fuse_config \<Rightarrow> fuse_config" where
  "overlay_fuse u f =
     f\<lparr>FEnabled := (case UEnabled u of None \<Rightarrow> FEnabled f | Some b \<Rightarrow> FEnabled f \<or> b),
       FReadWrite := (case UReadWrite u of None \<Rightarrow> FReadWrite f | Some b \<Rightarrow> FReadWrite f \<and> b),
       FMountpoint := (if UMountpoint u \<noteq> [] then UMountpoint u else FMountpoint f),
       FRawCacheTTL := (if UCacheTTL u \<noteq> [] then UCacheTTL u else FRawCacheTTL f)\<rparr>"

definition ApplyUser :: "(string \<Rightarrow> int option) \<Rightarrow> (string \<Rightarrow> bool) \<Rightarrow> fuse_config \<Rightarrow> user_fuse option \<Rightarrow> fuse_config option" where
  "ApplyUser std isAbs f u =
     (case u of None \<Rightarrow> Some f | Some u \<Rightarrow> validateFUSE std isAbs (overlay_fuse u f))"

text \<open>The sections of \<open>Config\<close>, from its YAML tags.\<close>

definition configSectionNames :: "string list" where
  "configSectionNames =
     [''vault'', ''sync'', ''web'', ''observability'', ''agent'', ''api'', ''fuse'', ''docker'', ''client_cert'',
      ''ssh'', ''remote_config'', ''rules'', ''enrolments'', ''bypass_system_config'']"

definition userOverridableSections :: "string list" where
  "userOverridableSections = [''fuse'']"

definition user_section_check :: "string \<Rightarrow> section_error option" where
  "user_section_check key =
     (let lower = to_lower key in
      if lower \<in> set userOverridableSections then (if key \<noteq> lower then Some (Misspelt key lower) else None)
      else if lower \<in> set configSectionNames then Some (LocalOnly key)
      else None)"

text \<open>\<open>LoadUserConfig\<close>: the file and its directory must not be writable by others.\<close>

datatype 'c loaded = NoUserConfig | UserConfig 'c | UserRefused

definition LoadUserConfig :: "string list option option \<Rightarrow> bool option \<Rightarrow> bool option \<Rightarrow> (string list \<Rightarrow> 'c) \<Rightarrow> 'c loaded" where
  "LoadUserConfig doc file_writable dir_writable decode =
     (case doc of
        None \<Rightarrow> NoUserConfig
      | Some keys \<Rightarrow>
          if file_writable \<noteq> Some False \<or> dir_writable \<noteq> Some False then UserRefused
          else case keys of
            None \<Rightarrow> UserRefused
          | Some ks \<Rightarrow> (case first_error user_section_check ks of Some e \<Rightarrow> UserRefused | None \<Rightarrow> UserConfig (decode ks)))"

section \<open>Merging rules\<close>

abbreviation names :: "rule list \<Rightarrow> string list" where
  "names rs \<equiv> map Name rs"

definition rule_of :: "rule list \<Rightarrow> string \<Rightarrow> rule option" where
  "rule_of rs n = map_of (map (\<lambda>r. (Name r, r)) (rev rs)) n"

lemma rule_of_Nil [simp]: "rule_of [] n = None"
  by (simp add: rule_of_def)

lemma rule_of_snoc [simp]: "rule_of (rs @ [r]) n = (if n = Name r then Some r else rule_of rs n)"
  by (simp add: rule_of_def)

lemma rule_of_None: "rule_of rs n = None \<longleftrightarrow> n \<notin> set (names rs)"
  by (auto simp: rule_of_def map_of_eq_None_iff image_comp)

lemma rule_of_nth:
  assumes "distinct (names rs)" "i < length rs"
  shows "rule_of rs (Name (rs ! i)) = Some (rs ! i)"
proof -
  have "distinct (map fst (map (\<lambda>r. (Name r, r)) (rev rs)))" using assms(1) by (simp add: comp_def rev_map [symmetric])
  then show ?thesis unfolding rule_of_def using assms(2) by (intro map_of_is_SomeI) auto
qed

lemma rules_ext:
  assumes "distinct (names rs)" "names rs = names rs'" "rule_of rs = rule_of rs'"
  shows "rs = rs'"
proof (rule nth_equalityI)
  show l: "length rs = length rs'" using assms(2) by (metis length_map)
  fix i assume i: "i < length rs"
  have "Name (rs ! i) = Name (rs' ! i)" using assms(2) i l by (metis nth_map)
  then have "Some (rs ! i) = Some (rs' ! i)"
    using rule_of_nth [OF assms(1) i] rule_of_nth [of rs' i] assms i l by metis
  then show "rs ! i = rs' ! i" by simp
qed

definition index_ok :: "rule list \<Rightarrow> (string \<Rightarrow> nat option) \<Rightarrow> bool" where
  "index_ok out index \<longleftrightarrow> distinct (names out)
     \<and> (\<forall>n. index n = None \<longleftrightarrow> n \<notin> set (names out))
     \<and> (\<forall>n i. index n = Some i \<longrightarrow> i < length out \<and> Name (out ! i) = n)"

lemma index_ok_append:
  assumes "index_ok out index" "Name r \<notin> set (names out)"
  shows "index_ok (out @ [r]) (index(Name r \<mapsto> length out))"
  using assms by (fastforce simp: index_ok_def nth_append)

lemma index_ok_replace:
  assumes "index_ok out index" "index (Name r) = Some i"
  shows "index_ok (out[i := r]) index" "names (out[i := r]) = names out" "i < length out" "Name (out ! i) = Name r"
proof -
  show i: "i < length out" "Name (out ! i) = Name r" using assms by (auto simp: index_ok_def)
  then show n: "names (out[i := r]) = names out" by (simp add: map_update list_update_same_conv [symmetric]) (metis list_update_id nth_map)
  show "index_ok (out[i := r]) index"
    using assms(1) i unfolding index_ok_def n by (auto simp: nth_list_update)
qed

lemma rule_index_ok: "distinct (names rs) \<Longrightarrow> index_ok rs (rule_index rs)"
proof (induction rs rule: rev_induct)
  case (snoc r rs)
  then have "index_ok (rs @ [r]) ((rule_index rs)(Name r \<mapsto> length rs))" by (intro index_ok_append) auto
  moreover have "rule_index (rs @ [r]) = (rule_index rs)(Name r \<mapsto> length rs)" by (simp add: rule_index_def enumerate_append_eq)
  ultimately show ?case by (simp only:)
qed (simp add: rule_index_def index_ok_def)

lemma rule_of_replace:
  assumes "distinct (names out)" "i < length out" "Name (out ! i) = Name r"
  shows "rule_of (out[i := r]) n = (if n = Name r then Some r else rule_of out n)"
proof -
  have nm: "names (out[i := r]) = names out" using assms(2,3) by (metis list_update_id map_update nth_map)
  show ?thesis
  proof (cases "n \<in> set (names out)")
    case True
    then obtain j where j: "j < length out" "Name (out ! j) = n" by (auto simp: in_set_conv_nth)
    have "rule_of (out[i := r]) n = Some (out[i := r] ! j)"
      using rule_of_nth [of "out[i := r]" j] assms j nm by (metis length_list_update nth_map)
    moreover have "rule_of out n = Some (out ! j)" using rule_of_nth [OF assms(1) j(1)] j(2) by simp
    moreover have "j = i \<longleftrightarrow> n = Name r" using assms j by (auto simp: distinct_conv_nth) (metis nth_map)
    ultimately show ?thesis using assms(2) by (auto simp: nth_list_update)
  next
    case False
    moreover have "Name r \<in> set (names out)" using assms(2,3) by (metis length_map nth_map nth_mem)
    ultimately show ?thesis using nm rule_of_None by metis
  qed
qed

text \<open>The names that are new, in the order of their first occurrence.\<close>

fun new_names :: "string set \<Rightarrow> string list \<Rightarrow> string list" where
  "new_names S [] = []"
| "new_names S (n # ns) = (if n \<in> S then new_names S ns else n # new_names (insert n S) ns)"

lemma merge_rule_new: "index (Name r) = None \<Longrightarrow> merge_rule r (out, index) = (out @ [r], index(Name r \<mapsto> length out))"
  by (simp add: merge_rule_def)

lemma merge_rule_old: "index (Name r) = Some i \<Longrightarrow> merge_rule r (out, index) = (out[i := r], index)"
  by (simp add: merge_rule_def)

definition overlaid :: "rule list \<Rightarrow> rule list \<Rightarrow> string \<Rightarrow> rule option" where
  "overlaid out ov n = (case rule_of ov n of None \<Rightarrow> rule_of out n | Some r \<Rightarrow> Some r)"

lemma overlaid_Cons:
  assumes "\<And>n. rule_of out' n = (if n = Name r then Some r else rule_of out n)"
  shows "overlaid out' ov = overlaid out (r # ov)"
  using assms by (auto simp: overlaid_def rule_of_def map_add_def fun_eq_iff split: option.splits)

lemma merge_fold:
  assumes "index_ok out index" "fold merge_rule ov (out, index) = (out', index')"
  shows "index_ok out' index' \<and> names out' = names out @ new_names (set (names out)) (names ov)
    \<and> rule_of out' = overlaid out ov"
  using assms
proof (induction ov arbitrary: out index)
  case Nil
  then show ?case by (simp add: overlaid_def fun_eq_iff)
next
  case (Cons r ov)
  show ?case
  proof (cases "index (Name r)")
    case None
    then have n: "Name r \<notin> set (names out)" using Cons.prems(1) by (auto simp: index_ok_def)
    have "overlaid (out @ [r]) ov = overlaid out (r # ov)" by (rule overlaid_Cons) simp
    moreover have "fold merge_rule ov (out @ [r], index(Name r \<mapsto> length out)) = (out', index')"
      using Cons.prems(2) merge_rule_new [where index = index, OF None] by (simp only: fold_simps comp_def)
    note Cons.IH [OF index_ok_append [OF Cons.prems(1) n] this]
    ultimately show ?thesis using n by simp
  next
    case (Some i)
    note rep = index_ok_replace [OF Cons.prems(1) Some]
    have "distinct (names out)" using Cons.prems(1) by (simp add: index_ok_def)
    then have "overlaid (out[i := r]) ov = overlaid out (r # ov)"
      by (intro overlaid_Cons rule_of_replace rep(3,4))
    moreover have "Name r \<in> set (names out)" using rep(3,4) by (metis length_map nth_map nth_mem)
    ultimately show ?thesis using Cons.IH [OF rep(1)] Cons.prems(2) rep(2) by (simp add: merge_rule_old [where index = index, OF Some])
  qed
qed

lemma mergeRules_spec:
  assumes "distinct (names base)"
  shows "distinct (names (mergeRules base ov))"
    "names (mergeRules base ov) = names base @ new_names (set (names base)) (names ov)"
    "rule_of (mergeRules base ov) = overlaid base ov"
proof -
  obtain out index where f: "fold merge_rule ov (base, rule_index base) = (out, index)" by fastforce
  note m = merge_fold [OF rule_index_ok [OF assms] f]
  have eq: "mergeRules base ov = out" using f by (auto simp: mergeRules_def)
  show "distinct (names (mergeRules base ov))" using m unfolding eq index_ok_def by blast
  show "names (mergeRules base ov) = names base @ new_names (set (names base)) (names ov)" using m unfolding eq by simp
  show "rule_of (mergeRules base ov) = overlaid base ov" using m unfolding eq by simp
qed

lemma new_names_append: "new_names S (xs @ ys) = new_names S xs @ new_names (S \<union> set xs) ys"
  by (induction S xs rule: new_names.induct) (auto simp: insert_absorb)

lemma new_names_sub: "set (new_names T xs) \<subseteq> set xs" "set xs \<subseteq> T \<union> set (new_names T xs)"
  by (induction T xs rule: new_names.induct) auto

lemma new_names_new: "T \<subseteq> S \<Longrightarrow> new_names S (new_names T xs) = new_names S xs"
proof (induction T xs arbitrary: S rule: new_names.induct)
  case (2 T n ns)
  then show ?case using 2 by (cases "n \<in> T"; cases "n \<in> S") (auto simp: insert_absorb)
qed simp

lemma mergeRules_assoc:
  assumes "distinct (names b)" "distinct (names p)"
  shows "mergeRules (mergeRules b p) q = mergeRules b (mergeRules p q)"
proof (rule rules_ext)
  note bp = mergeRules_spec [OF assms(1), of p]
  note l = mergeRules_spec [OF bp(1), of q]
  note pq = mergeRules_spec [OF assms(2), of q] and r = mergeRules_spec [OF assms(1), of "mergeRules p q"]
  show "distinct (names (mergeRules (mergeRules b p) q))" by (rule l(1))
  have "set (names (mergeRules b p)) = set (names b) \<union> set (names p)"
    using new_names_sub [where T = "set (names b)" and xs = "names p"] unfolding bp(2) by auto
  then show "names (mergeRules (mergeRules b p) q) = names (mergeRules b (mergeRules p q))"
    unfolding l(2) r(2) bp(2) pq(2) by (simp add: new_names_append new_names_new)
  show "rule_of (mergeRules (mergeRules b p) q) = rule_of (mergeRules b (mergeRules p q))"
    by (rule ext) (simp add: l(3) r(3) overlaid_def bp(3) pq(3) split: option.split)
qed

section \<open>Merging maps, checking sections\<close>

lemma keys_ok_rev: "keys_ok m \<Longrightarrow> map_of (rev m) = map_of m"
proof
  fix k
  assume "keys_ok m"
  then have d: "distinct (map fst m)" "distinct (map fst (rev m))" by (simp_all add: keys_ok_distinct rev_map [symmetric])
  show "map_of (rev m) k = map_of m k"
  proof (cases "map_of m k")
    case None
    then have "map_of (rev m) k = None" by (simp add: map_of_eq_None_iff rev_map)
    with None show ?thesis by simp
  next
    case (Some v)
    then have "(k, v) \<in> set (rev m)" by (simp add: map_of_SomeD)
    with d(2) Some show ?thesis by (metis map_of_eq_Some_iff)
  qed
qed

lemma put_all_keys [simp]: "keys_ok m \<Longrightarrow> keys_ok (put_all m src)"
  by (induction src arbitrary: m) (auto simp: put_all_def)

lemma map_of_put_all: "map_of (put_all m src) = map_of m ++ map_of (rev src)"
  by (induction src arbitrary: m) (auto simp: put_all_def map_add_def fun_eq_iff split: option.splits)

lemma put_all_assoc:
  assumes "keys_ok m" "keys_ok p" "keys_ok q"
  shows "put_all (put_all m p) q = put_all m (put_all p q)"
  using assms by (intro keys_ok_ext) (simp_all add: map_of_put_all keys_ok_rev)

lemma first_error_None: "first_error f ks = None \<longleftrightarrow> (\<forall>k \<in> set ks. f k = None)"
  by (induction ks) (auto split: option.splits)

lemma section_check_None:
  "section_check static dynamic key = None
     \<longleftrightarrow> to_lower key \<notin> set static \<and> (to_lower key \<in> set dynamic \<longrightarrow> key = to_lower key)"
  by (auto simp: section_check_def Let_def)

lemma remote_sections_accepts:
  "is_ok (ParsePartial decode keys) \<longleftrightarrow>
     (\<forall>key \<in> set keys. to_lower key \<notin> set partialStaticSections
        \<and> (to_lower key \<in> set partialDynamicSections \<longrightarrow> key = to_lower key))"
  using first_error_None [of "section_check partialStaticSections partialDynamicSections" keys]
  by (auto simp: ParsePartial_def section_check_None split: option.splits)

section \<open>Segments of a socket pattern\<close>

definition forward_slashes :: "string \<Rightarrow> string" where
  "forward_slashes p = map (\<lambda>c. if slash c then CHR ''/'' else c) p"

lemma path_fields_split:
  "CHR ''/'' \<notin> set acc \<Longrightarrow>
    path_fields acc p = filter (\<lambda>seg. seg \<noteq> []) (split_ch (CHR ''/'') (rev acc @ forward_slashes p))"
proof (induction acc p rule: path_fields.induct)
  case (1 acc)
  then show ?case by (simp add: forward_slashes_def split_ch_no_sep)
next
  case (2 acc c s)
  have sep: "slash c \<Longrightarrow> split_ch (CHR ''/'') (rev acc @ forward_slashes (c # s)) = rev acc # split_ch (CHR ''/'') (forward_slashes s)"
    using 2(4) split_ch_append [of "CHR ''/''" "rev acc" "forward_slashes s"] by (simp add: forward_slashes_def)
  show ?case
  proof (cases "slash c")
    case True
    then show ?thesis using 2(1,2) sep [OF True] by simp
  next
    case False
    then have "c \<noteq> CHR ''/''" by (auto simp: slash_def)
    with 2(3) [OF False] 2(4) False show ?thesis by (simp add: forward_slashes_def)
  qed
qed

lemma has_dotdot_segment: "''..'' \<in> set (path_fields [] p) \<longleftrightarrow> ''..'' \<in> set (split_ch (CHR ''/'') (forward_slashes p))"
  by (simp add: path_fields_split)

text \<open>The directory of a pattern is everything up to its last slash.\<close>

lemma pattern_dir_split: "\<exists>base. p = pattern_dir p @ base \<and> (\<forall>c \<in> set base. \<not> slash c)"
proof -
  have "rev p = takeWhile (\<lambda>c. \<not> slash c) (rev p) @ dropWhile (\<lambda>c. \<not> slash c) (rev p)" by simp
  then have "p = pattern_dir p @ rev (takeWhile (\<lambda>c. \<not> slash c) (rev p))"
    unfolding pattern_dir_def by (metis rev_append rev_rev_ident)
  then show ?thesis by (intro exI conjI) (auto dest: set_takeWhileD)
qed

lemma pattern_dir_end: "pattern_dir p = [] \<or> slash (last (pattern_dir p))"
proof (cases "dropWhile (\<lambda>c. \<not> slash c) (rev p)")
  case (Cons c cs)
  then have "slash c" by (metis hd_dropWhile list.distinct(1) list.sel(1))
  with Cons show ?thesis by (simp add: pattern_dir_def)
qed (simp add: pattern_dir_def)

lemma validateFUSE_ok:
  assumes "validateFUSE std isAbs f = Some f'"
  shows "f' = f\<lparr>FCacheTTL := FCacheTTL f'\<rparr>" "0 \<le> FCacheTTL f'" "FCacheTTL f' \<le> MaxFUSECacheTTL"
    "FMountpoint f = [] \<or> isAbsMountpoint isAbs (FMountpoint f)" "validateFUSE std isAbs (f\<lparr>FCacheTTL := d\<rparr>) = Some f'"
  using assms by (auto simp: validateFUSE_def DefaultFUSECacheTTL_def MaxFUSECacheTTL_def split: option.splits if_splits)

lemma pattern_accepted:
  "ValidateSocketPattern isAbs p = None \<longleftrightarrow>
     p \<noteq> [] \<and> CHR 0x00 \<notin> set p \<and> ((has_prefix ''~/'' p \<or> p = ''~'') \<or> \<not> has_prefix ''~'' p \<and> isAbs p)
     \<and> ''..'' \<notin> set (path_fields [] p) \<and> set (pattern_dir p) \<inter> set ''*?['' = {}"
proof -
  have d: "list_ex (\<lambda>c. c \<in> set ''*?['') (pattern_dir p) \<longleftrightarrow> set (pattern_dir p) \<inter> set ''*?['' \<noteq> {}"
    "list_ex (\<lambda>seg. seg = ''..'') (path_fields [] p) \<longleftrightarrow> ''..'' \<in> set (path_fields [] p)"
    by (auto simp only: list_ex_iff)
  show ?thesis unfolding ValidateSocketPattern_def d by (simp only: split: if_split) blast
qed

section \<open>Properties\<close>

text \<open>
  C32. Layers compose: applying two partial documents one after the other is applying their merge,
  so a service that folds its layers serves what clients merging one by one would get;
  whatever a document says, the rest of the configuration is untouched, each rule of the
  result is the last one given for its name, the base's order is kept and new rules follow in
  the order they appear.
\<close>
theorem layers_compose:
  assumes "distinct (names (Rules base))" "distinct (names (prules p))"
    and "keys_ok (Enrolments base)" "keys_ok (penrolments p)" "keys_ok (penrolments q)"
  shows "ApplyPartial (ApplyPartial base (Some p)) (Some q) = ApplyPartial base (Some (MergePartial (Some p) (Some q)))
    \<and> dynamic_config.more (ApplyPartial base (Some p)) = dynamic_config.more base
    \<and> names (Rules (ApplyPartial base (Some p))) = names (Rules base) @ new_names (set (names (Rules base))) (names (prules p))
    \<and> rule_of (Rules (ApplyPartial base (Some p))) n
        = (case rule_of (prules p) n of None \<Rightarrow> rule_of (Rules base) n | Some r \<Rightarrow> Some r)"
proof (intro conjI)
  show "ApplyPartial (ApplyPartial base (Some p)) (Some q) = ApplyPartial base (Some (MergePartial (Some p) (Some q)))"
    using mergeRules_assoc [OF assms(1,2), of "prules q"] put_all_assoc [OF assms(3-5)]
    by (simp add: ApplyPartial_def MergePartial_def Let_def split: option.splits)
qed (simp_all add: ApplyPartial_def mergeRules_spec [OF assms(1)] overlaid_def)



text \<open>
  A peer socket pattern is accepted exactly when it names an absolute or home-relative path
  without NUL, none of whose segments (between slashes of either kind) is dot-dot, and with
  glob characters in the last segment only; the list of patterns survives a round trip through
  YAML, the absent key and the explicit empty list kept apart.
\<close>
theorem socket_patterns_exact:
  "(ValidateSocketPattern isAbs p = None \<longleftrightarrow>
      CHR 0x00 \<notin> set p \<and> ((has_prefix ''~/'' p \<or> p = ''~'') \<or> p \<noteq> [] \<and> \<not> has_prefix ''~'' p \<and> isAbs p)
    \<and> ''..'' \<notin> set (split_ch (CHR ''/'') (forward_slashes p))
    \<and> (\<exists>dir base. p = dir @ base \<and> (dir = [] \<or> slash (last dir)) \<and> (\<forall>c \<in> set base. \<not> slash c)
         \<and> set dir \<inter> set ''*?['' = {}))
   \<and> SocketList_UnmarshalYAML (SocketList_MarshalYAML s) = Some s
   \<and> (s = None \<longrightarrow> validateTokenSockets isAbs (Some (peerSocketPatterns s)) = None)"
proof (intro conjI impI)
  have uniq: "dir = pattern_dir p" if p: "p = dir @ base" and d: "dir = [] \<or> slash (last dir)" and b: "\<forall>c \<in> set base. \<not> slash c"
    for dir base
  proof (cases "dir = []")
    case True
    with p b show ?thesis by (simp add: pattern_dir_def dropWhile_eq_Nil_conv)
  next
    case False
    then obtain ds l where l: "dir = ds @ [l]" "slash l" using d by (metis append_butlast_last_id)
    have "dropWhile (\<lambda>c. \<not> slash c) (rev base @ l # rev ds) = l # rev ds"
      using b l(2) by (subst dropWhile_append2) auto
    with p l show ?thesis by (simp add: pattern_dir_def)
  qed
  have D: "(\<exists>dir base. p = dir @ base \<and> (dir = [] \<or> slash (last dir)) \<and> (\<forall>c \<in> set base. \<not> slash c) \<and> set dir \<inter> set ''*?['' = {})
      \<longleftrightarrow> set (pattern_dir p) \<inter> set ''*?['' = {}"
    (is "?L \<longleftrightarrow> ?R")
  proof
    assume ?L
    obtain dir base where d: "p = dir @ base" "dir = [] \<or> slash (last dir)" "\<forall>c \<in> set base. \<not> slash c"
      "set dir \<inter> set ''*?['' = {}" using \<open>?L\<close> by (elim exE conjE)
    have "dir = pattern_dir p" by (rule uniq [OF d(1-3)])
    with d(4) show ?R by (simp only:)
  next
    assume r: ?R
    obtain base where "p = pattern_dir p @ base" "\<forall>c \<in> set base. \<not> slash c" using pattern_dir_split [of p] by (elim exE conjE)
    with r pattern_dir_end [of p] show ?L by (intro exI conjI)
  qed
  have taut: "(P \<Longrightarrow> e) \<Longrightarrow> (e \<and> N \<and> (P \<or> \<not> Q \<and> I) \<and> X \<and> G) = (N \<and> (P \<or> e \<and> \<not> Q \<and> I) \<and> X \<and> G)"
    for e N P Q I X G :: bool by blast
  have np: "has_prefix ''~/'' p \<or> p = ''~'' \<Longrightarrow> p \<noteq> []" by (auto simp: has_prefix_iff)
  show "ValidateSocketPattern isAbs p = None \<longleftrightarrow>
      CHR 0x00 \<notin> set p \<and> ((has_prefix ''~/'' p \<or> p = ''~'') \<or> p \<noteq> [] \<and> \<not> has_prefix ''~'' p \<and> isAbs p)
    \<and> ''..'' \<notin> set (split_ch (CHR ''/'') (forward_slashes p))
    \<and> (\<exists>dir base. p = dir @ base \<and> (dir = [] \<or> slash (last dir)) \<and> (\<forall>c \<in> set base. \<not> slash c)
         \<and> set dir \<inter> set ''*?['' = {})"
    unfolding has_dotdot_segment [symmetric] pattern_accepted D by (rule taut [OF np])
  show "SocketList_UnmarshalYAML (SocketList_MarshalYAML s) = Some s"
    by (simp add: SocketList_MarshalYAML_def split: option.split)
  assume "s = None"
  moreover have "ValidateSocketPattern isAbs LegacyPeerSocket = None" "ValidateSocketPattern isAbs PerHostPeerSocketGlob = None"
    by (code_simp, code_simp)
  ultimately show "validateTokenSockets isAbs (Some (peerSocketPatterns s)) = None"
    by (simp add: validateTokenSockets_def peerSocketPatterns_def DefaultPeerSocketPatterns_def)
qed

text \<open>
  C34. The user's overlay is a ratchet: it can switch the mount on but not off, writing off but not
  on, moves nothing but the filesystem section, keeps the cache window within ten minutes
  and the mount point absolute, and applying it twice is applying it once.
\<close>
theorem user_overlay_ratchet:
  assumes "ApplyUser std isAbs f (Some u) = Some f'"
  shows "(FEnabled f \<longrightarrow> FEnabled f') \<and> (FReadWrite f' \<longrightarrow> FReadWrite f)
    \<and> 0 \<le> FCacheTTL f' \<and> FCacheTTL f' \<le> MaxFUSECacheTTL
    \<and> (FMountpoint f' = [] \<or> isAbsMountpoint isAbs (FMountpoint f'))
    \<and> ApplyUser std isAbs f' (Some u) = Some f'"
proof -
  have v: "validateFUSE std isAbs (overlay_fuse u f) = Some f'" using assms by (simp add: ApplyUser_def)
  note ok = validateFUSE_ok [OF v]
  have again: "overlay_fuse u f' = (overlay_fuse u f)\<lparr>FCacheTTL := FCacheTTL f'\<rparr>"
    by (subst ok(1)) (simp add: overlay_fuse_def split: option.split)
  have f': "FEnabled f' = FEnabled (overlay_fuse u f)" "FReadWrite f' = FReadWrite (overlay_fuse u f)"
    "FMountpoint f' = FMountpoint (overlay_fuse u f)" by (subst ok(1), simp)+
  have "(FEnabled f \<longrightarrow> FEnabled f') \<and> (FReadWrite f' \<longrightarrow> FReadWrite f)"
    unfolding f' by (simp add: overlay_fuse_def split: option.split)
  moreover have "ApplyUser std isAbs f' (Some u) = Some f'" using ok(5) by (simp add: ApplyUser_def again)
  ultimately show ?thesis using ok(2-4) f'(3) by simp
qed

theorem user_overlay_ratchet_witness:
  "ApplyUser (\<lambda>_. None) (\<lambda>_. False) \<lparr>FEnabled = False, FMountpoint = [], FReadWrite = True, FCacheTTL = DefaultFUSECacheTTL, FRawCacheTTL = []\<rparr>
      (Some \<lparr>UEnabled = Some True, UMountpoint = ''~/s'', UReadWrite = Some False, UCacheTTL = []\<rparr>)
    = Some \<lparr>FEnabled = True, FMountpoint = ''~/s'', FReadWrite = False, FCacheTTL = DefaultFUSECacheTTL, FRawCacheTTL = []\<rparr>
   \<and> DefaultFUSECacheTTL \<le> MaxFUSECacheTTL"
proof -
  have "ApplyUser (\<lambda>_. None) (\<lambda>_. False) \<lparr>FEnabled = False, FMountpoint = [], FReadWrite = True, FCacheTTL = DefaultFUSECacheTTL, FRawCacheTTL = []\<rparr>
      (Some \<lparr>UEnabled = Some True, UMountpoint = ''~/s'', UReadWrite = Some False, UCacheTTL = []\<rparr>)
    = Some \<lparr>FEnabled = True, FMountpoint = ''~/s'', FReadWrite = False, FCacheTTL = DefaultFUSECacheTTL, FRawCacheTTL = []\<rparr>"
    by (simp add: ApplyUser_def validateFUSE_def overlay_fuse_def isAbsMountpoint_def has_prefix_iff)
  with user_overlay_ratchet [OF this] show ?thesis by simp
qed

theorem layers_compose_witness:
  "let r = \<lambda>n t. \<lparr>Name = n, VaultKey = ''k'', Target = \<lparr>Path = t, Format = ''text'', Template = [], MergeOpt = [], DeleteNulls = False\<rparr>\<rparr>;
       base = \<lparr>SyncInterval = ''15m'', Rules = [r ''a'' ''1'', r ''b'' ''1''], Enrolments = []\<rparr>;
       p = \<lparr>psync = None, prules = [r ''c'' ''2'', r ''a'' ''2''], penrolments = []\<rparr>;
       q = \<lparr>psync = Some ''5m'', prules = [r ''c'' ''3''], penrolments = []\<rparr>
   in ApplyPartial (ApplyPartial base (Some p)) (Some q) = ApplyPartial base (Some (MergePartial (Some p) (Some (q :: 'f partial))))
     \<and> names (Rules (ApplyPartial base (Some p))) = [''a'', ''b'', ''c'']"
proof -
  let ?r = "\<lambda>n t. \<lparr>Name = n, VaultKey = ''k'', Target = \<lparr>Path = t, Format = ''text'', Template = [], MergeOpt = [], DeleteNulls = False\<rparr>\<rparr>"
  show ?thesis
    using layers_compose [of "\<lparr>SyncInterval = ''15m'', Rules = [?r ''a'' ''1'', ?r ''b'' ''1''], Enrolments = []\<rparr>"
        "\<lparr>psync = None, prules = [?r ''c'' ''2'', ?r ''a'' ''2''], penrolments = []\<rparr>"
        "\<lparr>psync = Some ''5m'', prules = [?r ''c'' ''3''], penrolments = []\<rparr> :: 'f partial"]
    by simp
qed

text \<open>
  Finding: the sections \<open>api\<close> and \<open>ssh\<close> are local-only like the others, but the ban leaves
  them out: a remote document that carries them is accepted.
\<close>
lemma api_and_ssh_not_banned:
  "is_ok (ParsePartial decode [''api'', ''ssh'', ''rules''])"
  "''api'' \<in> set configSectionNames" "''ssh'' \<in> set configSectionNames"
  unfolding remote_sections_accepts by code_simp+

end
