(* ===== verification/ConfigValidate.thy ===== *)
theory ConfigValidate
  imports ConfigLayers
begin

text \<open>
  The validation of a whole configuration (\<open>internal/config\<close>: \<open>config.go\<close>, \<open>docker.go\<close>,
  \<open>clientcert.go\<close>, \<open>remote.go\<close>, \<open>api.go\<close>): each section is checked and given its defaults,
  the result is the configuration the program runs with. Fields no check reads or sets are
  left out. An error is named after the setting it is about.
\<close>

section \<open>Sections\<close>

datatype config_error = Setting string | InRule rule_error | InEnrolment string

text \<open>
  \<open>url.Parse\<close>, \<open>net.ParseIP\<close>, \<open>paths.ValidateLoopback\<close> (which may ask a resolver) and the parser
  of text/template are parameters.
\<close>

record parsed_url =
  UScheme :: string
  UHost :: string
  UHostname :: string
  UHasUser :: bool

text \<open>A template's parse tree; \<open>TOther\<close> is every node without children the check descends into.\<close>

datatype tnode =
    TList "tnode list"
  | TAction tnode
  | TPipe "tnode list"
  | TCommand "tnode list"
  | TField "string list"
  | TVariable "string list"
  | TChain tnode "string list"
  | TBranch tnode tnode "tnode option"
  | TTemplate "tnode option"
  | TOther

record vlib =
  StdDuration :: "string \<Rightarrow> int option"
  IsAbs :: "string \<Rightarrow> bool"
  LoopbackAddr :: "string \<Rightarrow> bool"
  LoopbackIP :: "string \<Rightarrow> bool"
  ParseURL :: "string \<Rightarrow> parsed_url option"
  ParseTemplates :: "string \<Rightarrow> tnode list option"

record mtls_section =
  BootstrapMethod :: string
  CertMount :: string
  CertRole :: string
  MPKIMount :: string
  MPKIRole :: string
  MKeyType :: string
  MKeyBits :: int
  MCommonName :: string
  MTTL :: string
  ReissueBefore :: string
  ReissueBeforeDur :: int
  BYOCert :: string
  BYOKey :: string

record vault_section =
  Address :: string
  KVMount :: string
  UserPrefix :: string
  AuthMethod :: string
  OIDCCallbackPort :: int
  TokenSockets :: socket_list
  BorrowOnly :: bool
  MTLS :: mtls_section

record sync_section =
  RawInterval :: string
  Interval :: int

record web_section =
  WEnabled :: bool
  Listen :: string
  EditablePaths :: "string list"

record obs_signal =
  SEnabled :: "bool option"
  SEndpoint :: string
  SProtocol :: string
  SInsecure :: "bool option"
  SHeaders :: "string gomap option"
  STemporality :: string

record obs_section =
  OEnabled :: bool
  OEndpoint :: string
  OProtocol :: string
  OInsecure :: bool
  OHeaders :: "string gomap option"
  ORawInterval :: string
  OExportInterval :: int
  Metrics :: obs_signal
  Logs :: obs_signal

record agent_key =
  KSource :: string
  KMount :: string
  KRole :: string
  KTTL :: string

record agent_section =
  AEnabled :: bool
  ARelay :: "bool option"
  AKeys :: "agent_key list"

record docker_section =
  DSocket :: string
  DVolumeDir :: string
  DRawCacheTTL :: string
  DCacheTTL :: int

record cert_section =
  CEnabled :: bool
  CPKIRole :: string
  CCommonName :: string
  CRawTTL :: string
  CTTL :: int
  CKeyType :: string
  CKeyBits :: int

record remote_section =
  URL :: string
  RawRefreshInterval :: string
  RefreshInterval :: int
  RHeaders :: "string gomap"

record 'f config =
  Vault :: vault_section
  SyncSec :: sync_section
  Web :: web_section
  Obs :: obs_section
  Agent :: agent_section
  APIPath :: string
  FUSE :: fuse_config
  Docker :: docker_section
  ClientCert :: cert_section
  Remote :: remote_section
  CRules :: "rule list"
  CEnrolments :: "'f enrolment gomap"

section \<open>Keys and certificate authentication\<close>

definition IsMTLSMethod :: "string \<Rightarrow> bool" where
  "IsMTLSMethod m \<longleftrightarrow> m \<in> {''mtls'', ''mtls+tpm'', ''mtls+os''}"

definition or_default :: "string \<Rightarrow> string \<Rightarrow> string" where
  "or_default d s = (if s = [] then d else s)"

definition validateKeyParams :: "string \<Rightarrow> string \<Rightarrow> int \<Rightarrow> config_error + string" where
  "validateKeyParams block keyType bits =
     (let kt = or_default ''ec'' keyType in
      if kt \<notin> {''ec'', ''rsa''} then Inl (Setting (block @ ''.key_type''))
      else if bits \<noteq> 0 \<and> (kt \<noteq> ''rsa'' \<or> bits \<notin> {2048, 3072, 4096, 8192}) then Inl (Setting (block @ ''.key_bits''))
      else Inr kt)"

definition week :: int where
  "week = 7 * day"

definition reissue_duration :: "vlib \<Rightarrow> string \<Rightarrow> int option" where
  "reissue_duration L s =
     (if s = [] then Some week
      else case ParseDuration (StdDuration L) s of None \<Rightarrow> None | Some d \<Rightarrow> if d \<le> 0 then None else Some d)"

definition mtls_defaults :: "string \<Rightarrow> mtls_section \<Rightarrow> mtls_section" where
  "mtls_defaults method m =
     m\<lparr>BootstrapMethod := or_default ''oidc'' (BootstrapMethod m), CertMount := or_default ''cert'' (CertMount m),
       MPKIMount := or_default ''pki'' (MPKIMount m), MKeyType := or_default ''ec'' (MKeyType m),
       MCommonName := or_default ''{{.user}}'' (MCommonName m),
       MTTL := (if method = ''mtls+os'' then or_default ''720h'' (MTTL m) else MTTL m)\<rparr>"

text \<open>The checks in the code's order, on the block with its defaults; the result is the reissue window.\<close>

definition mtls_check :: "vlib \<Rightarrow> string \<Rightarrow> mtls_section \<Rightarrow> config_error + int" where
  "mtls_check L method m =
     (if BootstrapMethod m \<notin> {''ldap'', ''oidc''} then Inl (Setting ''vault.mtls.bootstrap_method'')
      else if CertRole m = [] then Inl (Setting ''vault.mtls.cert_role'')
      else if method = ''mtls+tpm'' \<and> MKeyType m = ''rsa'' then Inl (Setting ''vault.mtls.key_type'')
      else if method = ''mtls+tpm'' \<and> MKeyType m = ''ec'' \<and> MKeyBits m \<noteq> 0 then Inl (Setting ''vault.mtls.key_bits'')
      else case validateKeyParams ''vault.mtls'' (MKeyType m) (MKeyBits m) of
        Inl e \<Rightarrow> Inl e
      | Inr _ \<Rightarrow>
          if (BYOCert m = []) \<noteq> (BYOKey m = []) then Inl (Setting ''vault.mtls.byo'')
          else if method = ''mtls+os'' \<and> BYOCert m \<noteq> [] then Inl (Setting ''vault.mtls.byo'')
          else if MPKIRole m = [] then Inl (Setting ''vault.mtls.pki_role'')
          else case reissue_duration L (ReissueBefore m) of
            None \<Rightarrow> Inl (Setting ''vault.mtls.reissue_before'')
          | Some d \<Rightarrow>
              if MTTL m \<noteq> [] \<and> ParseDuration (StdDuration L) (MTTL m) = None then Inl (Setting ''vault.mtls.ttl'')
              else Inr d)"

definition validateMTLS :: "vlib \<Rightarrow> vault_section \<Rightarrow> config_error + vault_section" where
  "validateMTLS L v =
     (if BorrowOnly v \<or> \<not> IsMTLSMethod (AuthMethod v) then Inr v
      else let m = mtls_defaults (AuthMethod v) (MTLS v) in
        case mtls_check L (AuthMethod v) m of
          Inl e \<Rightarrow> Inl e
        | Inr d \<Rightarrow> Inr (v\<lparr>MTLS := m\<lparr>ReissueBeforeDur := d\<rparr>\<rparr>))"

section \<open>Vault, sync and web\<close>

definition trim_right_slash :: "string \<Rightarrow> string" where
  "trim_right_slash s = rev (dropWhile (\<lambda>c. c = CHR ''/'') (rev s))"

definition default_prefix :: "string \<Rightarrow> string" where
  "default_prefix s = (if s = [] then ''users/'' else trim_right_slash s @ ''/'')"

definition vault_defaults :: "vault_section \<Rightarrow> vault_section" where
  "vault_defaults v =
     v\<lparr>KVMount := or_default ''kv'' (KVMount v),
       UserPrefix := default_prefix (UserPrefix v)\<rparr>"

definition validateVault :: "vlib \<Rightarrow> vault_section \<Rightarrow> config_error + vault_section" where
  "validateVault L v =
     (if Address v = [] then Inl (Setting ''vault.address'')
      else case validateMTLS L (vault_defaults v) of
        Inl e \<Rightarrow> Inl e
      | Inr v' \<Rightarrow>
          if BorrowOnly v' \<and> peerSocketPatterns (TokenSockets v') = [] then Inl (Setting ''vault.borrow_only'')
          else if OIDCCallbackPort v' < 0 \<or> 65535 < OIDCCallbackPort v' then Inl (Setting ''vault.oidc_callback_port'')
          else Inr v')"

definition validateSync :: "vlib \<Rightarrow> sync_section \<Rightarrow> config_error + sync_section" where
  "validateSync L s =
     (if RawInterval s = [] then Inr (s\<lparr>Interval := 15 * 60 * 1000000000\<rparr>)
      else case StdDuration L (RawInterval s) of
        None \<Rightarrow> Inl (Setting ''sync.interval'')
      | Some d \<Rightarrow> Inr (s\<lparr>Interval := d\<rparr>))"

fun validateEditablePaths :: "string list \<Rightarrow> string list \<Rightarrow> string list option" where
  "validateEditablePaths cs [] = Some []"
| "validateEditablePaths cs (r # rs) =
     (case clean_editable_root r of
        Inl e \<Rightarrow> None
      | Inr c \<Rightarrow> if c \<in> set cs then None else map_option ((#) c) (validateEditablePaths (c # cs) rs))"

definition listen_of :: "web_section \<Rightarrow> string" where
  "listen_of w = (if WEnabled w then or_default ''127.0.0.1:8200'' (Listen w) else Listen w)"

definition validateWeb :: "vlib \<Rightarrow> web_section \<Rightarrow> config_error + web_section" where
  "validateWeb L w =
     (if WEnabled w \<and> \<not> LoopbackAddr L (listen_of w) then Inl (Setting ''web.listen'')
      else case validateEditablePaths [] (EditablePaths w) of
        None \<Rightarrow> Inl (Setting ''web.editable_paths'')
      | Some es \<Rightarrow> Inr (w\<lparr>Listen := listen_of w, EditablePaths := es\<rparr>))"

section \<open>Observability\<close>

record resolved_signal =
  REnabled :: bool
  REndpoint :: string
  RProtocol :: string
  RInsecure :: bool
  RSHeaders :: "string gomap option"
  RTemporality :: string

definition ResolveSignal :: "obs_section \<Rightarrow> obs_signal \<Rightarrow> resolved_signal" where
  "ResolveSignal o' sig =
     \<lparr>REnabled = (OEnabled o' \<and> SEnabled sig \<noteq> Some False),
      REndpoint = (if SEndpoint sig \<noteq> [] then SEndpoint sig else OEndpoint o'),
      RProtocol = (if SProtocol sig \<noteq> [] then SProtocol sig else OProtocol o'),
      RInsecure = (case SInsecure sig of Some b \<Rightarrow> b | None \<Rightarrow> OInsecure o'),
      RSHeaders = (if SHeaders sig \<noteq> None then SHeaders sig else OHeaders o'),
      RTemporality = STemporality sig\<rparr>"

definition otlp_protocol :: "string \<Rightarrow> bool" where
  "otlp_protocol p \<longleftrightarrow> to_lower p \<in> {[], ''grpc'', ''http/protobuf''}"

definition otlp_temporality :: "string \<Rightarrow> bool" where
  "otlp_temporality t \<longleftrightarrow> to_lower (trim_space t) \<in> {[], ''cumulative'', ''delta'', ''lowmemory''}"

definition header_ok :: "string \<times> string \<Rightarrow> bool" where
  "header_ok kv \<longleftrightarrow> set (fst kv) \<inter> {CHR 0x0D, CHR 0x0A, CHR '':'', CHR 0x00} = {}
     \<and> set (snd kv) \<inter> {CHR 0x0D, CHR 0x0A, CHR 0x00} = {}"

definition headers_ok :: "string gomap option \<Rightarrow> bool" where
  "headers_ok h = list_all header_ok (case h of None \<Rightarrow> [] | Some m \<Rightarrow> m)"

definition obs_shape :: "obs_section \<Rightarrow> config_error option" where
  "obs_shape o' =
     (if \<not> (otlp_protocol (OProtocol o') \<and> otlp_protocol (SProtocol (Metrics o')) \<and> otlp_protocol (SProtocol (Logs o')))
      then Some (Setting ''observability.protocol'')
      else if \<not> otlp_temporality (STemporality (Metrics o')) then Some (Setting ''observability.metrics.temporality'')
      else if STemporality (Logs o') \<noteq> [] then Some (Setting ''observability.logs.temporality'')
      else if \<not> REnabled (ResolveSignal o' (Metrics o')) \<and> \<not> REnabled (ResolveSignal o' (Logs o'))
      then Some (Setting ''observability.enabled'')
      else None)"

definition obs_interval :: "vlib \<Rightarrow> obs_section \<Rightarrow> int option" where
  "obs_interval L o' =
     (if ORawInterval o' \<noteq> [] then
        (case ParseDuration (StdDuration L) (ORawInterval o') of None \<Rightarrow> None | Some d \<Rightarrow> if d \<le> 0 then None else Some d)
      else if OExportInterval o' < 0 then None else Some (OExportInterval o'))"

definition obs_headers :: "obs_section \<Rightarrow> bool" where
  "obs_headers o' \<longleftrightarrow> headers_ok (OHeaders o') \<and> headers_ok (SHeaders (Metrics o')) \<and> headers_ok (SHeaders (Logs o'))"

definition validateObs :: "vlib \<Rightarrow> obs_section \<Rightarrow> config_error + obs_section" where
  "validateObs L o' =
     (case (if OEnabled o' then obs_shape o' else None) of
        Some e \<Rightarrow> Inl e
      | None \<Rightarrow>
          (case (if OEnabled o' then obs_interval L o' else Some (OExportInterval o')) of
             None \<Rightarrow> Inl (Setting ''observability.export_interval'')
           | Some d \<Rightarrow> if \<not> obs_headers o' then Inl (Setting ''observability.headers'') else Inr (o'\<lparr>OExportInterval := d\<rparr>)))"

section \<open>Agent, sockets, Docker\<close>

definition key_source_ok :: "vlib \<Rightarrow> agent_key \<Rightarrow> bool" where
  "key_source_ok L k \<longleftrightarrow>
     KSource k = ''kv''
   \<or> KSource k = ''vault-ca'' \<and> KMount k \<noteq> [] \<and> KRole k \<noteq> []
     \<and> (KTTL k = [] \<or> (case ParseDuration (StdDuration L) (KTTL k) of None \<Rightarrow> False | Some d \<Rightarrow> 0 < d))"

definition validateAgent :: "vlib \<Rightarrow> agent_section \<Rightarrow> config_error option" where
  "validateAgent L a =
     (if \<not> AEnabled a then None
      else if AKeys a = [] \<and> ARelay a = Some False then Some (Setting ''agent'')
      else if \<not> list_all (key_source_ok L) (AKeys a) then Some (Setting ''agent.keys'')
      else None)"

definition validateAPI :: "vlib \<Rightarrow> string \<Rightarrow> bool" where
  "validateAPI L p \<longleftrightarrow> p = [] \<or> has_prefix ''~'' p \<or> IsAbs L p"

definition DefaultDockerCacheTTL :: int where
  "DefaultDockerCacheTTL = 60 * 1000000000"

definition ValidateDockerTTL :: "int \<Rightarrow> bool" where
  "ValidateDockerTTL d \<longleftrightarrow> 0 < d \<and> d \<le> MaxFUSECacheTTL"

definition docker_path_ok :: "vlib \<Rightarrow> string \<Rightarrow> bool" where
  "docker_path_ok L p \<longleftrightarrow> p \<noteq> ''~'' \<and> (p = [] \<or> has_prefix ''~/'' p \<or> has_prefix ''/'' p \<or> IsAbs L p)"

definition validateDocker :: "vlib \<Rightarrow> docker_section \<Rightarrow> config_error + docker_section" where
  "validateDocker L d =
     (if \<not> docker_path_ok L (DSocket d) then Inl (Setting ''docker.socket'')
      else if \<not> docker_path_ok L (DVolumeDir d) then Inl (Setting ''docker.volume_dir'')
      else if DRawCacheTTL d = [] then Inr (d\<lparr>DCacheTTL := DefaultDockerCacheTTL\<rparr>)
      else case ParseDuration (StdDuration L) (DRawCacheTTL d) of
        None \<Rightarrow> Inl (Setting ''docker.cache_ttl'')
      | Some t \<Rightarrow> if ValidateDockerTTL t then Inr (d\<lparr>DCacheTTL := t\<rparr>) else Inl (Setting ''docker.cache_ttl''))"

section \<open>Client certificates\<close>

definition clientCertTemplateVars :: "string set" where
  "clientCertTemplateVars = {''token_username'', ''os_user''}"

fun or_else :: "'a option \<Rightarrow> 'a option \<Rightarrow> 'a option" where
  "or_else (Some a) b = Some a"
| "or_else None b = b"

fun unknownTemplateField :: "tnode \<Rightarrow> string option" where
  "unknownTemplateField (TList ns) = foldr (\<lambda>n r. or_else (unknownTemplateField n) r) ns None"
| "unknownTemplateField (TAction p) = unknownTemplateField p"
| "unknownTemplateField (TPipe cs) = foldr (\<lambda>n r. or_else (unknownTemplateField n) r) cs None"
| "unknownTemplateField (TCommand as) = foldr (\<lambda>n r. or_else (unknownTemplateField n) r) as None"
| "unknownTemplateField (TField ids) = (case ids of [] \<Rightarrow> None | i # _ \<Rightarrow> if i \<in> clientCertTemplateVars then None else Some i)"
| "unknownTemplateField (TVariable ids) =
     (case ids of v # i # _ \<Rightarrow> if v = ''$'' \<and> i \<notin> clientCertTemplateVars then Some i else None | _ \<Rightarrow> None)"
| "unknownTemplateField (TChain n fs) = unknownTemplateField n"
| "unknownTemplateField (TBranch p l e) =
     or_else (unknownTemplateField p) (or_else (unknownTemplateField l) (case e of None \<Rightarrow> None | Some n \<Rightarrow> unknownTemplateField n))"
| "unknownTemplateField (TTemplate p) = (case p of None \<Rightarrow> None | Some n \<Rightarrow> unknownTemplateField n)"
| "unknownTemplateField TOther = None"

definition validateClientCertCommonName :: "vlib \<Rightarrow> string \<Rightarrow> bool" where
  "validateClientCertCommonName L cn =
     (case ParseTemplates L cn of None \<Rightarrow> False | Some ts \<Rightarrow> list_all (\<lambda>t. unknownTemplateField t = None) ts)"

definition ClientCertHeldFor :: "bool \<Rightarrow> string \<Rightarrow> bool \<Rightarrow> bool" where
  "ClientCertHeldFor on method borrowOnly \<longleftrightarrow> on \<and> method = ''mtls'' \<and> \<not> borrowOnly"

definition ClientCertPKIRole :: "vault_section \<Rightarrow> cert_section \<Rightarrow> string" where
  "ClientCertPKIRole v cc = (if CPKIRole cc \<noteq> [] then CPKIRole cc else MPKIRole (MTLS v))"

definition cert_ttl :: "vlib \<Rightarrow> string \<Rightarrow> int option" where
  "cert_ttl L raw_ttl =
     (if raw_ttl = [] then Some (5 * 60 * 1000000000)
      else case ParseDuration (StdDuration L) raw_ttl of None \<Rightarrow> None | Some d \<Rightarrow> if d < 60 * 1000000000 then None else Some d)"

definition cert_can_issue :: "vault_section \<Rightarrow> cert_section \<Rightarrow> bool" where
  "cert_can_issue v cc \<longleftrightarrow>
     CEnabled cc \<and> \<not> ClientCertHeldFor (CEnabled cc) (AuthMethod v) (BorrowOnly v) \<longrightarrow> ClientCertPKIRole v cc \<noteq> []"

definition validateClientCert :: "vlib \<Rightarrow> vault_section \<Rightarrow> cert_section \<Rightarrow> config_error + cert_section" where
  "validateClientCert L v cc =
     (case cert_ttl L (CRawTTL cc) of
        None \<Rightarrow> Inl (Setting ''client_cert.ttl'')
      | Some d \<Rightarrow>
          case validateKeyParams ''client_cert'' (CKeyType cc) (CKeyBits cc) of
            Inl e \<Rightarrow> Inl e
          | Inr kt \<Rightarrow>
              if \<not> validateClientCertCommonName L (or_default ''{{.token_username}}'' (CCommonName cc))
              then Inl (Setting ''client_cert.common_name'')
              else if \<not> cert_can_issue v cc then Inl (Setting ''client_cert.pki_role'')
              else Inr (cc\<lparr>CTTL := d, CKeyType := kt\<rparr>))"

section \<open>The remote service\<close>

definition isLoopbackHost :: "vlib \<Rightarrow> string \<Rightarrow> bool" where
  "isLoopbackHost L h \<longleftrightarrow> equal_fold h ''localhost'' \<or> LoopbackIP L h"

definition reservedRemoteHeaders :: "string list" where
  "reservedRemoteHeaders =
     [''X-Dotvault-OS'', ''X-Dotvault-User'', ''X-Dotvault-Arch'', ''X-Dotvault-Hostname'', ''X-Dotvault-Version'']"

definition url_ok :: "vlib \<Rightarrow> string \<Rightarrow> bool" where
  "url_ok L url =
     (case ParseURL L url of
        None \<Rightarrow> False
      | Some u \<Rightarrow> (UScheme u = ''https'' \<or> UScheme u = ''http'' \<and> isLoopbackHost L (UHostname u)) \<and> UHost u \<noteq> [] \<and> \<not> UHasUser u)"

definition validateRemote :: "vlib \<Rightarrow> remote_section \<Rightarrow> config_error + remote_section" where
  "validateRemote L r =
     (if URL r \<noteq> [] \<and> \<not> url_ok L (URL r) then Inl (Setting ''remote_config.url'')
      else case (if RawRefreshInterval r = [] then Some 0
                 else case ParseDuration (StdDuration L) (RawRefreshInterval r) of
                   None \<Rightarrow> None
                 | Some d \<Rightarrow> if d < 60 * 1000000000 then None else Some (if URL r \<noteq> [] then d else 0)) of
        None \<Rightarrow> Inl (Setting ''remote_config.refresh_interval'')
      | Some d \<Rightarrow>
          if \<not> list_all (\<lambda>kv. header_ok kv \<and> \<not> list_ex (equal_fold (fst kv)) reservedRemoteHeaders) (RHeaders r)
          then Inl (Setting ''remote_config.headers'')
          else Inr (r\<lparr>RefreshInterval := d\<rparr>))"

section \<open>The whole configuration\<close>

definition validate_services :: "vlib \<Rightarrow> 'f config \<Rightarrow> config_error + 'f config" where
  "validate_services L c =
     (case validateAgent L (Agent c) of
        Some e \<Rightarrow> Inl e
      | None \<Rightarrow>
          if \<not> validateAPI L (APIPath c) then Inl (Setting ''api.unix.path'')
          else if validateTokenSockets (IsAbs L) (TokenSockets (Vault c)) \<noteq> None then Inl (Setting ''vault.token_socket'')
          else case validateFUSE (StdDuration L) (IsAbs L) (FUSE c) of
            None \<Rightarrow> Inl (Setting ''fuse'')
          | Some f \<Rightarrow>
              rbind (validateDocker L (Docker c)) (\<lambda>d.
              rbind (validateClientCert L (Vault c) (ClientCert c)) (\<lambda>cc.
              rbind (validateRemote L (Remote c)) (\<lambda>r.
              Inr (c\<lparr>FUSE := f, Docker := d, ClientCert := cc, Remote := r\<rparr>)))))"

definition validate_dynamic :: "vlib \<Rightarrow> 'f config \<Rightarrow> config_error + 'f config" where
  "validate_dynamic L c =
     (if CRules c = [] \<and> URL (Remote c) = [] then Inl (Setting ''rules'')
      else case validateRules 0 (CRules c) {} of
        Inl e \<Rightarrow> Inl (InRule e)
      | Inr _ \<Rightarrow>
          (case find (\<lambda>(k, e). \<not> validateEnrolment (StdDuration L) k e) (CEnrolments c) of
             Some (k, _) \<Rightarrow> Inl (InEnrolment k)
           | None \<Rightarrow> Inr c))"

definition validate :: "vlib \<Rightarrow> 'f config \<Rightarrow> config_error + 'f config" where
  "validate L c =
     rbind (validateVault L (Vault c)) (\<lambda>v.
     rbind (validateSync L (SyncSec c)) (\<lambda>s.
     rbind (validateWeb L (Web c)) (\<lambda>w.
     rbind (validateObs L (Obs c)) (\<lambda>o'.
     rbind (validate_services L (c\<lparr>Vault := v, SyncSec := s, Web := w, Obs := o'\<rparr>)) (validate_dynamic L)))))"

section \<open>Each section is stable\<close>

lemma or_default_idem [simp]: "or_default d (or_default d s) = or_default d s"
  by (simp add: or_default_def)

lemma validateKeyParams_idem: "validateKeyParams b kt n = Inr kt' \<Longrightarrow> validateKeyParams b kt' n = Inr kt' \<and> kt' \<noteq> []"
  by (auto simp: validateKeyParams_def or_default_def Let_def split: if_splits)

lemma validateKeyParams_default: "validateKeyParams b (or_default ''ec'' kt) n = validateKeyParams b kt n"
  by (simp add: validateKeyParams_def)

lemma mtls_defaults_again: "mtls_defaults a ((mtls_defaults a m)\<lparr>ReissueBeforeDur := d\<rparr>) = (mtls_defaults a m)\<lparr>ReissueBeforeDur := d\<rparr>"
  by (simp add: mtls_defaults_def)

lemma mtls_check_dur: "mtls_check L a (m\<lparr>ReissueBeforeDur := d\<rparr>) = mtls_check L a m"
  by (cases m) (simp only: mtls_check_def mtls_section.simps)

lemma validateMTLS_idem:
  assumes "validateMTLS L v = Inr v'"
  shows "validateMTLS L v' = Inr v' \<and> AuthMethod v' = AuthMethod v \<and> BorrowOnly v' = BorrowOnly v
    \<and> KVMount v' = KVMount v \<and> UserPrefix v' = UserPrefix v \<and> Address v' = Address v
    \<and> TokenSockets v' = TokenSockets v \<and> OIDCCallbackPort v' = OIDCCallbackPort v"
proof (cases "BorrowOnly v \<or> \<not> IsMTLSMethod (AuthMethod v)")
  case True
  with assms have "v' = v" by (simp add: validateMTLS_def)
  with assms show ?thesis by simp
next
  case False
  let ?m = "mtls_defaults (AuthMethod v) (MTLS v)"
  from False assms obtain d where d: "mtls_check L (AuthMethod v) ?m = Inr d" "v' = v\<lparr>MTLS := ?m\<lparr>ReissueBeforeDur := d\<rparr>\<rparr>"
    by (auto simp: validateMTLS_def Let_def split: sum.splits)
  with False show ?thesis by (simp add: validateMTLS_def Let_def mtls_defaults_again mtls_check_dur)
qed

lemma trim_right_slash_snoc: "trim_right_slash (trim_right_slash s @ ''/'') = trim_right_slash s"
  by (simp add: trim_right_slash_def)

lemma trim_right_slash_end: "trim_right_slash s = [] \<or> last (trim_right_slash s) \<noteq> CHR ''/''"
proof (cases "dropWhile (\<lambda>c. c = CHR ''/'') (rev s)")
  case (Cons c cs)
  then have "c \<noteq> CHR ''/''" by (metis (mono_tags, lifting) hd_dropWhile list.distinct(1) list.sel(1))
  with Cons show ?thesis by (simp add: trim_right_slash_def)
qed (simp add: trim_right_slash_def)

lemma default_prefix_idem: "default_prefix (default_prefix s) = default_prefix s"
  by (simp add: default_prefix_def trim_right_slash_snoc) (simp add: trim_right_slash_def)

lemma vault_defaults_fix: "KVMount v' = or_default ''kv'' a \<Longrightarrow> UserPrefix v' = default_prefix b \<Longrightarrow> vault_defaults v' = v'"
  by (simp add: vault_defaults_def default_prefix_idem)

lemma vault_defaults_idem: "vault_defaults (vault_defaults v) = vault_defaults v"
  by (simp add: vault_defaults_def default_prefix_idem)

lemma validateVault_idem:
  assumes "validateVault L v = Inr v'"
  shows "validateVault L v' = Inr v'"
proof -
  have m: "validateMTLS L (vault_defaults v) = Inr v'" and c: "Address v \<noteq> []" "\<not> (BorrowOnly v' \<and> peerSocketPatterns (TokenSockets v') = [])"
    "\<not> (OIDCCallbackPort v' < 0 \<or> 65535 < OIDCCallbackPort v')"
    using assms by (auto simp: validateVault_def split: if_splits sum.splits)
  have d: "vault_defaults v' = v'"
    using validateMTLS_idem [OF m] by (intro vault_defaults_fix) (simp_all add: vault_defaults_def)
  have "Address v' = Address v" using validateMTLS_idem [OF m] by (simp add: vault_defaults_def)
  then show ?thesis using c by (simp add: validateVault_def d validateMTLS_idem [OF m])
qed

lemma validateSync_idem: "validateSync L s = Inr s' \<Longrightarrow> validateSync L s' = Inr s'"
  by (auto simp: validateSync_def split: if_splits option.splits)

lemma editable_root_idem: "clean_editable_root r = Inr c \<Longrightarrow> clean_editable_root c = Inr c"
  by (auto simp: clean_editable_root_def dest: clean_idem split: sum.splits if_splits)

lemma editable_cleaned:
  "validateEditablePaths cs rs = Some es \<Longrightarrow>
    validateEditablePaths cs es = Some es \<and> distinct es \<and> (\<forall>e \<in> set es. e \<notin> set cs \<and> clean_editable_root e = Inr e)"
proof (induction cs rs arbitrary: es rule: validateEditablePaths.induct)
  case (2 cs r rs)
  from 2(2) obtain c es' where c: "clean_editable_root r = Inr c" "c \<notin> set cs" "validateEditablePaths (c # cs) rs = Some es'" "es = c # es'"
    by (auto split: sum.splits if_splits)
  have ih: "validateEditablePaths (c # cs) es' = Some es'" "distinct es'"
    "\<forall>e \<in> set es'. e \<notin> set (c # cs) \<and> clean_editable_root e = Inr e"
    using 2(1) [OF c(1,2,3)] by blast+
  then have "c \<notin> set es'" by auto
  with ih c(2,4) editable_root_idem [OF c(1)] show ?case by simp
qed simp

lemma validateWeb_Inr:
  assumes "validateWeb L w = Inr w'"
  shows "\<exists>es. validateEditablePaths [] (EditablePaths w) = Some es \<and> w' = w\<lparr>Listen := listen_of w, EditablePaths := es\<rparr>
    \<and> (WEnabled w \<longrightarrow> LoopbackAddr L (listen_of w))"
  using assms by (auto simp: validateWeb_def split: if_splits option.splits)

lemma validateWeb_idem:
  assumes "validateWeb L w = Inr w'"
  shows "validateWeb L w' = Inr w'"
proof -
  from assms obtain es where es: "validateEditablePaths [] (EditablePaths w) = Some es"
    "w' = w\<lparr>Listen := listen_of w, EditablePaths := es\<rparr>" "\<not> (WEnabled w \<and> \<not> LoopbackAddr L (listen_of w))"
    by (auto simp: validateWeb_def split: if_splits option.splits)
  have "listen_of w' = listen_of w" using es(2) by (simp add: listen_of_def)
  moreover have "validateEditablePaths [] es = Some es" using editable_cleaned [OF es(1)] by blast
  ultimately show ?thesis using es(2,3) by (simp add: validateWeb_def)
qed

lemma obs_shape_dur: "obs_shape (x\<lparr>OExportInterval := d\<rparr>) = obs_shape x"
  by (cases x) (simp only: obs_shape_def ResolveSignal_def obs_section.simps resolved_signal.simps)

lemma obs_headers_dur: "obs_headers (x\<lparr>OExportInterval := d\<rparr>) = obs_headers x"
  by (simp add: obs_headers_def)

lemma obs_interval_dur: "obs_interval L x = Some d \<Longrightarrow> obs_interval L (x\<lparr>OExportInterval := d\<rparr>) = Some d"
  by (auto simp: obs_interval_def split: if_splits option.splits)

lemma validateObs_idem:
  assumes "validateObs L x = Inr x'"
  shows "validateObs L x' = Inr x'"
proof (cases "OEnabled x")
  case True
  with assms obtain d where "obs_shape x = None" "obs_interval L x = Some d" "obs_headers x" "x' = x\<lparr>OExportInterval := d\<rparr>"
    by (auto simp: validateObs_def split: option.splits if_splits)
  with True show ?thesis by (simp add: validateObs_def obs_shape_dur obs_headers_dur obs_interval_dur)
next
  case False
  with assms show ?thesis by (auto simp: validateObs_def obs_headers_dur split: if_splits)
qed

lemma validateDocker_idem: "validateDocker L d = Inr d' \<Longrightarrow> validateDocker L d' = Inr d'"
  by (auto simp: validateDocker_def split: if_splits option.splits)

lemma cert_can_issue_defaults: "cert_can_issue v (cc\<lparr>CTTL := d, CKeyType := kt\<rparr>) = cert_can_issue v cc"
  by (simp add: cert_can_issue_def ClientCertPKIRole_def)

lemma validateClientCert_idem:
  assumes "validateClientCert L v cc = Inr cc'"
  shows "validateClientCert L v cc' = Inr cc'"
proof -
  from assms obtain d kt where c: "cert_ttl L (CRawTTL cc) = Some d"
      "validateKeyParams ''client_cert'' (CKeyType cc) (CKeyBits cc) = Inr kt"
      "validateClientCertCommonName L (or_default ''{{.token_username}}'' (CCommonName cc))"
      "cert_can_issue v cc" "cc' = cc\<lparr>CTTL := d, CKeyType := kt\<rparr>"
    by (auto simp: validateClientCert_def split: option.splits sum.splits if_splits)
  with validateKeyParams_idem [OF c(2)] show ?thesis by (simp add: validateClientCert_def cert_can_issue_defaults)
qed

lemma validateRemote_idem: "validateRemote L r = Inr r' \<Longrightarrow> validateRemote L r' = Inr r'"
  by (auto simp: validateRemote_def split: if_splits option.splits)

lemma validateFUSE_idem: "validateFUSE std isAbs f = Some f' \<Longrightarrow> validateFUSE std isAbs f' = Some f'"
  using validateFUSE_ok(1,5) by metis

lemma validate_services_Inr:
  "validate_services L c = Inr c' \<longleftrightarrow>
     validateAgent L (Agent c) = None \<and> validateAPI L (APIPath c) \<and> validateTokenSockets (IsAbs L) (TokenSockets (Vault c)) = None
   \<and> validateFUSE (StdDuration L) (IsAbs L) (FUSE c) = Some (FUSE c') \<and> validateDocker L (Docker c) = Inr (Docker c')
   \<and> validateClientCert L (Vault c) (ClientCert c) = Inr (ClientCert c') \<and> validateRemote L (Remote c) = Inr (Remote c')
   \<and> c' = c\<lparr>FUSE := FUSE c', Docker := Docker c', ClientCert := ClientCert c', Remote := Remote c'\<rparr>"
  by (auto simp: validate_services_def res_simps split: option.splits if_splits)

lemma validate_dynamic_Inr: "validate_dynamic L c = Inr c' \<Longrightarrow> c' = c \<and> validate_dynamic L c' = Inr c'"
  by (auto simp: validate_dynamic_def split: if_splits sum.splits option.splits)

lemma validate_Inr:
  "validate L c = Inr c' \<longleftrightarrow>
     validateVault L (Vault c) = Inr (Vault c') \<and> validateSync L (SyncSec c) = Inr (SyncSec c')
   \<and> validateWeb L (Web c) = Inr (Web c') \<and> validateObs L (Obs c) = Inr (Obs c')
   \<and> validate_services L (c\<lparr>Vault := Vault c', SyncSec := SyncSec c', Web := Web c', Obs := Obs c'\<rparr>) = Inr c'
   \<and> validate_dynamic L c' = Inr c'"
proof -
  have keep: "Vault c2 = Vault c1" "SyncSec c2 = SyncSec c1" "Web c2 = Web c1" "Obs c2 = Obs c1"
    if "validate_services L c1 = Inr c2" for c1 c2 :: "'a config"
    by (subst that [unfolded validate_services_Inr, THEN conjunct2, THEN conjunct2, THEN conjunct2, THEN conjunct2, THEN conjunct2,
        THEN conjunct2, THEN conjunct2], simp)+
  show ?thesis
  proof
    assume "validate L c = Inr c'"
    then obtain v s w x c1 where c: "validateVault L (Vault c) = Inr v" "validateSync L (SyncSec c) = Inr s" "validateWeb L (Web c) = Inr w"
      "validateObs L (Obs c) = Inr x" "validate_services L (c\<lparr>Vault := v, SyncSec := s, Web := w, Obs := x\<rparr>) = Inr c1"
      "validate_dynamic L c1 = Inr c'"
      by (auto simp: validate_def res_simps)
    have "c' = c1" "validate_dynamic L c' = Inr c'" using validate_dynamic_Inr [OF c(6)] by blast+
    with c keep [OF c(5)] show "validateVault L (Vault c) = Inr (Vault c') \<and> validateSync L (SyncSec c) = Inr (SyncSec c')
       \<and> validateWeb L (Web c) = Inr (Web c') \<and> validateObs L (Obs c) = Inr (Obs c')
       \<and> validate_services L (c\<lparr>Vault := Vault c', SyncSec := SyncSec c', Web := Web c', Obs := Obs c'\<rparr>) = Inr c'
       \<and> validate_dynamic L c' = Inr c'" by simp
  qed (simp add: validate_def)
qed

lemma validate_stable:
  assumes "validate L c = Inr c'"
  shows "validate L c' = Inr c'"
proof -
  note v = assms [unfolded validate_Inr]
  let ?c1 = "c\<lparr>Vault := Vault c', SyncSec := SyncSec c', Web := Web c', Obs := Obs c'\<rparr>"
  note s = v [THEN conjunct2, THEN conjunct2, THEN conjunct2, THEN conjunct2, THEN conjunct1, unfolded validate_services_Inr]
  have same: "Agent c' = Agent c" "APIPath c' = APIPath c" by (subst s [THEN conjunct2, THEN conjunct2, THEN conjunct2,
      THEN conjunct2, THEN conjunct2, THEN conjunct2, THEN conjunct2], simp)+
  from s have parts: "validateFUSE (StdDuration L) (IsAbs L) (FUSE ?c1) = Some (FUSE c')" "validateDocker L (Docker ?c1) = Inr (Docker c')"
    "validateClientCert L (Vault ?c1) (ClientCert ?c1) = Inr (ClientCert c')" "validateRemote L (Remote ?c1) = Inr (Remote c')"
    by blast+
  have "validate_services L c' = Inr c'"
    unfolding validate_services_Inr
    using s same validateFUSE_idem [OF parts(1)] validateDocker_idem [OF parts(2)] validateClientCert_idem [OF parts(3)]
      validateRemote_idem [OF parts(4)] by simp
  moreover have "validateVault L (Vault c') = Inr (Vault c')" "validateSync L (SyncSec c') = Inr (SyncSec c')"
    "validateWeb L (Web c') = Inr (Web c')" "validateObs L (Obs c') = Inr (Obs c')"
    using v validateVault_idem validateSync_idem validateWeb_idem validateObs_idem by blast+
  ultimately show ?thesis unfolding validate_Inr using v by simp
qed

lemma validateRules_names:
  "validateRules i rs S = Inr S' \<Longrightarrow> distinct (map Name rs) \<and> set (map Name rs) \<inter> S = {} \<and> (\<forall>r \<in> set rs. Name r \<noteq> [])"
proof (induction i rs S rule: validateRules.induct)
  case (2 i r rs S)
  then obtain S1 where s: "validateRule i r S = Inr S1" "validateRules (Suc i) rs S1 = Inr S'" by (auto simp: res_simps)
  have "S1 = insert (Name r) S" "Name r \<notin> S" "Name r \<noteq> []" using s(1) by (auto simp: validateRule_def split: if_splits)
  with 2(1) [OF s(2)] show ?case by auto
qed simp

lemma validateMTLS_roles:
  assumes "validateMTLS L v = Inr v'" "\<not> BorrowOnly v'" "IsMTLSMethod (AuthMethod v')"
  shows "CertRole (MTLS v') \<noteq> [] \<and> MPKIRole (MTLS v') \<noteq> [] \<and> 0 < ReissueBeforeDur (MTLS v')"
proof -
  let ?m = "mtls_defaults (AuthMethod v) (MTLS v)"
  have "\<not> (BorrowOnly v \<or> \<not> IsMTLSMethod (AuthMethod v))" using assms(2,3) validateMTLS_idem [OF assms(1)] by simp
  then obtain d where d: "mtls_check L (AuthMethod v) ?m = Inr d" "v' = v\<lparr>MTLS := ?m\<lparr>ReissueBeforeDur := d\<rparr>\<rparr>"
    using assms(1) by (auto simp: validateMTLS_def Let_def split: sum.splits)
  have "CertRole ?m \<noteq> []" "MPKIRole ?m \<noteq> []" "reissue_duration L (ReissueBefore ?m) = Some d"
    using d(1) unfolding mtls_check_def by (simp_all split: if_split_asm sum.split_asm option.split_asm)
  moreover have "0 < d" if "reissue_duration L r = Some d" for r
    using that by (auto simp: reissue_duration_def week_def day_def split: if_splits option.splits)
  ultimately show ?thesis using d(2) by simp
qed

lemma validateVault_ok:
  assumes "validateVault L v = Inr v'"
  shows "\<exists>p. UserPrefix v' = p @ ''/'' \<and> (p = [] \<or> last p \<noteq> CHR ''/'')"
    "0 \<le> OIDCCallbackPort v' \<and> OIDCCallbackPort v' \<le> 65535" "BorrowOnly v' \<Longrightarrow> peerSocketPatterns (TokenSockets v') \<noteq> []"
    "\<not> BorrowOnly v' \<Longrightarrow> IsMTLSMethod (AuthMethod v') \<Longrightarrow> CertRole (MTLS v') \<noteq> [] \<and> MPKIRole (MTLS v') \<noteq> [] \<and> 0 < ReissueBeforeDur (MTLS v')"
proof -
  have m: "validateMTLS L (vault_defaults v) = Inr v'" and c: "\<not> (BorrowOnly v' \<and> peerSocketPatterns (TokenSockets v') = [])"
    "\<not> (OIDCCallbackPort v' < 0 \<or> 65535 < OIDCCallbackPort v')"
    using assms by (auto simp: validateVault_def split: if_splits sum.splits)
  show "\<exists>p. UserPrefix v' = p @ ''/'' \<and> (p = [] \<or> last p \<noteq> CHR ''/'')"
  proof (cases "UserPrefix v = []")
    case True
    then have "UserPrefix v' = ''users'' @ ''/''"
      using validateMTLS_idem [OF m] by (simp add: vault_defaults_def default_prefix_def)
    then show ?thesis by (intro exI [of _ "''users''"]) simp
  next
    case False
    then have "UserPrefix v' = trim_right_slash (UserPrefix v) @ ''/''"
      using validateMTLS_idem [OF m] by (simp add: vault_defaults_def default_prefix_def)
    with trim_right_slash_end [of "UserPrefix v"] show ?thesis by blast
  qed
  show "0 \<le> OIDCCallbackPort v' \<and> OIDCCallbackPort v' \<le> 65535" "BorrowOnly v' \<Longrightarrow> peerSocketPatterns (TokenSockets v') \<noteq> []"
    using c by auto
  show "\<not> BorrowOnly v' \<Longrightarrow> IsMTLSMethod (AuthMethod v') \<Longrightarrow> CertRole (MTLS v') \<noteq> [] \<and> MPKIRole (MTLS v') \<noteq> [] \<and> 0 < ReissueBeforeDur (MTLS v')"
    by (rule validateMTLS_roles [OF m])
qed

section \<open>Properties\<close>

text \<open>
  Validation is stable: validating a configuration that validation returned returns it again,
  so a configuration that is checked, merged with an empty overlay and checked again is the
  same; and it never touches the rules, the enrolments or the sockets.
\<close>
theorem validation_stable:
  assumes "validate L c = Inr c'"
  shows "validate L c' = Inr c' \<and> CRules c' = CRules c \<and> CEnrolments c' = CEnrolments c \<and> Agent c' = Agent c"
proof -
  note s = assms [unfolded validate_Inr, THEN conjunct2, THEN conjunct2, THEN conjunct2, THEN conjunct2, THEN conjunct1, unfolded validate_services_Inr]
  have "CRules c' = CRules c" "CEnrolments c' = CEnrolments c" "Agent c' = Agent c"
    by (subst s [THEN conjunct2, THEN conjunct2, THEN conjunct2, THEN conjunct2, THEN conjunct2, THEN conjunct2, THEN conjunct2], simp)+
  with validate_stable [OF assms] show ?thesis by simp
qed

text \<open>
  C31. What an accepted configuration guarantees: the prefix of the user's secrets ends in exactly
  one slash, a certificate login has its roles and renews ahead of time, a host that only
  borrows has somewhere to borrow from, the caches of the mount and of volumes forget within
  ten minutes, certificates live a minute at least, the remote service is polled a minute
  apart at most often and reached over https or on this host, the web interface listens on
  this host only, editable folders are distinct canonical names and rule names are unique.
\<close>
theorem accepted_configurations:
  assumes "validate L c = Inr c'"
  shows "(\<exists>p. UserPrefix (Vault c') = p @ ''/'' \<and> (p = [] \<or> last p \<noteq> CHR ''/''))
    \<and> (IsMTLSMethod (AuthMethod (Vault c')) \<and> \<not> BorrowOnly (Vault c')
         \<longrightarrow> CertRole (MTLS (Vault c')) \<noteq> [] \<and> MPKIRole (MTLS (Vault c')) \<noteq> [] \<and> 0 < ReissueBeforeDur (MTLS (Vault c')))
    \<and> (BorrowOnly (Vault c') \<longrightarrow> peerSocketPatterns (TokenSockets (Vault c')) \<noteq> [])
    \<and> 0 \<le> FCacheTTL (FUSE c') \<and> FCacheTTL (FUSE c') \<le> MaxFUSECacheTTL
    \<and> 0 < DCacheTTL (Docker c') \<and> DCacheTTL (Docker c') \<le> MaxFUSECacheTTL
    \<and> 60 * 1000000000 \<le> CTTL (ClientCert c')
    \<and> (RefreshInterval (Remote c') = 0 \<or> 60 * 1000000000 \<le> RefreshInterval (Remote c'))
    \<and> (URL (Remote c') \<noteq> [] \<longrightarrow> url_ok L (URL (Remote c')))
    \<and> (WEnabled (Web c') \<longrightarrow> LoopbackAddr L (Listen (Web c')))
    \<and> distinct (EditablePaths (Web c')) \<and> list_all root_name (EditablePaths (Web c'))
    \<and> distinct (map Name (CRules c')) \<and> (CRules c' = [] \<longrightarrow> URL (Remote c') \<noteq> [])"
proof -
  have c: "validate L c' = Inr c'" by (rule validate_stable [OF assms])
  note v = c [unfolded validate_Inr]
  note s = v [THEN conjunct2, THEN conjunct2, THEN conjunct2, THEN conjunct2, THEN conjunct1, unfolded validate_services_Inr]
  have fuse: "validateFUSE (StdDuration L) (IsAbs L) (FUSE c') = Some (FUSE c')" and docker: "validateDocker L (Docker c') = Inr (Docker c')"
    and cert: "validateClientCert L (Vault c') (ClientCert c') = Inr (ClientCert c')" and remote: "validateRemote L (Remote c') = Inr (Remote c')"
    using s by simp_all
  have web: "validateWeb L (Web c') = Inr (Web c')" and vault: "validateVault L (Vault c') = Inr (Vault c')"
    and dyn: "validate_dynamic L c' = Inr c'" using v by blast+
  have 1: "0 < DCacheTTL (Docker c')" "DCacheTTL (Docker c') \<le> MaxFUSECacheTTL"
    using docker by (auto simp: validateDocker_def ValidateDockerTTL_def DefaultDockerCacheTTL_def MaxFUSECacheTTL_def
        dest!: arg_cong [where f = DCacheTTL] split: if_splits option.splits)
  have 2: "60 * 1000000000 \<le> CTTL (ClientCert c')"
    using cert by (auto simp: validateClientCert_def cert_ttl_def dest!: arg_cong [where f = CTTL] split: if_splits option.splits sum.splits)
  have 3: "RefreshInterval (Remote c') = 0 \<or> 60 * 1000000000 \<le> RefreshInterval (Remote c')" "URL (Remote c') \<noteq> [] \<longrightarrow> url_ok L (URL (Remote c'))"
    using remote by (auto simp: validateRemote_def dest!: arg_cong [where f = RefreshInterval] split: if_splits option.splits)
  obtain es where w: "validateEditablePaths [] (EditablePaths (Web c')) = Some es"
      "Web c' = (Web c')\<lparr>Listen := listen_of (Web c'), EditablePaths := es\<rparr>" "WEnabled (Web c') \<longrightarrow> LoopbackAddr L (listen_of (Web c'))"
    using validateWeb_Inr [OF web] by (elim exE conjE) (rule that)
  have es: "validateEditablePaths [] (EditablePaths (Web c')) = Some es" "EditablePaths (Web c') = es"
      "Listen (Web c') = listen_of (Web c')" "WEnabled (Web c') \<longrightarrow> LoopbackAddr L (listen_of (Web c'))"
    using w(1,3) arg_cong [OF w(2), of EditablePaths] arg_cong [OF w(2), of Listen] by simp_all
  have 4: "distinct (EditablePaths (Web c'))" "list_all root_name (EditablePaths (Web c'))"
    using editable_cleaned [OF es(1)] es(2) by (auto simp: list_all_iff clean_editable_root_Inr)
  have 5: "distinct (map Name (CRules c'))" "CRules c' = [] \<longrightarrow> URL (Remote c') \<noteq> []"
    using dyn by (auto simp: validate_dynamic_def dest: validateRules_names split: if_splits sum.splits)
  show ?thesis
    using validateVault_ok [OF vault] validateFUSE_ok(2,3) [OF fuse] 1 2 3 4 5 es(3,4) by auto
qed

text \<open>A small configuration: one rule, everything optional off.\<close>

definition demo_lib :: vlib where
  "demo_lib = \<lparr>StdDuration = (\<lambda>s. if s = ''0s'' then Some 0 else None), IsAbs = (\<lambda>_. False), LoopbackAddr = (\<lambda>_. False),
     LoopbackIP = (\<lambda>_. False), ParseURL = (\<lambda>_. None), ParseTemplates = (\<lambda>_. Some [])\<rparr>"

definition demo_config :: "string \<Rightarrow> 'f config" where
  "demo_config interval =
     \<lparr>Vault = \<lparr>Address = ''a'', KVMount = [], UserPrefix = ''u//'', AuthMethod = ''oidc'', OIDCCallbackPort = 0, TokenSockets = None,
        BorrowOnly = False, MTLS = \<lparr>BootstrapMethod = [], CertMount = [], CertRole = [], MPKIMount = [], MPKIRole = [], MKeyType = [],
          MKeyBits = 0, MCommonName = [], MTTL = [], ReissueBefore = [], ReissueBeforeDur = 0, BYOCert = [], BYOKey = []\<rparr>\<rparr>,
      SyncSec = \<lparr>RawInterval = interval, Interval = 0\<rparr>, Web = \<lparr>WEnabled = False, Listen = [], EditablePaths = []\<rparr>,
      Obs = \<lparr>OEnabled = False, OEndpoint = [], OProtocol = [], OInsecure = False, OHeaders = None, ORawInterval = [], OExportInterval = 0,
        Metrics = \<lparr>SEnabled = None, SEndpoint = [], SProtocol = [], SInsecure = None, SHeaders = None, STemporality = []\<rparr>,
        Logs = \<lparr>SEnabled = None, SEndpoint = [], SProtocol = [], SInsecure = None, SHeaders = None, STemporality = []\<rparr>\<rparr>,
      Agent = \<lparr>AEnabled = False, ARelay = None, AKeys = []\<rparr>, APIPath = [],
      FUSE = \<lparr>FEnabled = False, FMountpoint = [], FReadWrite = False, FCacheTTL = 0, FRawCacheTTL = []\<rparr>,
      Docker = \<lparr>DSocket = [], DVolumeDir = [], DRawCacheTTL = [], DCacheTTL = 0\<rparr>,
      ClientCert = \<lparr>CEnabled = False, CPKIRole = [], CCommonName = [], CRawTTL = [], CTTL = 0, CKeyType = [], CKeyBits = 0\<rparr>,
      Remote = \<lparr>URL = [], RawRefreshInterval = [], RefreshInterval = 0, RHeaders = []\<rparr>,
      CRules = [\<lparr>Name = ''r'', VaultKey = ''k'', Target = \<lparr>Path = ''~/r'', Format = ''json'', Template = [], MergeOpt = [], DeleteNulls = False\<rparr>\<rparr>],
      CEnrolments = []\<rparr>"

lemma demo_accepted:
  assumes "interval = [] \<or> interval = ''0s''"
  shows "\<exists>c. validate demo_lib (demo_config interval) = Inr c \<and> UserPrefix (Vault c) = ''u/''
    \<and> Interval (SyncSec c) = (if interval = [] then 15 * 60 * 1000000000 else 0)"
  using assms
  by (auto simp: validate_def demo_config_def demo_lib_def validateVault_def vault_defaults_def validateMTLS_def IsMTLSMethod_def
      default_prefix_def trim_right_slash_def or_default_def validateSync_def validateWeb_def validateObs_def obs_headers_def headers_ok_def
      validate_services_def validateAgent_def validateAPI_def validateTokenSockets_def validateFUSE_def validateDocker_def docker_path_ok_def
      validateClientCert_def cert_ttl_def validateKeyParams_def validateClientCertCommonName_def cert_can_issue_def validateRemote_def
      validate_dynamic_def validateRule_def Keyless_def validFormats_def)

theorem validation_stable_witness:
  "\<exists>c. validate demo_lib (demo_config []) = Inr c \<and> validate demo_lib c = Inr (c :: 'f config)"
proof -
  obtain c :: "'f config" where "validate demo_lib (demo_config []) = Inr c" using demo_accepted [of "[]"] by blast
  with validation_stable [OF this] show ?thesis by blast
qed

theorem accepted_configurations_witness:
  "\<exists>c. validate demo_lib (demo_config []) = Inr (c :: 'f config) \<and> 0 < DCacheTTL (Docker c) \<and> UserPrefix (Vault c) = ''u/''"
proof -
  obtain c :: "'f config" where c: "validate demo_lib (demo_config []) = Inr c" "UserPrefix (Vault c) = ''u/''"
    using demo_accepted [of "[]"] by blast
  with accepted_configurations [OF c(1)] show ?thesis by blast
qed

text \<open>
  Finding: an interval that is not positive passes validation (alone in the file, or delivered
  by a remote document), and the ticker it becomes panics.
\<close>
lemma nonpositive_interval_accepted:
  "\<exists>c. validate demo_lib (demo_config ''0s'') = Inr (c :: 'f config) \<and> Interval (SyncSec c) \<le> 0"
  "Partial_Validate (StdDuration demo_lib) (\<lparr>psync = Some ''0s'', prules = [], penrolments = []\<rparr> :: 'f partial)"
  using demo_accepted [of "''0s''"] by (force, simp add: Partial_Validate_def demo_lib_def)

text \<open>
  Finding: the check of the common name does not look at the fields of a parenthesised value or
  of a declared variable, so \<open>{{(.).user}}\<close> and \<open>{{$x := .}}{{$x.user}}\<close> pass.
\<close>
lemma template_check_blind_spots:
  "unknownTemplateField (TList [TAction (TPipe [TCommand [TChain (TPipe [TCommand [TOther]]) [''user'']]])]) = None"
  "unknownTemplateField (TList [TAction (TPipe [TCommand [TOther]]), TAction (TPipe [TCommand [TVariable [''$x'', ''user'']]])]) = None"
  "unknownTemplateField (TList [TAction (TPipe [TCommand [TField [''user'']]])]) = Some ''user''"
  by code_simp+

end
