(* ===== verification/SecretEdit.thy ===== *)
theory SecretEdit
  imports VaultFS
begin

text \<open>
  Editing secrets in the web interface (\<open>internal/web\<close>: \<open>secretedit.go\<close>,
  \<open>ui_secret_edit.go\<close>, \<open>csrf.go\<close>): one field of a form or a whole document of the API is
  written under check-and-set, within the folders the policy opens. Rendering of pages, the
  Vault client and the JSON codec are parameters.
\<close>

section \<open>Request tokens\<close>

record csrf_store =
  tokens :: "string set"
  order :: "string list"

definition maxCSRFTokens :: nat where
  "maxCSRFTokens = 1000"

definition NewCSRFStore :: csrf_store where
  "NewCSRFStore = \<lparr>tokens = {}, order = []\<rparr>"

text \<open>\<open>token\<close> is what the random source gave.\<close>

definition csrf_generate :: "string \<Rightarrow> csrf_store \<Rightarrow> csrf_store" where
  "csrf_generate token cs =
     (let cs' = (if maxCSRFTokens \<le> length (order cs)
                 then cs\<lparr>order := tl (order cs), tokens := tokens cs - {hd (order cs)}\<rparr> else cs)
      in cs'\<lparr>tokens := insert token (tokens cs'), order := order cs' @ [token]\<rparr>)"

definition csrf_Validate :: "string \<Rightarrow> csrf_store \<Rightarrow> bool \<times> csrf_store" where
  "csrf_Validate token cs =
     (if token = [] then (False, cs)
      else if token \<in> tokens cs then (True, cs\<lparr>tokens := tokens cs - {token}\<rparr>)
      else (False, cs))"

section \<open>Vault and the server\<close>

datatype cas_reply = CASDone | CASRefused | CASError

record ('w, 'f) edit_client =
  ReadSecretKV :: "string \<Rightarrow> 'w \<Rightarrow> 'f secret option option"
  WriteKVv2CAS :: "string \<Rightarrow> 'f goval gomap \<Rightarrow> int \<Rightarrow> 'w \<Rightarrow> cas_reply \<times> 'w"
  DeleteSecretKV :: "string \<Rightarrow> 'w \<Rightarrow> bool \<times> 'w"

text \<open>\<open>marshal\<close> is the compact JSON of a value that is no string.\<close>

record ('w, 'f) edit_server =
  kv :: "('w, 'f) edit_client"
  EditableRoots :: "string list"
  EnrolmentKeys :: "string list"
  userKVPrefix :: string
  json :: "'f codec"
  marshal :: "'f goval \<Rightarrow> string"

datatype edit_error =
    Refused kv_error
  | ErrUnrenderableName
  | ErrFieldExists
  | ErrNoFields
  | ErrSecretExists
  | ErrSecretMissing
  | ErrCASMismatch
  | EditReadFailed
  | EditWriteFailed
  | EditDeleteFailed

definition secretEditStatus :: "edit_error \<Rightarrow> nat" where
  "secretEditStatus e =
     (case e of
        Refused p \<Rightarrow> if p \<in> {ErrNotEditable, ErrManaged, ErrSecretDepth} then 403
          else if p = ErrInvalidName then 400 else 502
      | ErrNoFields \<Rightarrow> 400
      | ErrUnrenderableName \<Rightarrow> 422
      | ErrSecretExists \<Rightarrow> 409
      | ErrFieldExists \<Rightarrow> 409
      | ErrCASMismatch \<Rightarrow> 409
      | ErrSecretMissing \<Rightarrow> 404
      | _ \<Rightarrow> 502)"

definition editPolicy :: "('w, 'f) edit_server \<Rightarrow> edit_policy" where
  "editPolicy S = new_edit_policy (EditableRoots S) (sort (EnrolmentKeys S))"

definition secretEditability :: "('w, 'f) edit_server \<Rightarrow> string \<Rightarrow> bool \<times> bool" where
  "secretEditability S rel =
     (case allow (editPolicy S) rel of
        Inr _ \<Rightarrow> (True, False)
      | Inl e \<Rightarrow> (False, e = ErrManaged))"

definition edit_path :: "('w, 'f) edit_server \<Rightarrow> string \<Rightarrow> string" where
  "edit_path S rel = userKVPrefix S @ rel"

definition readEditableSecret :: "('w, 'f) edit_server \<Rightarrow> string \<Rightarrow> 'w \<Rightarrow> edit_error + 'f goval gomap \<times> int" where
  "readEditableSecret S rel w =
     (case ReadSecretKV (kv S) (edit_path S rel) w of
        None \<Rightarrow> Inl EditReadFailed
      | Some None \<Rightarrow> Inl ErrSecretMissing
      | Some (Some s) \<Rightarrow> Inr (case SData s of None \<Rightarrow> [] | Some d \<Rightarrow> d, SVersion s))"

definition secretExists :: "('w, 'f) edit_server \<Rightarrow> string \<Rightarrow> 'w \<Rightarrow> edit_error + bool" where
  "secretExists S rel w =
     (case ReadSecretKV (kv S) (edit_path S rel) w of
        None \<Rightarrow> Inl EditReadFailed
      | Some s \<Rightarrow> Inr (s \<noteq> None))"

section \<open>One field\<close>

record field_edit =
  feName :: string
  feWas :: string
  feValue :: string
  feDelete :: bool
  feVersion :: int

definition editorSafeName :: "string \<Rightarrow> bool" where
  "editorSafeName name \<longleftrightarrow> name \<noteq> [] \<and> name = trim_space name \<and> CHR 0x0D \<notin> set name \<and> CHR 0x0A \<notin> set name"

definition checkEditorPath :: "string \<Rightarrow> bool" where
  "checkEditorPath rel \<longleftrightarrow> list_all editorSafeName (split_ch (CHR ''/'') rel)"

definition normalizeFormNewlines :: "string \<Rightarrow> string" where
  "normalizeFormNewlines v =
     (if CHR 0x0D \<notin> set v then v
      else replace_all [CHR 0x0D] [CHR 0x0A] (replace_all [CHR 0x0D, CHR 0x0A] [CHR 0x0A] v))"

definition displayFieldValue :: "('f goval \<Rightarrow> string) \<Rightarrow> 'f goval \<Rightarrow> string" where
  "displayFieldValue m v = (case v of GStr s \<Rightarrow> s | _ \<Rightarrow> m v)"

definition unchanged_value :: "('f goval \<Rightarrow> string) \<Rightarrow> 'f goval gomap \<Rightarrow> string \<Rightarrow> string \<Rightarrow> 'f goval" where
  "unchanged_value m cur subject value =
     (case map_of cur subject of
        Some v \<Rightarrow> if normalizeFormNewlines (displayFieldValue m v) = value then v else GStr value
      | None \<Rightarrow> GStr value)"

definition applyFieldEdit :: "('f goval \<Rightarrow> string) \<Rightarrow> 'f goval gomap \<Rightarrow> field_edit \<Rightarrow> edit_error + 'f goval gomap" where
  "applyFieldEdit m cur e =
     (let subject = (if feWas e \<noteq> [] then feWas e else feName e);
          renaming = (feWas e \<noteq> [] \<and> feWas e \<noteq> feName e)
      in if feDelete e then Inr (mdel subject cur)
         else if (feWas e = [] \<or> renaming) \<and> map_of cur (feName e) \<noteq> None then Inl ErrFieldExists
         else Inr (mput (feName e) (unchanged_value m cur subject (feValue e))
                (if renaming then mdel (feWas e) cur else cur)))"

text \<open>
  \<open>writeSecretField\<close> up to the write, and the write: what other writers do in between is
  visible in a state of its own.
\<close>

record 'f edit_plan =
  plan_path :: string
  plan_data :: "'f goval gomap"
  plan_cas :: int
  plan_refusal :: edit_error

definition plan_field :: "('w, 'f) edit_server \<Rightarrow> string \<Rightarrow> field_edit \<Rightarrow> 'w \<Rightarrow> edit_error + 'f edit_plan" where
  "plan_field S rel e w =
     (case allow (editPolicy S) rel of
        Inl p \<Rightarrow> Inl (Refused p)
      | Inr c \<Rightarrow>
          if \<not> checkEditorPath c \<or> \<not> editorSafeName (feName e) then Inl ErrUnrenderableName
          else case (if 0 < feVersion e then readEditableSecret S c w else Inr ([], 0)) of
            Inl ErrSecretMissing \<Rightarrow> Inl ErrCASMismatch
          | Inl err \<Rightarrow> Inl err
          | Inr (cur, _) \<Rightarrow>
              case applyFieldEdit (marshal S) cur e of
                Inl err \<Rightarrow> Inl err
              | Inr [] \<Rightarrow> Inl ErrNoFields
              | Inr d \<Rightarrow> Inr \<lparr>plan_path = c, plan_data = d, plan_cas = feVersion e,
                  plan_refusal = (if feVersion e = 0 then ErrSecretExists else ErrCASMismatch)\<rparr>)"

definition commit_plan :: "('w, 'f) edit_server \<Rightarrow> 'f edit_plan \<Rightarrow> 'w \<Rightarrow> (edit_error + string) \<times> 'w" where
  "commit_plan S p w =
     (case WriteKVv2CAS (kv S) (edit_path S (plan_path p)) (plan_data p) (plan_cas p) w of
        (CASDone, w') \<Rightarrow> (Inr (plan_path p), w')
      | (CASRefused, w') \<Rightarrow> (Inl (plan_refusal p), w')
      | (CASError, w') \<Rightarrow> (Inl EditWriteFailed, w'))"

definition writeSecretField :: "('w, 'f) edit_server \<Rightarrow> string \<Rightarrow> field_edit \<Rightarrow> 'w \<Rightarrow> (edit_error + string) \<times> 'w" where
  "writeSecretField S rel e w =
     (case plan_field S rel e w of Inl err \<Rightarrow> (Inl err, w) | Inr p \<Rightarrow> commit_plan S p w)"

section \<open>Whole documents and deletion\<close>

definition plan_document :: "('w, 'f) edit_server \<Rightarrow> string \<Rightarrow> 'f goval gomap \<Rightarrow> bool \<Rightarrow> 'w \<Rightarrow> edit_error + 'f edit_plan" where
  "plan_document S rel d mustBeNew w =
     (case allow (editPolicy S) rel of
        Inl p \<Rightarrow> Inl (Refused p)
      | Inr c \<Rightarrow>
          case (if mustBeNew then Inr ([], 0) else readEditableSecret S c w) of
            Inl err \<Rightarrow> Inl err
          | Inr (_, version) \<Rightarrow>
              Inr \<lparr>plan_path = c, plan_data = d, plan_cas = version,
                plan_refusal = (if mustBeNew then ErrSecretExists else ErrCASMismatch)\<rparr>)"

definition replaceEditableSecret :: "('w, 'f) edit_server \<Rightarrow> string \<Rightarrow> 'f goval gomap \<Rightarrow> bool \<Rightarrow> 'w \<Rightarrow> (edit_error + string) \<times> 'w" where
  "replaceEditableSecret S rel d mustBeNew w =
     (case plan_document S rel d mustBeNew w of Inl err \<Rightarrow> (Inl err, w) | Inr p \<Rightarrow> commit_plan S p w)"

definition deleteEditableSecret :: "('w, 'f) edit_server \<Rightarrow> string \<Rightarrow> 'w \<Rightarrow> (edit_error + string) \<times> 'w" where
  "deleteEditableSecret S rel w =
     (case allow (editPolicy S) rel of
        Inl p \<Rightarrow> (Inl (Refused p), w)
      | Inr c \<Rightarrow>
          case secretExists S c w of
            Inl err \<Rightarrow> (Inl err, w)
          | Inr False \<Rightarrow> (Inl ErrSecretMissing, w)
          | Inr True \<Rightarrow>
              (case DeleteSecretKV (kv S) (edit_path S c) w of
                 (ok, w') \<Rightarrow> (if ok then Inr c else Inl EditDeleteFailed, w')))"

section \<open>Requests\<close>

text \<open>
  \<open>envelope\<close> is the JSON decoder on the size-limited body: the bytes of \<open>fields\<close> and what
  follows the first value.
\<close>

definition decodeSecretEdit :: "'f codec \<Rightarrow> (string \<Rightarrow> (string \<times> string) option) \<Rightarrow> string \<Rightarrow> 'f goval gomap option" where
  "decodeSecretEdit J envelope body =
     (case envelope body of
        None \<Rightarrow> None
      | Some (fs, rest) \<Rightarrow>
          if More rest \<or> fs = [] then None
          else case parseDocument J fs of Inl _ \<Rightarrow> None | Inr d \<Rightarrow> Some d)"

definition atoi :: "string \<Rightarrow> int option" where
  "atoi s =
     (let ds = (if has_prefix ''-'' s \<or> has_prefix ''+'' s then tl s else s);
          n = int (read_nat ds);
          v = (if has_prefix ''-'' s then - n else n)
      in if ds = [] \<or> \<not> list_all digit ds \<or> v < - (2 ^ 63) \<or> 2 ^ 63 \<le> v then None else Some v)"

definition maxFieldValue :: nat where
  "maxFieldValue = 1048576"

text \<open>\<open>form\<close> is \<open>PostFormValue\<close>, empty for a field the form does not have.\<close>

definition parseFieldEdit :: "(string \<Rightarrow> string) \<Rightarrow> field_edit option" where
  "parseFieldEdit form =
     (let e = \<lparr>feName = trim_space (form ''field''), feWas = form ''was'',
            feValue = normalizeFormNewlines (form ''value''), feDelete = (form ''delete'' = ''1''),
            feVersion = (case atoi (form ''version'') of None \<Rightarrow> - 1 | Some v \<Rightarrow> v)\<rparr>
      in if feVersion e < 0 \<or> feName e = [] \<or> maxFieldValue < length (feValue e)
           \<or> feWas e \<noteq> [] \<and> \<not> editorSafeName (feWas e)
         then None else Some e)"

definition editableRow :: "('w, 'f) edit_server \<Rightarrow> string \<Rightarrow> string \<Rightarrow> edit_error option" where
  "editableRow S path field =
     (case allow (editPolicy S) path of
        Inl p \<Rightarrow> Some (Refused p)
      | Inr _ \<Rightarrow> if \<not> checkEditorPath path \<or> \<not> editorSafeName field then Some ErrUnrenderableName else None)"

definition uiEditorPrefix :: "string \<Rightarrow> string \<times> string" where
  "uiEditorPrefix rel = (case split_last (CHR ''/'') rel of Some (d, n) \<Rightarrow> (d, n) | None \<Rightarrow> ([], rel))"

text \<open>
  What a request may say of its sender: a token for Vault is held, the API's request token
  was good, the browser's origin is this daemon.
\<close>

record guards =
  Authenticated :: bool
  TokenGood :: bool
  OriginOwn :: bool

datatype edit_request =
    SecretWrite bool string string
  | SecretDelete string
  | FieldSave "string \<Rightarrow> string"
  | DeleteForm string string
  | Goto string string

definition edit_status :: "nat \<Rightarrow> (edit_error + string) \<times> 'w \<Rightarrow> nat \<times> 'w" where
  "edit_status good r = (case r of (Inl e, w) \<Rightarrow> (secretEditStatus e, w) | (Inr _, w) \<Rightarrow> (good, w))"

definition handleSecretWrite :: "('w, 'f) edit_server \<Rightarrow> (string \<Rightarrow> (string \<times> string) option) \<Rightarrow> bool \<Rightarrow> string \<Rightarrow> string \<Rightarrow> 'w \<Rightarrow> nat \<times> 'w" where
  "handleSecretWrite S envelope post rel body w =
     (case decodeSecretEdit (json S) envelope body of
        None \<Rightarrow> (400, w)
      | Some d \<Rightarrow> edit_status (if post then 201 else 200) (replaceEditableSecret S rel d post w))"

definition handleUISecretFieldSave :: "('w, 'f) edit_server \<Rightarrow> (string \<Rightarrow> string) \<Rightarrow> 'w \<Rightarrow> nat \<times> 'w" where
  "handleUISecretFieldSave S form w =
     (case parseFieldEdit form of
        None \<Rightarrow> (422, w)
      | Some e \<Rightarrow> edit_status 303 (writeSecretField S (form ''path'') e w))"

definition handleUISecretDelete :: "('w, 'f) edit_server \<Rightarrow> string \<Rightarrow> string \<Rightarrow> 'w \<Rightarrow> nat \<times> 'w" where
  "handleUISecretDelete S rel confirm w =
     (case allow (editPolicy S) (trim_space rel) of
        Inl p \<Rightarrow> (secretEditStatus (Refused p), w)
      | Inr c \<Rightarrow>
          if trim_space confirm \<noteq> snd (uiEditorPrefix c) then (409, w)
          else edit_status 303 (deleteEditableSecret S c w))"

definition handleUISecretGoto :: "('w, 'f) edit_server \<Rightarrow> string \<Rightarrow> string \<Rightarrow> nat" where
  "handleUISecretGoto S folder name =
     (case allow (editPolicy S) ((if folder = [] then [] else folder @ ''/'') @ trim_space name) of
        Inl p \<Rightarrow> secretEditStatus (Refused p)
      | Inr c \<Rightarrow> if checkEditorPath c then 303 else 422)"

definition handle_edit :: "('w, 'f) edit_server \<Rightarrow> (string \<Rightarrow> (string \<times> string) option) \<Rightarrow> guards \<Rightarrow> edit_request \<Rightarrow> 'w \<Rightarrow> nat \<times> 'w" where
  "handle_edit S envelope g req w =
     (if (case req of SecretWrite _ _ _ \<Rightarrow> \<not> TokenGood g | SecretDelete _ \<Rightarrow> \<not> TokenGood g | _ \<Rightarrow> \<not> OriginOwn g) then (403, w)
      else if \<not> Authenticated g then (401, w)
      else case req of
        SecretWrite post rel body \<Rightarrow> handleSecretWrite S envelope post rel body w
      | SecretDelete rel \<Rightarrow> edit_status 200 (deleteEditableSecret S rel w)
      | FieldSave form \<Rightarrow> handleUISecretFieldSave S form w
      | DeleteForm rel confirm \<Rightarrow> handleUISecretDelete S rel confirm w
      | Goto folder name \<Rightarrow> (handleUISecretGoto S folder name, w))"

section \<open>Line endings\<close>

function nl :: "string \<Rightarrow> string" where
  "nl [] = []"
| "nl (c # s) =
     (if c = CHR 0x0D then CHR 0x0A # nl (case s of [] \<Rightarrow> [] | d # t \<Rightarrow> if d = CHR 0x0A then t else s)
      else c # nl s)"
  by pat_completeness auto
termination by (relation "measure length") (auto split: list.split)

text \<open>What a browser submits for a text: every line break as CR LF.\<close>

function crlf :: "string \<Rightarrow> string" where
  "crlf [] = []"
| "crlf (c # s) =
     (if c = CHR 0x0D then CHR 0x0D # CHR 0x0A # crlf (case s of [] \<Rightarrow> [] | d # t \<Rightarrow> if d = CHR 0x0A then t else s)
      else if c = CHR 0x0A then CHR 0x0D # CHR 0x0A # crlf s
      else c # crlf s)"
  by pat_completeness auto
termination by (relation "measure length") (auto split: list.split)

lemma replace_one: "replace_all [a] [b] s = map (\<lambda>c. if c = a then b else c) s"
  by (induction s) auto

lemma replace_pair:
  "replace_all [a, b] [b] (c # s)
    = (if c = a \<and> s \<noteq> [] \<and> hd s = b then b # replace_all [a, b] [b] (tl s) else c # replace_all [a, b] [b] s)"
  by (cases s) auto

lemma replace_crlf: "replace_all [CHR 0x0D] [CHR 0x0A] (replace_all [CHR 0x0D, CHR 0x0A] [CHR 0x0A] v) = nl v"
proof (induction v rule: nl.induct)
  case 1
  then show ?case by simp
next
  case (2 c s)
  show ?case
  proof (cases "c = CHR 0x0D")
    case True
    note ih = 2(1) [OF True]
    show ?thesis
    proof (cases s)
      case Nil
      with True show ?thesis by simp
    next
      case (Cons d t)
      show ?thesis
      proof (cases "d = CHR 0x0A")
        case True
        with ih Cons \<open>c = CHR 0x0D\<close> show ?thesis by (subst replace_pair) (simp add: replace_one)
      next
        case False
        with ih Cons \<open>c = CHR 0x0D\<close> show ?thesis by (subst replace_pair) (simp del: replace_all.simps add: replace_one)
      qed
    qed
  next
    case False
    with 2(2) show ?thesis by (simp only: replace_pair replace_one nl.simps list.simps if_False simp_thms)
  qed
qed

lemma nl_id: "CHR 0x0D \<notin> set v \<Longrightarrow> nl v = v"
  by (induction v) auto

lemma normalizeFormNewlines_nl: "normalizeFormNewlines v = nl v"
  by (simp add: normalizeFormNewlines_def replace_crlf nl_id)

lemma nl_crlf: "nl (crlf s) = nl s"
  by (induction s rule: crlf.induct) (auto split: list.split)

section \<open>One edit on the fields\<close>

definition edit_subject :: "field_edit \<Rightarrow> string" where
  "edit_subject e = (if feWas e \<noteq> [] then feWas e else feName e)"

text \<open>What a field holds after an edit that is accepted.\<close>

definition edited_field :: "('f goval \<Rightarrow> string) \<Rightarrow> 'f goval gomap \<Rightarrow> field_edit \<Rightarrow> string \<Rightarrow> 'f goval option" where
  "edited_field m cur e f =
     (if feDelete e then (if f = edit_subject e then None else map_of cur f)
      else if f = feName e then
        Some (case map_of cur (edit_subject e) of
            Some v \<Rightarrow> if nl (displayFieldValue m v) = feValue e then v else GStr (feValue e)
          | None \<Rightarrow> GStr (feValue e))
      else if f = feWas e \<and> feWas e \<noteq> [] then None
      else map_of cur f)"

lemma applyFieldEdit_fields:
  assumes "applyFieldEdit m cur e = Inr d"
  shows "map_of d f = edited_field m cur e f"
proof (cases "feDelete e")
  case True
  with assms show ?thesis by (auto simp: applyFieldEdit_def edited_field_def edit_subject_def Let_def)
next
  case False
  have d: "d = mput (feName e) (unchanged_value m cur (edit_subject e) (feValue e))
      (if feWas e \<noteq> [] \<and> feWas e \<noteq> feName e then mdel (feWas e) cur else cur)"
    using assms False by (auto simp: applyFieldEdit_def edit_subject_def Let_def split: if_split_asm)
  have v: "unchanged_value m cur (edit_subject e) (feValue e)
    = (case map_of cur (edit_subject e) of
         Some v \<Rightarrow> if nl (displayFieldValue m v) = feValue e then v else GStr (feValue e)
       | None \<Rightarrow> GStr (feValue e))"
    by (simp add: unchanged_value_def normalizeFormNewlines_nl split: option.split)
  show ?thesis using False unfolding d v by (simp add: edited_field_def)
qed

lemma mput_same: "keys_ok m \<Longrightarrow> map_of m k = Some v \<Longrightarrow> mput k v m = m"
  by (rule keys_ok_ext) (auto simp: fun_eq_iff)

section \<open>The server\<close>

definition fields_of :: "'f secret option \<Rightarrow> 'f goval gomap" where
  "fields_of s = (case s of None \<Rightarrow> [] | Some s \<Rightarrow> (case SData s of None \<Rightarrow> [] | Some d \<Rightarrow> d))"

definition version_of :: "'f secret option \<Rightarrow> int" where
  "version_of s = (case s of None \<Rightarrow> 0 | Some s \<Rightarrow> SVersion s)"

definition cas_written :: "('w \<Rightarrow> string \<Rightarrow> 'f secret option) \<Rightarrow> string \<Rightarrow> 'f goval gomap \<Rightarrow> int \<Rightarrow> 'w \<Rightarrow> 'w \<Rightarrow> bool" where
  "cas_written held p d cas w w' \<longleftrightarrow>
     cas = version_of (held w p) \<and> (\<exists>t. held w' = (held w)(p \<mapsto> \<lparr>SData = Some d, SVersion = cas + 1, SCreated = t\<rparr>))"

text \<open>
  What KV version 2 promises: reads and writes act on one secret per path, versions count from
  one, a check-and-set succeeds only at its version (0: no secret), a call that reports an
  error may have been carried out.
\<close>

definition write_law :: "('w \<Rightarrow> string \<Rightarrow> 'f secret option) \<Rightarrow> string \<Rightarrow> 'f goval gomap \<Rightarrow> int \<Rightarrow> 'w \<Rightarrow> cas_reply \<times> 'w \<Rightarrow> bool" where
  "write_law held p d cas w r =
     (case fst r of
        CASDone \<Rightarrow> cas_written held p d cas w (snd r)
      | CASRefused \<Rightarrow> cas \<noteq> version_of (held w p) \<and> held (snd r) = held w
      | CASError \<Rightarrow> held (snd r) = held w \<or> cas_written held p d cas w (snd r))"

definition delete_law :: "('w \<Rightarrow> string \<Rightarrow> 'f secret option) \<Rightarrow> string \<Rightarrow> 'w \<Rightarrow> bool \<times> 'w \<Rightarrow> bool" where
  "delete_law held p w r \<longleftrightarrow> held (snd r) = (held w)(p := None) \<or> \<not> fst r \<and> held (snd r) = held w"

definition cas_laws :: "('w, 'f) edit_client \<Rightarrow> ('w \<Rightarrow> string \<Rightarrow> 'f secret option) \<Rightarrow> bool" where
  "cas_laws K held \<longleftrightarrow>
     (\<forall>p w. ReadSecretKV K p w = None \<or> ReadSecretKV K p w = Some (held w p))
   \<and> (\<forall>p w s. held w p = Some s \<longrightarrow> 0 < SVersion s)
   \<and> (\<forall>p d cas w. write_law held p d cas w (WriteKVv2CAS K p d cas w))
   \<and> (\<forall>p w. delete_law held p w (DeleteSecretKV K p w))"

lemma cas_laws_read: "cas_laws K held \<Longrightarrow> ReadSecretKV K p w = Some s \<Longrightarrow> s = held w p"
  unfolding cas_laws_def by (metis option.distinct(1) option.inject)

lemma cas_laws_pos: "cas_laws K held \<Longrightarrow> held w p = Some s \<Longrightarrow> 0 < SVersion s"
  unfolding cas_laws_def by blast

lemma cas_laws_version: "cas_laws K held \<Longrightarrow> version_of (held w p) = 0 \<longleftrightarrow> held w p = None"
  by (cases "held w p") (auto simp: version_of_def dest: cas_laws_pos)

lemma cas_laws_write: "cas_laws K held \<Longrightarrow> WriteKVv2CAS K p d cas w = r \<Longrightarrow> write_law held p d cas w r"
  unfolding cas_laws_def by blast

lemma cas_laws_delete: "cas_laws K held \<Longrightarrow> DeleteSecretKV K p w = r \<Longrightarrow> delete_law held p w r"
  unfolding cas_laws_def by blast

lemma readEditableSecret_Inr:
  assumes "cas_laws (kv S) held" "readEditableSecret S c w = Inr (d, v)"
  shows "held w (edit_path S c) \<noteq> None" "d = fields_of (held w (edit_path S c))" "v = version_of (held w (edit_path S c))"
  using assms(2) cas_laws_read [OF assms(1), of "edit_path S c" w]
  by (auto simp: readEditableSecret_def fields_of_def version_of_def split: option.splits)

lemma commit_plan_cases:
  assumes "cas_laws (kv S) held" "commit_plan S p w = (res, w')"
  shows "is_ok res \<Longrightarrow> res = Inr (plan_path p) \<and> cas_written held (edit_path S (plan_path p)) (plan_data p) (plan_cas p) w w'"
    "held w' = held w \<or> cas_written held (edit_path S (plan_path p)) (plan_data p) (plan_cas p) w w'"
  using assms(2) cas_laws_write [OF assms(1) refl, of "edit_path S (plan_path p)" "plan_data p" "plan_cas p" w]
  by (auto simp: commit_plan_def write_law_def split: prod.splits cas_reply.splits)

lemma plan_field_Inr:
  assumes "plan_field S rel e w = Inr p"
  obtains c cur v where "allow (editPolicy S) rel = Inr c" "plan_path p = c" "plan_cas p = feVersion e"
    "(if 0 < feVersion e then readEditableSecret S c w else Inr ([], 0)) = Inr (cur, v)"
    "applyFieldEdit (marshal S) cur e = Inr (plan_data p)" "plan_data p \<noteq> []"
  using assms unfolding plan_field_def
  by (auto split: sum.splits if_splits edit_error.splits prod.splits list.splits)

text \<open>A secret that has only moved forward between two moments: not removed and written anew.\<close>

definition grown :: "('w \<Rightarrow> string \<Rightarrow> 'f secret option) \<Rightarrow> string \<Rightarrow> 'w \<Rightarrow> 'w \<Rightarrow> bool" where
  "grown held q u v \<longleftrightarrow>
     version_of (held u q) \<le> version_of (held v q)
   \<and> (version_of (held u q) = version_of (held v q) \<longrightarrow> fields_of (held u q) = fields_of (held v q))"

lemma plan_field_reads:
  assumes "cas_laws (kv S) held" "plan_field S rel e w1 = Inr p" "0 \<le> feVersion e"
    and "grown held q w0 w1" "grown held q w1 w2" "version_of (held w0 q) = feVersion e"
    and "version_of (held w2 q) = feVersion e" "q = edit_path S (plan_path p)"
  shows "applyFieldEdit (marshal S) (fields_of (held w0 q)) e = Inr (plan_data p)"
  using assms(2)
proof (rule plan_field_Inr)
  fix c cur v
  assume c: "plan_path p = c" "(if 0 < feVersion e then readEditableSecret S c w1 else Inr ([], 0)) = Inr (cur, v)"
    "applyFieldEdit (marshal S) cur e = Inr (plan_data p)"
  have "fields_of (held w0 q) = cur"
  proof (cases "0 < feVersion e")
    case True
    with c(2) have "readEditableSecret S c w1 = Inr (cur, v)" by simp
    from readEditableSecret_Inr(2) [OF assms(1) this] have "cur = fields_of (held w1 q)" using c(1) assms(8) by simp
    with assms(4-7) show ?thesis by (simp add: grown_def)
  next
    case False
    with assms(3,6) have "version_of (held w0 q) = 0" by simp
    with cas_laws_version [OF assms(1)] have "held w0 q = None" by blast
    with False c(2) show ?thesis by (simp add: fields_of_def)
  qed
  with c(3) show ?thesis by simp
qed

section \<open>Request tokens over time\<close>

datatype csrf_op = Issue string | Spend string

fun csrf_step :: "csrf_store \<Rightarrow> csrf_op \<Rightarrow> csrf_store" where
  "csrf_step cs (Issue t) = csrf_generate t cs"
| "csrf_step cs (Spend t) = snd (csrf_Validate t cs)"

definition csrf_run :: "csrf_op list \<Rightarrow> csrf_store" where
  "csrf_run h = foldl csrf_step NewCSRFStore h"

definition issued :: "csrf_op list \<Rightarrow> string list" where
  "issued h = List.map_filter (\<lambda>op. case op of Issue t \<Rightarrow> Some t | Spend _ \<Rightarrow> None) h"

definition unspent :: "csrf_op list \<Rightarrow> string \<Rightarrow> bool" where
  "unspent h t \<longleftrightarrow> (\<exists>h1 h2. h = h1 @ Issue t # h2 \<and> Spend t \<notin> set h2)"

lemma issued_simps [simp]:
  "issued [] = []" "issued (Issue t # h) = t # issued h" "issued (Spend t # h) = issued h"
  "issued (h @ h') = issued h @ issued h'"
  by (simp_all add: issued_def List.map_filter_def)

lemma unspent_Nil [simp]: "\<not> unspent [] t"
  by (simp add: unspent_def)

lemma unspent_issue [simp]: "unspent (h @ [Issue t']) t \<longleftrightarrow> t = t' \<or> unspent h t"
proof
  assume "unspent (h @ [Issue t']) t"
  then obtain h1 h2 where "h @ [Issue t'] = h1 @ Issue t # h2" "Spend t \<notin> set h2" by (auto simp: unspent_def)
  then show "t = t' \<or> unspent h t"
    by (cases h2 rule: rev_cases) (auto simp: unspent_def)
next
  assume "t = t' \<or> unspent h t"
  then show "unspent (h @ [Issue t']) t"
  proof
    assume "t = t'"
    then show ?thesis by (auto simp: unspent_def intro: exI [of _ h] exI [of _ "[]"])
  next
    assume "unspent h t"
    then obtain h1 h2 where "h = h1 @ Issue t # h2" "Spend t \<notin> set h2" by (auto simp: unspent_def)
    then show ?thesis unfolding unspent_def by (intro exI [of _ h1] exI [of _ "h2 @ [Issue t']"]) simp
  qed
qed

lemma unspent_spend [simp]: "unspent (h @ [Spend t']) t \<longleftrightarrow> t \<noteq> t' \<and> unspent h t"
proof
  assume "unspent (h @ [Spend t']) t"
  then obtain h1 h2 where "h @ [Spend t'] = h1 @ Issue t # h2" "Spend t \<notin> set h2" by (auto simp: unspent_def)
  then show "t \<noteq> t' \<and> unspent h t"
    by (cases h2 rule: rev_cases) (auto simp: unspent_def)
next
  assume a: "t \<noteq> t' \<and> unspent h t"
  then obtain h1 h2 where "h = h1 @ Issue t # h2" "Spend t \<notin> set h2" by (auto simp: unspent_def)
  with a show "unspent (h @ [Spend t']) t" unfolding unspent_def by (intro exI [of _ h1] exI [of _ "h2 @ [Spend t']"]) simp
qed

lemma unspent_issued: "unspent h t \<Longrightarrow> t \<in> set (issued h)"
  by (auto simp: unspent_def)

lemma csrf_run_snoc: "csrf_run (h @ [op]) = csrf_step (csrf_run h) op"
  by (simp add: csrf_run_def)

lemma maxCSRFTokens_pos: "Suc 0 - maxCSRFTokens = 0"
  by (simp add: maxCSRFTokens_def)

lemma csrf_run_state:
  "distinct (issued h) \<Longrightarrow> [] \<notin> set (issued h) \<Longrightarrow>
   order (csrf_run h) = drop (length (issued h) - maxCSRFTokens) (issued h)
   \<and> tokens (csrf_run h) = {t \<in> set (order (csrf_run h)). unspent h t}"
proof (induction h rule: rev_induct)
  case Nil
  then show ?case by (simp add: csrf_run_def NewCSRFStore_def)
next
  case (snoc op h)
  show ?case
  proof (cases op)
    case (Spend t)
    with snoc show ?thesis by (auto simp: csrf_run_snoc csrf_Validate_def dest: unspent_issued)
  next
    case (Issue t)
    let ?n = "length (issued h)" and ?o = "order (csrf_run h)"
    from snoc Issue have ih: "?o = drop (?n - maxCSRFTokens) (issued h)" "tokens (csrf_run h) = {t \<in> set ?o. unspent h t}"
      and t: "t \<notin> set (issued h)" and dist: "distinct (issued h)" by auto
    have len: "maxCSRFTokens \<le> length ?o \<longleftrightarrow> maxCSRFTokens \<le> ?n" by (auto simp: ih(1) maxCSRFTokens_def)
    have un: "\<not> unspent h t" using t unspent_issued by blast
    show ?thesis
    proof (cases "maxCSRFTokens \<le> ?n")
      case False
      with len ih un show ?thesis unfolding Issue csrf_run_snoc csrf_step.simps csrf_generate_def by auto
    next
      case True
      then have drop: "tl ?o = drop (Suc ?n - maxCSRFTokens) (issued h)"
        by (simp add: ih(1) Suc_diff_le drop_Suc tl_drop)
      from True obtain x xs where o: "?o = x # xs"
        using len by (cases ?o) (auto simp: maxCSRFTokens_def)
      have d: "distinct ?o" by (simp add: ih(1) dist)
      have "set xs \<union> {t} = set (tl ?o @ [t])" by (simp add: o)
      have toks: "insert t (tokens (csrf_run h) - {hd ?o}) = {u \<in> set (tl ?o @ [t]). u = t \<or> unspent h u}"
        using d un by (auto simp: ih(2) o)
      show ?thesis using True len drop toks
        unfolding Issue csrf_run_snoc csrf_step.simps csrf_generate_def by (simp add: Let_def Suc_diff_le maxCSRFTokens_pos)
    qed
  qed
qed

section \<open>Requests and the paths they reach\<close>

lemma edit_status_snd [simp]: "snd (edit_status g r) = snd r"
  by (cases r) (auto simp: edit_status_def split: sum.split)

lemma allow_editable:
  "allow (editPolicy S) rel = Inr c \<Longrightarrow> editable_secret (EditableRoots S) c \<and> c \<notin> managed_set (EnrolmentKeys S)"
  by (auto simp: editPolicy_def allow_policy Let_def managed_set_def split: if_splits)

text \<open>The only path a change may concern, and what is true of it.\<close>

definition touches :: "('w, 'f) edit_server \<Rightarrow> ('w \<Rightarrow> string \<Rightarrow> 'f secret option) \<Rightarrow> 'w \<Rightarrow> 'w \<Rightarrow> bool" where
  "touches S held w w' \<longleftrightarrow>
     (\<exists>c. editable_secret (EditableRoots S) c \<and> c \<notin> managed_set (EnrolmentKeys S)
        \<and> (\<forall>q. q \<noteq> edit_path S c \<longrightarrow> held w' q = held w q))"

lemma touches_if_kept: "touches S held w w' \<or> held w' = held w \<Longrightarrow> held w' q \<noteq> held w q \<Longrightarrow>
    \<exists>c. q = edit_path S c \<and> editable_secret (EditableRoots S) c \<and> c \<notin> managed_set (EnrolmentKeys S)"
  by (auto simp: touches_def)

lemma commit_touches:
  assumes "cas_laws (kv S) held" "commit_plan S p w = (res, w')" "allow (editPolicy S) rel = Inr (plan_path p)"
  shows "touches S held w w'"
  using commit_plan_cases(2) [OF assms(1,2)] allow_editable [OF assms(3)]
  by (auto simp: touches_def cas_written_def)

lemma writeSecretField_touches:
  assumes "cas_laws (kv S) held" "writeSecretField S rel e w = (res, w')"
  shows "touches S held w w' \<or> w' = w \<and> \<not> is_ok res"
proof (cases "plan_field S rel e w")
  case (Inl err)
  with assms(2) show ?thesis by (auto simp: writeSecretField_def)
next
  case (Inr p)
  then obtain c where "allow (editPolicy S) rel = Inr c" "plan_path p = c" by (rule plan_field_Inr)
  moreover have "commit_plan S p w = (res, w')" using assms(2) Inr by (simp add: writeSecretField_def)
  ultimately show ?thesis using commit_touches [OF assms(1)] by blast
qed

lemma plan_document_Inr:
  assumes "plan_document S rel d b w = Inr p"
  shows "allow (editPolicy S) rel = Inr (plan_path p)" "plan_data p = d"
    "if b then plan_cas p = 0 else \<exists>cur. readEditableSecret S (plan_path p) w = Inr (cur, plan_cas p)"
    "plan_refusal p = (if b then ErrSecretExists else ErrCASMismatch)"
  using assms by (auto simp: plan_document_def split: sum.splits if_splits)

lemma replaceEditableSecret_touches:
  assumes "cas_laws (kv S) held" "replaceEditableSecret S rel d b w = (res, w')"
  shows "touches S held w w' \<or> w' = w \<and> \<not> is_ok res"
proof (cases "plan_document S rel d b w")
  case (Inl err)
  with assms(2) show ?thesis by (auto simp: replaceEditableSecret_def)
next
  case (Inr p)
  with assms(2) have "commit_plan S p w = (res, w')" by (simp add: replaceEditableSecret_def)
  with commit_touches [OF assms(1) _ plan_document_Inr(1) [OF Inr]] show ?thesis by blast
qed

lemma deleteEditableSecret_touches:
  assumes "cas_laws (kv S) held" "deleteEditableSecret S rel w = (res, w')"
  shows "touches S held w w' \<or> w' = w \<and> \<not> is_ok res"
proof -
  have del: "touches S held w w''" if "allow (editPolicy S) rel = Inr c" "DeleteSecretKV (kv S) (edit_path S c) w = (b, w'')" for c b w''
    using cas_laws_delete [OF assms(1) that(2)] allow_editable [OF that(1)] by (auto simp: touches_def delete_law_def)
  show ?thesis using assms(2) del unfolding deleteEditableSecret_def
    by (auto split: sum.splits bool.splits prod.splits)
qed

lemma handle_edit_effect:
  assumes "cas_laws (kv S) held" "handle_edit S env g req w = (st, w')"
  shows "touches S held w w' \<and> Authenticated g \<and> (case req of SecretWrite _ _ _ \<Rightarrow> TokenGood g | SecretDelete _ \<Rightarrow> TokenGood g | _ \<Rightarrow> OriginOwn g) \<or> w' = w"
proof (cases "w' = w")
  case False
  then have g: "Authenticated g \<and> (case req of SecretWrite _ _ _ \<Rightarrow> TokenGood g | SecretDelete _ \<Rightarrow> TokenGood g | _ \<Rightarrow> OriginOwn g)"
    using assms(2) by (auto simp: handle_edit_def split: if_splits edit_request.splits)
  have status: "\<exists>res. f = (res, w')" if "edit_status k f = (st, w')" for k f
    using that edit_status_snd [of k f] by (metis prod.collapse snd_conv)
  have "touches S held w w'"
    using assms(2) g False
    unfolding handle_edit_def handleSecretWrite_def handleUISecretFieldSave_def handleUISecretDelete_def
    by (auto split: edit_request.splits option.splits sum.splits if_splits dest!: status
        dest: replaceEditableSecret_touches [OF assms(1)] deleteEditableSecret_touches [OF assms(1)] writeSecretField_touches [OF assms(1)])
  with g show ?thesis by blast
qed simp

section \<open>Properties\<close>


text \<open>
  C36. Saving a row as the page shows it changes no field, whatever the value's type and line
  endings and however the browser writes its line breaks; renaming it moves the very value.
\<close>
theorem untouched_values_kept:
  assumes "\<And>s. normalizeFormNewlines (browser s) = normalizeFormNewlines s"
    and "keys_ok cur" "map_of cur n = Some v" "n \<noteq> []"
    and "n' = n \<or> map_of cur n' = None"
  shows "applyFieldEdit m cur \<lparr>feName = n', feWas = n, feValue = normalizeFormNewlines (browser (displayFieldValue m v)),
      feDelete = False, feVersion = k\<rparr> = Inr (mput n' v (mdel n cur))"
proof (cases "n' = n")
  case True
  have "mput n v (mdel n cur) = cur" using assms(2,3) by (intro keys_ok_ext) (auto simp: fun_eq_iff)
  moreover have "mput n v cur = cur" using assms(2,3) by (rule mput_same)
  ultimately show ?thesis using True assms(1,3,4) by (simp add: applyFieldEdit_def unchanged_value_def Let_def)
next
  case False
  with assms show ?thesis by (simp add: applyFieldEdit_def unchanged_value_def Let_def)
qed

text \<open>
  C37. Whatever requests reach the editor, a secret changes only at a path one level inside a
  configured folder that no enrolment owns, only while a Vault token is held, and only for
  a request with a good request token (API) or from this daemon's own origin (pages).
\<close>
theorem only_editable_secrets_change:
  assumes "cas_laws (kv S) held" "handle_edit S env g req w = (st, w')" "held w' q \<noteq> held w q"
  shows "(\<exists>c. q = edit_path S c \<and> editable_secret (EditableRoots S) c \<and> c \<notin> managed_set (EnrolmentKeys S))
    \<and> Authenticated g \<and> (case req of SecretWrite _ _ _ \<Rightarrow> TokenGood g | SecretDelete _ \<Rightarrow> TokenGood g | _ \<Rightarrow> OriginOwn g)"
  using handle_edit_effect [OF assms(1,2)] assms(3) by (auto simp: touches_def split: edit_request.splits)

text \<open>
  A request token is good exactly when it was issued, has not been spent since, and fewer
  than a thousand others were issued after it; at most a thousand are kept.
\<close>
theorem csrf_tokens_exact:
  assumes "distinct (issued h)" "[] \<notin> set (issued h)"
  shows "(fst (csrf_Validate t (csrf_run h)) \<longleftrightarrow>
      (\<exists>h1 h2. h = h1 @ Issue t # h2 \<and> Spend t \<notin> set h2 \<and> length (issued h2) < maxCSRFTokens))
    \<and> card (tokens (csrf_run h)) \<le> maxCSRFTokens"
proof
  let ?o = "order (csrf_run h)"
  note st = csrf_run_state [OF assms]
  have "tokens (csrf_run h) \<subseteq> set ?o" using st by auto
  then have "card (tokens (csrf_run h)) \<le> card (set ?o)" by (rule card_mono [OF finite_set])
  also have "\<dots> \<le> length ?o" by (rule card_length)
  also have "\<dots> \<le> maxCSRFTokens" using st by simp
  finally show "card (tokens (csrf_run h)) \<le> maxCSRFTokens" .
  have pos: "t \<in> set (drop (length (issued h) - maxCSRFTokens) (issued h)) \<longleftrightarrow> length (issued h2) < maxCSRFTokens"
    if "h = h1 @ Issue t # h2" for h1 h2
  proof -
    have i: "issued h = issued h1 @ t # issued h2" using that by simp
    with assms(1) have t: "t \<notin> set (issued h1)" "t \<notin> set (issued h2)" by auto
    let ?k = "length (issued h) - maxCSRFTokens"
    show ?thesis
    proof (cases "?k \<le> length (issued h1)")
      case True
      then have "t \<in> set (drop ?k (issued h))" by (simp add: i)
      with True show ?thesis by (simp add: i)
    next
      case False
      then have "drop ?k (issued h) = drop (?k - Suc (length (issued h1))) (issued h2)"
        by (simp add: i drop_Cons')
      with t(2) have "t \<notin> set (drop ?k (issued h))" using in_set_dropD by fastforce
      with False show ?thesis by (simp add: i)
    qed
  qed
  show "fst (csrf_Validate t (csrf_run h)) \<longleftrightarrow>
      (\<exists>h1 h2. h = h1 @ Issue t # h2 \<and> Spend t \<notin> set h2 \<and> length (issued h2) < maxCSRFTokens)"
  proof -
    have "fst (csrf_Validate t (csrf_run h)) \<longleftrightarrow> t \<noteq> [] \<and> t \<in> tokens (csrf_run h)" by (simp add: csrf_Validate_def)
    also have "\<dots> \<longleftrightarrow> t \<in> set ?o \<and> unspent h t" using st assms(2) unspent_issued by auto
    also have "\<dots> \<longleftrightarrow> (\<exists>h1 h2. h = h1 @ Issue t # h2 \<and> Spend t \<notin> set h2 \<and> length (issued h2) < maxCSRFTokens)"
      unfolding st [THEN conjunct1] unspent_def using pos by blast
    finally show ?thesis .
  qed
qed

section \<open>A server of its own\<close>

text \<open>The secrets by path, each with how often it was rewritten.\<close>

type_synonym 'f demo_kv = "string \<Rightarrow> ('f goval gomap \<times> nat) option"

definition demo_held :: "'f demo_kv \<Rightarrow> string \<Rightarrow> 'f secret option" where
  "demo_held w p = map_option (\<lambda>(d, n). \<lparr>SData = Some d, SVersion = int n + 1, SCreated = 0\<rparr>) (w p)"

definition demo_edit_client :: "('f demo_kv, 'f) edit_client" where
  "demo_edit_client =
     \<lparr>ReadSecretKV = (\<lambda>p w. Some (demo_held w p)),
      WriteKVv2CAS = (\<lambda>p d cas w. if cas = version_of (demo_held w p) then (CASDone, w(p \<mapsto> (d, nat cas))) else (CASRefused, w)),
      DeleteSecretKV = (\<lambda>p w. (True, w(p := None)))\<rparr>"

definition demo_edit_server :: "('f demo_kv, 'f) edit_server" where
  "demo_edit_server =
     \<lparr>kv = demo_edit_client, EditableRoots = [''personal''], EnrolmentKeys = [''gh''], userKVPrefix = ''users/u/'',
      json = demo_codec, marshal = (\<lambda>_. ''1'')\<rparr>"

lemma demo_version: "0 \<le> version_of (demo_held w p)"
  by (auto simp: demo_held_def version_of_def split: option.split)

lemma demo_edit_laws: "cas_laws demo_edit_client demo_held"
  unfolding cas_laws_def
proof (intro conjI allI impI)
  fix p w s
  show "ReadSecretKV demo_edit_client p w = None \<or> ReadSecretKV demo_edit_client p w = Some (demo_held w p)"
    by (simp add: demo_edit_client_def)
  show "demo_held w p = Some s \<Longrightarrow> 0 < SVersion s" by (auto simp: demo_held_def)
  show "delete_law demo_held p w (DeleteSecretKV demo_edit_client p w)"
    by (auto simp: delete_law_def demo_edit_client_def demo_held_def fun_eq_iff)
next
  fix p d cas w
  show "write_law demo_held p d cas w (WriteKVv2CAS demo_edit_client p d cas w)"
  proof (cases "cas = version_of (demo_held w p)")
    case True
    have "demo_held (w(p \<mapsto> (d, nat cas))) = (demo_held w)(p \<mapsto> \<lparr>SData = Some d, SVersion = cas + 1, SCreated = 0\<rparr>)"
      using demo_version [of w p] True by (auto simp: demo_held_def fun_eq_iff)
    with True show ?thesis by (auto simp: write_law_def cas_written_def demo_edit_client_def)
  qed (simp add: write_law_def demo_edit_client_def)
qed

definition demo_kv :: "'f demo_kv" where
  "demo_kv = [''users/u/personal/t'' \<mapsto> ([(''a'', GBool True), (''b'', GStr ''x'')], 0)]"

definition demo_edit :: field_edit where
  "demo_edit = \<lparr>feName = ''b'', feWas = ''b'', feValue = ''y'', feDelete = False, feVersion = 1\<rparr>"

definition demo_plan :: "'f edit_plan" where
  "demo_plan = \<lparr>plan_path = ''personal/t'', plan_data = [(''a'', GBool True), (''b'', GStr ''y'')], plan_cas = 1,
     plan_refusal = ErrCASMismatch\<rparr>"

lemma demo_allow: "allow (editPolicy (demo_edit_server :: ('f demo_kv, 'f) edit_server)) ''/personal/t'' = Inr ''personal/t''"
proof -
  have "allow (new_edit_policy [''personal''] [''gh'']) ''/personal/t'' = Inr ''personal/t''" by code_simp
  then show ?thesis by (simp add: editPolicy_def demo_edit_server_def)
qed

lemma demo_names: "checkEditorPath ''personal/t''" "editorSafeName ''b''"
  by code_simp+

lemma demo_read:
  "readEditableSecret (demo_edit_server :: ('f demo_kv, 'f) edit_server) ''personal/t'' demo_kv = Inr ([(''a'', GBool True), (''b'', GStr ''x'')], 1)"
  by (simp add: readEditableSecret_def demo_edit_server_def demo_edit_client_def edit_path_def demo_held_def demo_kv_def)

lemma demo_plan_field:
  "plan_field (demo_edit_server :: ('f demo_kv, 'f) edit_server) ''/personal/t'' demo_edit demo_kv = Inr demo_plan"
proof -
  have "applyFieldEdit m [(''a'', GBool True), (''b'', GStr ''x'')] demo_edit = Inr [(''a'', GBool True), (''b'', GStr ''y'')]"
    for m :: "'f goval \<Rightarrow> string"
    by (simp add: applyFieldEdit_def demo_edit_def unchanged_value_def displayFieldValue_def normalizeFormNewlines_def)
  then show ?thesis using demo_names
    by (simp add: plan_field_def demo_allow demo_read demo_plan_def) (simp add: demo_edit_def demo_read)
qed

lemma demo_commit:
  "commit_plan (demo_edit_server :: ('f demo_kv, 'f) edit_server) demo_plan demo_kv
     = (Inr ''personal/t'', demo_kv(''users/u/personal/t'' \<mapsto> ([(''a'', GBool True), (''b'', GStr ''y'')], 1)))"
  by (simp add: commit_plan_def demo_edit_server_def demo_edit_client_def edit_path_def demo_held_def demo_kv_def demo_plan_def version_of_def)


theorem untouched_values_kept_witness:
  "applyFieldEdit (\<lambda>_. ''1'') [(''n'', GStr [CHR ''a'', CHR 0x0D, CHR 0x0A])]
      \<lparr>feName = ''m'', feWas = ''n'', feValue = normalizeFormNewlines (crlf (displayFieldValue (\<lambda>_. ''1'') (GStr [CHR ''a'', CHR 0x0D, CHR 0x0A] :: 'f goval))),
        feDelete = False, feVersion = 1\<rparr>
    = Inr [(''m'', GStr [CHR ''a'', CHR 0x0D, CHR 0x0A] :: 'f goval)]"
  using untouched_values_kept [of crlf "[(''n'', GStr [CHR ''a'', CHR 0x0D, CHR 0x0A] :: 'f goval)]" "''n''" "GStr [CHR ''a'', CHR 0x0D, CHR 0x0A]" "''m''" "\<lambda>_ :: 'f goval. ''1''" 1]
  by (simp add: normalizeFormNewlines_nl nl_crlf mdel_def keys_ok_Cons)

theorem only_editable_secrets_change_witness:
  "let req = SecretDelete ''/personal/t'';
       r = handle_edit (demo_edit_server :: ('f demo_kv, 'f) edit_server) (\<lambda>_. None) \<lparr>Authenticated = True, TokenGood = True, OriginOwn = False\<rparr> req demo_kv
   in demo_held (snd r) ''users/u/personal/t'' = None \<and> (\<exists>c. ''users/u/personal/t'' = edit_path (demo_edit_server :: ('f demo_kv, 'f) edit_server) c
        \<and> editable_secret [''personal''] c)"
proof -
  let ?S = "demo_edit_server :: ('f demo_kv, 'f) edit_server"
  let ?g = "\<lparr>Authenticated = True, TokenGood = True, OriginOwn = False\<rparr>"
  have laws: "cas_laws (kv ?S) demo_held" using demo_edit_laws by (simp add: demo_edit_server_def)
  have h: "handle_edit ?S (\<lambda>_. None) ?g (SecretDelete ''/personal/t'') demo_kv = (200, demo_kv(''users/u/personal/t'' := None))"
    by (simp add: handle_edit_def deleteEditableSecret_def demo_allow secretExists_def edit_status_def)
      (simp add: demo_edit_server_def demo_edit_client_def edit_path_def demo_held_def demo_kv_def)
  have gone: "demo_held ((demo_kv :: 'f demo_kv)(''users/u/personal/t'' := None)) ''users/u/personal/t'' = None"
    "demo_held (demo_kv :: 'f demo_kv) ''users/u/personal/t'' \<noteq> None" by (simp_all add: demo_held_def demo_kv_def)
  have "EditableRoots ?S = [''personal'']" by (simp add: demo_edit_server_def)
  with only_editable_secrets_change [OF laws h, of "''users/u/personal/t''"] gone
  have "\<exists>c. ''users/u/personal/t'' = edit_path ?S c \<and> editable_secret [''personal''] c" by auto
  with gone show ?thesis by (simp only: h Let_def snd_conv simp_thms)
qed

theorem csrf_tokens_exact_witness:
  "fst (csrf_Validate ''a'' (csrf_run [Issue ''a'', Issue ''b'', Spend ''b'']))"
  unfolding csrf_tokens_exact [of "[Issue ''a'', Issue ''b'', Spend ''b'']", simplified, THEN conjunct1]
  by (rule exI [of _ "[]"]) (simp add: maxCSRFTokens_def)

text \<open>
  Finding: the version is no identity. A secret that is deleted and created again while a
  save is under way starts over at version one, and the save puts the fields of the
  deleted secret over the new one.
\<close>
lemma recreated_secret_overwritten:
  "let w2 = (demo_kv :: 'f demo_kv)(''users/u/personal/t'' \<mapsto> ([(''b'', GStr ''new''), (''c'', GBool True)], 0));
       r = commit_plan (demo_edit_server :: ('f demo_kv, 'f) edit_server) demo_plan w2
   in is_ok (fst r) \<and> fields_of (demo_held (snd r) ''users/u/personal/t'') = [(''a'', GBool True), (''b'', GStr ''y'')]"
  by (simp add: commit_plan_def demo_edit_server_def demo_edit_client_def edit_path_def demo_held_def demo_kv_def demo_plan_def version_of_def fields_of_def)

text \<open>Finding: spent tokens count towards the thousand, so a live token can be evicted while few are stored.\<close>
lemma spent_tokens_evict:
  "length (order (csrf_run [Issue ''a'', Issue ''b'', Spend ''b''])) = 2 \<and> tokens (csrf_run [Issue ''a'', Issue ''b'', Spend ''b'']) = {''a''}"
  by (auto simp: csrf_run_def NewCSRFStore_def csrf_generate_def csrf_Validate_def maxCSRFTokens_def Let_def)

end
