(* ===== verification/EnrolWatch.thy ===== *)
theory EnrolWatch
  imports Refresh
begin

text \<open>
  Enrolments and the copy engine (\<open>internal/enrol\<close>: \<open>manager.go\<close>, \<open>copy.go\<close>, \<open>watch.go\<close>,
  \<open>wizard.go\<close> and the registry of \<open>engine.go\<close>): the manager acquires what is missing, the copy
  engine derives one secret from another, the watch manager runs it again on every poll and
  on every event of its source. Vault, the other engines, text/template and encoding/json
  are parameters; what is printed is left out.
\<close>

section \<open>What the engines use\<close>

text \<open>
  \<open>Sprint\<close> is \<open>fmt.Sprintf("%v")\<close> of a value that is no string. \<open>RunEngine\<close> stands for the engines
  that talk to other services, with the fields each writes.
\<close>

record ('w, 'f) enrol_env =
  ReadAt :: "string \<Rightarrow> string \<Rightarrow> 'w \<Rightarrow> 'f reading"
  PutKVv2 :: "string \<Rightarrow> string \<Rightarrow> string gomap \<Rightarrow> 'w \<Rightarrow> nat option \<times> 'w"
  RunEngine :: "string \<Rightarrow> 'f goval gomap \<Rightarrow> 'w \<Rightarrow> string gomap option \<times> 'w"
  StaticFields :: "string \<Rightarrow> 'f goval gomap \<Rightarrow> string list"
  Render :: "string \<Rightarrow> 'f goval gomap \<Rightarrow> string option"
  UnmarshalMap :: "string \<Rightarrow> 'f goval gomap option"
  MarshalVal :: "'f goval \<Rightarrow> string option"
  Sprint :: "'f goval \<Rightarrow> string"
  KVMountName :: string
  OwnPrefix :: string
  Username :: string

definition as_data :: "string gomap \<Rightarrow> 'f goval gomap" where
  "as_data m = map (\<lambda>(k, s). (k, GStr s)) m"

definition HasAllFields :: "'f goval gomap \<Rightarrow> string list \<Rightarrow> bool" where
  "HasAllFields data fs \<longleftrightarrow>
     fs \<noteq> [] \<and> list_all (\<lambda>f. case map_of data f of Some (GStr s) \<Rightarrow> trim_space s \<noteq> [] | _ \<Rightarrow> False) fs"

definition setting :: "string \<Rightarrow> 'f goval gomap \<Rightarrow> string" where
  "setting k m = (case map_of m k of Some (GStr s) \<Rightarrow> s | _ \<Rightarrow> [])"

definition settings_of :: "'f enrolment \<Rightarrow> 'f goval gomap" where
  "settings_of e = (case Settings e of None \<Rightarrow> [] | Some m \<Rightarrow> m)"

definition known_engine :: "string \<Rightarrow> bool" where
  "known_engine name \<longleftrightarrow> name \<in> {''copy'', ''databricks'', ''ghp'', ''github'', ''jfrog'', ''ssh''}"

section \<open>The copy engine\<close>

fun after_close :: "string \<Rightarrow> string option" where
  "after_close (c # d # s) = (if c = CHR ''}'' \<and> d = CHR ''}'' then Some s else after_close (d # s))"
| "after_close _ = None"

lemma after_close_length: "after_close s = Some r \<Longrightarrow> length r < length s"
  by (induction s rule: after_close.induct) (auto split: if_splits)

function stripTemplateActions :: "string \<Rightarrow> string" where
  "stripTemplateActions [] = []"
| "stripTemplateActions (c # s) =
     (case (if c = CHR ''{'' \<and> s \<noteq> [] \<and> hd s = CHR ''{'' then after_close (tl s) else None) of
        Some r \<Rightarrow> ''null'' @ stripTemplateActions r
      | None \<Rightarrow> c # stripTemplateActions s)"
  by pat_completeness auto
termination
  by (relation "measure length") (auto dest!: after_close_length split: if_splits simp: less_SucI le_SucI
      intro: less_le_trans)

definition FieldsFromSettings :: "('w, 'f) enrol_env \<Rightarrow> 'f goval gomap \<Rightarrow> string list" where
  "FieldsFromSettings X settings =
     (let t = setting ''template'' settings in
      if t = [] then []
      else case UnmarshalMap X (stripTemplateActions t) of None \<Rightarrow> [] | Some m \<Rightarrow> map fst m)"

definition EngineFields :: "('w, 'f) enrol_env \<Rightarrow> string \<Rightarrow> 'f goval gomap \<Rightarrow> string list" where
  "EngineFields X engine settings =
     (if engine = ''copy'' then FieldsFromSettings X settings else StaticFields X engine settings)"

definition resolveSource :: "('w, 'f) enrol_env \<Rightarrow> 'f goval gomap \<Rightarrow> (string \<times> string) option" where
  "resolveSource X settings =
     (case map_of settings ''from'' of
        Some (GObj from) \<Rightarrow>
          (if setting ''mount'' from = [] \<or> setting ''path'' from = [] then None
           else map_option (\<lambda>p. (setting ''mount'' from, p)) (Render X (setting ''path'' from) [(''user'', GStr (Username X))]))
      | _ \<Rightarrow> None)"

definition WatchSources :: "('w, 'f) enrol_env \<Rightarrow> 'f goval gomap \<Rightarrow> (string \<times> string) list" where
  "WatchSources X settings = (case resolveSource X settings of None \<Rightarrow> [] | Some src \<Rightarrow> [src])"

definition encode_val :: "('w, 'f) enrol_env \<Rightarrow> 'f goval \<Rightarrow> string option" where
  "encode_val X v = (case v of GStr s \<Rightarrow> Some s | _ \<Rightarrow> MarshalVal X v)"

fun put_encoded :: "('w, 'f) enrol_env \<Rightarrow> 'f goval gomap \<Rightarrow> string gomap \<Rightarrow> string gomap option" where
  "put_encoded X [] acc = Some acc"
| "put_encoded X ((k, v) # m) acc =
     (case encode_val X v of None \<Rightarrow> None | Some s \<Rightarrow> put_encoded X m (mput k s acc))"

text \<open>What the template makes of the source, and the merge into what the target holds.\<close>

definition copy_incoming :: "('w, 'f) enrol_env \<Rightarrow> 'f goval gomap \<Rightarrow> 'w \<Rightarrow> 'f goval gomap option" where
  "copy_incoming X settings w =
     (let t = setting ''template'' settings; f = setting ''format'' settings in
      if f \<noteq> [] \<and> f \<noteq> ''json'' \<or> trim_space t = [] then None
      else case resolveSource X settings of
        None \<Rightarrow> None
      | Some (mnt, p) \<Rightarrow>
          (case ReadAt X mnt p w of
             Some (Some src) \<Rightarrow>
               (case Render X t [(''data'', GObj (Data src)), (''user'', GStr (Username X))] of
                  None \<Rightarrow> None
                | Some text \<Rightarrow> UnmarshalMap X text)
           | _ \<Rightarrow> None))"

definition copy_run :: "('w, 'f) enrol_env \<Rightarrow> 'f goval gomap \<Rightarrow> string \<Rightarrow> 'w \<Rightarrow> string gomap option" where
  "copy_run X settings target w =
     (if Username X = [] \<or> target \<noteq> [] \<and> KVMountName X = [] then None
      else case copy_incoming X settings w of
        None \<Rightarrow> None
      | Some incoming \<Rightarrow>
          (case (if target = [] then Some None else ReadAt X (KVMountName X) target w) of
             None \<Rightarrow> None
           | Some existing \<Rightarrow>
               (case put_encoded X (case existing of None \<Rightarrow> [] | Some x \<Rightarrow> Data x) [] of
                  None \<Rightarrow> None
                | Some merged \<Rightarrow> put_encoded X incoming merged)))"

definition engine_run :: "('w, 'f) enrol_env \<Rightarrow> string \<Rightarrow> 'f goval gomap \<Rightarrow> string \<Rightarrow> 'w \<Rightarrow> string gomap option \<times> 'w" where
  "engine_run X engine settings target w =
     (if engine = ''copy'' then (copy_run X settings target w, w) else RunEngine X engine settings w)"

section \<open>The watch manager\<close>

record wsettings =
  pollInterval :: int
  wMaxBackoff :: int
  triggerCap :: nat

text \<open>\<open>triggers\<close> is the buffer of the trigger channel; \<open>wChanges\<close> what the hook has been told, newest first.\<close>

record 'f wm =
  wEnrolments :: "string \<Rightarrow> 'f enrolment option"
  wBackoffs :: "string \<Rightarrow> (int \<times> int) option"
  wPending :: "string set"
  triggers :: "string list"
  wChanges :: "change list"

definition watchTriggerBufSize :: "nat \<Rightarrow> nat" where
  "watchTriggerBufSize n = (if n < 16 then 16 else n)"

definition NewWatchManager :: "(string \<Rightarrow> 'f enrolment option) \<Rightarrow> int \<Rightarrow> wsettings \<times> 'f wm" where
  "NewWatchManager es interval =
     (\<lparr>pollInterval = (if interval \<le> 0 then 60 * 1000000000 else interval), wMaxBackoff = 5 * 60 * 1000000000,
        triggerCap = watchTriggerBufSize (card (dom es))\<rparr>,
      \<lparr>wEnrolments = es, wBackoffs = Map.empty, wPending = {}, triggers = [], wChanges = []\<rparr>)"

definition watch_UpdateConfig :: "(string \<Rightarrow> 'f enrolment option) \<Rightarrow> 'f wm \<Rightarrow> 'f wm" where
  "watch_UpdateConfig es s =
     s\<lparr>wEnrolments := es,
       wBackoffs := (\<lambda>k. if es k = None then None else wBackoffs s k),
       wPending := {k \<in> wPending s. es k \<noteq> None}\<rparr>"

definition enqueueTrigger :: "wsettings \<Rightarrow> string \<Rightarrow> 'f wm \<Rightarrow> 'f wm" where
  "enqueueTrigger c key s =
     (if key \<in> wPending s then s
      else if length (triggers s) < triggerCap c then s\<lparr>wPending := insert key (wPending s), triggers := triggers s @ [key]\<rparr>
      else s)"

definition eventMatchesSource :: "string \<Rightarrow> string \<Rightarrow> string \<times> string \<Rightarrow> bool" where
  "eventMatchesSource evtMount evtPath src \<longleftrightarrow> trim_ch (CHR ''/'') evtMount = fst src \<and> evtPath = snd src"

text \<open>The keys in the order Go's map iteration gives them.\<close>

definition dispatchEvent :: "('w, 'f) enrol_env \<Rightarrow> wsettings \<Rightarrow> string \<Rightarrow> string \<Rightarrow> string list \<Rightarrow> 'f wm \<Rightarrow> 'f wm" where
  "dispatchEvent X c evtMount evtPath keys s =
     fold (\<lambda>key s'.
        case wEnrolments s key of
          None \<Rightarrow> s'
        | Some e \<Rightarrow>
            if Engine e = ''copy'' \<and> list_ex (eventMatchesSource evtMount evtPath) (WatchSources X (settings_of e))
            then enqueueTrigger c key s' else s') keys s"

definition watch_inBackoff :: "string \<Rightarrow> int \<Rightarrow> 'f wm \<Rightarrow> bool" where
  "watch_inBackoff key now s = (case wBackoffs s key of None \<Rightarrow> False | Some (_, nextAttempt) \<Rightarrow> now < nextAttempt)"

definition watch_bumpBackoff :: "wsettings \<Rightarrow> int \<Rightarrow> string \<Rightarrow> 'f wm \<Rightarrow> 'f wm" where
  "watch_bumpBackoff c now key s =
     (let d0 = (case wBackoffs s key of None \<Rightarrow> 0 | Some (d, _) \<Rightarrow> d);
          d1 = (if d0 = 0 then pollInterval c else int64 (d0 * 2));
          d2 = (if wMaxBackoff c < d1 then wMaxBackoff c else d1)
      in s\<lparr>wBackoffs := (wBackoffs s)(key \<mapsto> (d2, now + d2))\<rparr>)"

definition watch_resetBackoff :: "string \<Rightarrow> 'f wm \<Rightarrow> 'f wm" where
  "watch_resetBackoff key s = s\<lparr>wBackoffs := (wBackoffs s)(key := None)\<rparr>"

definition value_text :: "('w, 'f) enrol_env \<Rightarrow> 'f goval \<Rightarrow> string" where
  "value_text X v = (case v of GStr s \<Rightarrow> s | _ \<Rightarrow> Sprint X v)"

definition targetMatches :: "('w, 'f) enrol_env \<Rightarrow> 'f goval gomap \<Rightarrow> 'f goval gomap \<Rightarrow> bool" where
  "targetMatches X existing desired =
     list_all (\<lambda>(k, v). case map_of existing k of None \<Rightarrow> False | Some ev \<Rightarrow> v = ev \<or> value_text X v = value_text X ev) desired"

definition tickOneWithEnrolment :: "('w, 'f) enrol_env \<Rightarrow> wsettings \<Rightarrow> int \<Rightarrow> string \<Rightarrow> 'f enrolment \<Rightarrow> 'w \<times> 'f wm \<Rightarrow> 'w \<times> 'f wm" where
  "tickOneWithEnrolment X c now key e ws =
     (case ws of (w, s) \<Rightarrow>
        if Engine e \<noteq> ''copy'' \<or> watch_inBackoff key now s then (w, s)
        else case copy_run X (settings_of e) (OwnPrefix X @ key) w of
          None \<Rightarrow> (w, watch_bumpBackoff c now key s)
        | Some creds \<Rightarrow>
            if \<not> HasAllFields (as_data creds :: 'f goval gomap) (EngineFields X (Engine e) (settings_of e))
            then (w, watch_bumpBackoff c now key s)
            else case ReadAt X (KVMountName X) (OwnPrefix X @ key) w of
              None \<Rightarrow> (w, watch_bumpBackoff c now key s)
            | Some existing \<Rightarrow>
                if (case existing of None \<Rightarrow> False | Some x \<Rightarrow> targetMatches X (Data x) (as_data creds))
                then (w, watch_resetBackoff key s)
                else case PutKVv2 X (KVMountName X) (OwnPrefix X @ key) creds w of
                  (None, w') \<Rightarrow> (w', watch_bumpBackoff c now key s)
                | (Some v, w') \<Rightarrow>
                    (w', (watch_resetBackoff key s)\<lparr>wChanges := \<lparr>CKey = key, CVersion = v, CLocal = True\<rparr> # wChanges s\<rparr>))"

definition tickOne :: "('w, 'f) enrol_env \<Rightarrow> wsettings \<Rightarrow> int \<Rightarrow> string \<Rightarrow> 'w \<times> 'f wm \<Rightarrow> 'w \<times> 'f wm" where
  "tickOne X c now key ws =
     (case wEnrolments (snd ws) key of None \<Rightarrow> ws | Some e \<Rightarrow> tickOneWithEnrolment X c now key e ws)"

definition tickAll :: "('w, 'f) enrol_env \<Rightarrow> wsettings \<Rightarrow> (string \<Rightarrow> int) \<Rightarrow> string list \<Rightarrow> 'w \<times> 'f wm \<Rightarrow> 'w \<times> 'f wm" where
  "tickAll X c clock keys ws =
     fold (\<lambda>key ws'. case wEnrolments (snd ws) key of
        None \<Rightarrow> ws' | Some e \<Rightarrow> tickOneWithEnrolment X c (clock key) key e ws') keys ws"

text \<open>One trigger: its mark is cleared before the engine runs.\<close>

definition take_trigger :: "'f wm \<Rightarrow> (string \<times> 'f wm) option" where
  "take_trigger s =
     (case triggers s of [] \<Rightarrow> None | k # ks \<Rightarrow> Some (k, s\<lparr>triggers := ks, wPending := wPending s - {k}\<rparr>))"

definition on_trigger :: "('w, 'f) enrol_env \<Rightarrow> wsettings \<Rightarrow> (string \<Rightarrow> int) \<Rightarrow> string list \<Rightarrow> 'w \<times> 'f wm \<Rightarrow> 'w \<times> 'f wm" where
  "on_trigger X c clock keys ws =
     (case take_trigger (snd ws) of
        None \<Rightarrow> ws
      | Some (k, s) \<Rightarrow>
          if k = [] then tickAll X c clock keys (fst ws, s) else tickOne X c (clock k) k (fst ws, s))"

section \<open>The manager\<close>

definition manager_prefix :: "string \<Rightarrow> string" where
  "manager_prefix p = rev (dropWhile (\<lambda>c. c = CHR ''/'') (rev p)) @ ''/''"

fun findPending :: "('w, 'f) enrol_env \<Rightarrow> 'f enrolment gomap \<Rightarrow> 'w \<Rightarrow> 'f enrolment gomap option" where
  "findPending X [] w = Some []"
| "findPending X ((key, e) # es) w =
     (if \<not> known_engine (Engine e) then findPending X es w
      else case ReadAt X (KVMountName X) (OwnPrefix X @ key) w of
        None \<Rightarrow> None
      | Some secret \<Rightarrow>
          if (case secret of None \<Rightarrow> False | Some x \<Rightarrow> HasAllFields (Data x) (EngineFields X (Engine e) (settings_of e)))
          then findPending X es w
          else map_option ((#) (key, e)) (findPending X es w))"

text \<open>\<open>cancelled\<close> is whether the context of the call has ended.\<close>

fun runWizard :: "('w, 'f) enrol_env \<Rightarrow> ('w \<Rightarrow> bool) \<Rightarrow> 'f enrolment gomap \<Rightarrow> string gomap gomap \<times> 'w \<Rightarrow> string gomap gomap \<times> 'w" where
  "runWizard X cancelled [] rw = rw"
| "runWizard X cancelled ((key, e) # ps) (results, w) =
     (if cancelled w then (results, w)
      else case engine_run X (Engine e) (settings_of e) (OwnPrefix X @ key) w of
        (None, w') \<Rightarrow> if cancelled w' then (results, w') else runWizard X cancelled ps (results, w')
      | (Some creds, w') \<Rightarrow> runWizard X cancelled ps (mput key creds results, w'))"

text \<open>Writing one result: whether it was written.\<close>

definition write_result :: "('w, 'f) enrol_env \<Rightarrow> 'f enrolment gomap \<Rightarrow> string \<times> string gomap \<Rightarrow> 'w \<Rightarrow> bool \<times> 'w" where
  "write_result X es r w =
     (case map_of es (fst r) of
        None \<Rightarrow> (False, w)
      | Some e \<Rightarrow>
          if \<not> known_engine (Engine e)
            \<or> \<not> HasAllFields (as_data (snd r) :: 'f goval gomap) (EngineFields X (Engine e) (settings_of e)) then (False, w)
          else case PutKVv2 X (KVMountName X) (OwnPrefix X @ fst r) (snd r) w of (v, w') \<Rightarrow> (v \<noteq> None, w'))"

definition write_results :: "('w, 'f) enrol_env \<Rightarrow> 'f enrolment gomap \<Rightarrow> string gomap gomap \<Rightarrow> bool \<times> 'w \<Rightarrow> bool \<times> 'w" where
  "write_results X es rs bw =
     fold (\<lambda>r (b, w). case write_result X es r w of (b', w') \<Rightarrow> (b \<or> b', w')) rs bw"

text \<open>\<open>iter\<close> is the order Go's map iteration gives the results; \<open>None\<close> is an error.\<close>

definition CheckAll :: "('w, 'f) enrol_env \<Rightarrow> ('w \<Rightarrow> bool) \<Rightarrow> (string gomap gomap \<Rightarrow> string gomap gomap) \<Rightarrow> 'f enrolment gomap \<Rightarrow> 'w \<Rightarrow> bool option \<times> 'w" where
  "CheckAll X cancelled iter es w =
     (case findPending X es w of
        None \<Rightarrow> (None, w)
      | Some [] \<Rightarrow> (Some False, w)
      | Some ps \<Rightarrow>
          case runWizard X cancelled ps ([], w) of (results, w') \<Rightarrow>
            if cancelled w' then (None, w')
            else case write_results X es (iter results) (False, w') of (b, w'') \<Rightarrow> (Some b, w''))"

datatype enrol_error = UnknownEnrolment | UnknownEngine | Cancelled | EnrolFailed | Incomplete | EnrolWriteFailed

definition RunOne :: "('w, 'f) enrol_env \<Rightarrow> ('w \<Rightarrow> bool) \<Rightarrow> 'f enrolment gomap \<Rightarrow> string \<Rightarrow> 'w \<Rightarrow> enrol_error option \<times> 'w" where
  "RunOne X cancelled es key w =
     (case map_of es key of
        None \<Rightarrow> (Some UnknownEnrolment, w)
      | Some e \<Rightarrow>
          if \<not> known_engine (Engine e) then (Some UnknownEngine, w)
          else case engine_run X (Engine e) (settings_of e) (OwnPrefix X @ key) w of
            (None, w') \<Rightarrow> (Some (if cancelled w' then Cancelled else EnrolFailed), w')
          | (Some creds, w') \<Rightarrow>
              if \<not> HasAllFields (as_data creds :: 'f goval gomap) (EngineFields X (Engine e) (settings_of e))
              then (Some Incomplete, w')
              else case PutKVv2 X (KVMountName X) (OwnPrefix X @ key) creds w' of
                (None, w'') \<Rightarrow> (Some EnrolWriteFailed, w'')
              | (Some _, w'') \<Rightarrow> (None, w''))"

record enrol_status =
  StKey :: string
  StEnrolled :: bool
  StError :: bool

definition Statuses :: "('w, 'f) enrol_env \<Rightarrow> 'f enrolment gomap \<Rightarrow> 'w \<Rightarrow> enrol_status list" where
  "Statuses X es w =
     map (\<lambda>(key, e).
        if \<not> known_engine (Engine e) then \<lparr>StKey = key, StEnrolled = False, StError = True\<rparr>
        else case ReadAt X (KVMountName X) (OwnPrefix X @ key) w of
          None \<Rightarrow> \<lparr>StKey = key, StEnrolled = False, StError = True\<rparr>
        | Some secret \<Rightarrow> \<lparr>StKey = key,
            StEnrolled = (case secret of None \<Rightarrow> False | Some x \<Rightarrow> HasAllFields (Data x) (EngineFields X (Engine e) (settings_of e))),
            StError = False\<rparr>) es"

section \<open>What Vault promises\<close>

definition put_done :: "('w \<Rightarrow> string \<Rightarrow> string \<Rightarrow> 'f vsecret option) \<Rightarrow> string \<Rightarrow> string \<Rightarrow> string gomap \<Rightarrow> 'w \<Rightarrow> 'w \<Rightarrow> bool" where
  "put_done held m p d w w' \<longleftrightarrow>
     (\<exists>v t. held w' = (held w)(m := (held w m)(p \<mapsto> \<lparr>Data = as_data d, Version = v, CreatedTime = t\<rparr>)))"

text \<open>
  Reads see one secret per path, a write puts its data there, a write that reports an error
  may have been carried out, and the engines that talk to other services leave Vault alone.
\<close>

definition put_laws :: "('w, 'f) enrol_env \<Rightarrow> ('w \<Rightarrow> string \<Rightarrow> string \<Rightarrow> 'f vsecret option) \<Rightarrow> bool" where
  "put_laws X held \<longleftrightarrow>
     (\<forall>m p w. ReadAt X m p w = None \<or> ReadAt X m p w = Some (held w m p))
   \<and> (\<forall>m p d w. put_done held m p d w (snd (PutKVv2 X m p d w))
        \<or> fst (PutKVv2 X m p d w) = None \<and> held (snd (PutKVv2 X m p d w)) = held w)
   \<and> (\<forall>e s w. held (snd (RunEngine X e s w)) = held w)"

lemma put_laws_read: "put_laws X held \<Longrightarrow> ReadAt X m p w = Some s \<Longrightarrow> s = held w m p"
  unfolding put_laws_def by (metis option.distinct(1) option.inject)

lemma put_laws_put: "put_laws X held \<Longrightarrow> PutKVv2 X m p d w = (r, w') \<Longrightarrow> put_done held m p d w w' \<or> r = None \<and> held w' = held w"
  unfolding put_laws_def by (metis fst_conv snd_conv)

lemma engine_run_held: "put_laws X held \<Longrightarrow> engine_run X e st t w = (r, w') \<Longrightarrow> held w' = held w"
  unfolding put_laws_def engine_run_def by (auto split: if_splits) (metis snd_conv)

section \<open>Only complete secrets are written\<close>

definition complete_writes :: "('w, 'f) enrol_env \<Rightarrow> (string \<Rightarrow> 'f enrolment option) \<Rightarrow> ('w \<Rightarrow> string \<Rightarrow> string \<Rightarrow> 'f vsecret option) \<Rightarrow> 'w \<Rightarrow> 'w \<Rightarrow> bool" where
  "complete_writes X es held w w' \<longleftrightarrow>
     (\<forall>m p. held w' m p \<noteq> held w m p \<longrightarrow>
        m = KVMountName X
        \<and> (\<exists>key e x. es key = Some e \<and> p = OwnPrefix X @ key \<and> held w' m p = Some x
             \<and> HasAllFields (Data x) (EngineFields X (Engine e) (settings_of e))))"

lemma complete_writes_same: "held w' = held w \<Longrightarrow> complete_writes X es held w w'"
  by (simp add: complete_writes_def)

lemma complete_writes_trans:
  "complete_writes X es held w w1 \<Longrightarrow> complete_writes X es held w1 w2 \<Longrightarrow> complete_writes X es held w w2"
  unfolding complete_writes_def by metis

lemma complete_writes_put:
  fixes creds :: "string gomap" and held :: "'w \<Rightarrow> string \<Rightarrow> string \<Rightarrow> 'f vsecret option"
  assumes "put_laws X held" "es key = Some e"
    and "HasAllFields (as_data creds :: 'f goval gomap) (EngineFields X (Engine e) (settings_of e))"
    and "PutKVv2 X (KVMountName X) (OwnPrefix X @ key) creds w = (r, w')"
  shows "complete_writes X es held w w'"
  using put_laws_put [OF assms(1,4)]
proof
  assume "put_done held (KVMountName X) (OwnPrefix X @ key) creds w w'"
  with assms(2,3) show ?thesis by (auto simp: complete_writes_def put_done_def split: if_splits)
qed (simp add: complete_writes_same)

lemma tickOne_complete:
  assumes "put_laws X held" "es key = Some e"
  shows "complete_writes X es held (fst ws) (fst (tickOneWithEnrolment X c now key e ws))"
proof (cases ws)
  case (Pair w s)
  have same: "complete_writes X es held w w" by (simp add: complete_writes_same)
  show ?thesis unfolding Pair tickOneWithEnrolment_def
    by (auto simp: same complete_writes_put [where es = es and key = key, OF assms] split: option.splits prod.splits)
qed

lemma tickAll_complete:
  assumes "put_laws X held"
  shows "complete_writes X (wEnrolments (snd ws)) held (fst ws) (fst (tickAll X c clock keys ws))"
proof -
  define es where "es = wEnrolments (snd ws)"
  have "complete_writes X es held (fst v) (fst (fold (\<lambda>key ws'. case es key of
        None \<Rightarrow> ws' | Some e \<Rightarrow> tickOneWithEnrolment X c (clock key) key e ws') keys v))" for v
  proof (induction keys arbitrary: v)
    case Nil
    show ?case by (simp add: complete_writes_same)
  next
    case (Cons k ks)
    show ?case
    proof (cases "es k")
      case None
      with Cons [of v] show ?thesis by simp
    next
      case (Some e)
      from complete_writes_trans [OF tickOne_complete [where es = es and key = k, OF assms Some] Cons] Some show ?thesis by simp
    qed
  qed
  then show ?thesis by (simp add: tickAll_def es_def)
qed

lemma write_result_complete:
  assumes "put_laws X held" "write_result X es r w = (b, w')"
  shows "complete_writes X (map_of es) held w w'"
  using assms(2) complete_writes_put [OF assms(1), of "map_of es" "fst r"]
  by (auto simp: write_result_def complete_writes_same split: option.splits if_splits prod.splits)

lemma write_results_complete:
  "put_laws X held \<Longrightarrow> complete_writes X (map_of es) held (snd bw) (snd (write_results X es rs bw))"
proof (induction rs arbitrary: bw)
  case Nil
  show ?case by (simp add: write_results_def complete_writes_same)
next
  case (Cons r rs)
  obtain b w b' w' where "bw = (b, w)" "write_result X es r w = (b', w')" by (metis surj_pair)
  with complete_writes_trans [OF write_result_complete [OF Cons.prems] Cons.IH [OF Cons.prems]]
  show ?case by (simp add: write_results_def)
qed

lemma runWizard_held: "put_laws X held \<Longrightarrow> held (snd (runWizard X cancelled ps rw)) = held (snd rw)"
proof (induction X cancelled ps rw rule: runWizard.induct)
  case (2 X cancelled key e ps results w)
  show ?case
  proof (cases "cancelled w")
    case False
    obtain r w' where er: "engine_run X (Engine e) (settings_of e) (OwnPrefix X @ key) w = (r, w')" by fastforce
    from engine_run_held [OF 2(3) er] er False 2(1) [OF False er [symmetric]] 2(2) [OF False er [symmetric]] 2(3)
    show ?thesis by (cases r) auto
  qed simp
qed simp

lemma runWizard_keys: "fst ` set (fst (runWizard X cancelled ps rw)) \<subseteq> fst ` set (fst rw) \<union> fst ` set ps"
proof (induction X cancelled ps rw rule: runWizard.induct)
  case (2 X cancelled key e ps results w)
  show ?case
  proof (cases "cancelled w")
    case False
    obtain r w' where er: "engine_run X (Engine e) (settings_of e) (OwnPrefix X @ key) w = (r, w')" by fastforce
    show ?thesis
    proof (cases r)
      case None
      with er False 2(1) [OF False er [symmetric] None] show ?thesis by auto
    next
      case (Some creds)
      with er False 2(2) [OF False er [symmetric] Some] show ?thesis by (auto simp: fst_set_mput)
    qed
  qed auto
qed simp

lemma put_path:
  assumes "put_laws X held" "PutKVv2 X m' q d w = (r, w')" "held w' m p \<noteq> held w m p"
  shows "p = q"
  using put_laws_put [OF assms(1,2)] assms(3) by (auto simp: put_done_def split: if_splits)

lemma write_result_path:
  assumes "put_laws X held" "write_result X es r w = (b, w')" "held w' m p \<noteq> held w m p"
  shows "p = OwnPrefix X @ fst r"
  using assms(2,3) put_path [OF assms(1)]
  by (auto simp: write_result_def split: option.splits if_splits prod.splits)

lemma write_results_paths:
  assumes "put_laws X held" "held (snd (write_results X es rs bw)) m p \<noteq> held (snd bw) m p"
  shows "p \<in> (\<lambda>r. OwnPrefix X @ fst r) ` set rs"
  using assms(2)
proof (induction rs arbitrary: bw)
  case Nil
  then show ?case by (simp add: write_results_def)
next
  case (Cons r rs)
  obtain b w b' w' where bw: "bw = (b, w)" "write_result X es r w = (b', w')" by (metis surj_pair)
  then have step: "write_results X es (r # rs) bw = write_results X es rs (b \<or> b', w')" by (simp add: write_results_def)
  show ?case
  proof (cases "held w' m p = held w m p")
    case True
    with Cons.prems bw step have "held (snd (write_results X es rs (b \<or> b', w'))) m p \<noteq> held (snd (b \<or> b', w')) m p" by simp
    from Cons.IH [OF this] show ?thesis by simp
  next
    case False
    from write_result_path [OF assms(1) bw(2) this] show ?thesis by simp
  qed
qed

lemma findPending_incomplete:
  assumes "put_laws X held" "findPending X es w = Some ps" "(key, e) \<in> set ps"
  shows "(key, e) \<in> set es \<and> known_engine (Engine e)
    \<and> \<not> (\<exists>x. held w (KVMountName X) (OwnPrefix X @ key) = Some x \<and> HasAllFields (Data x) (EngineFields X (Engine e) (settings_of e)))"
  using assms(2,3)
proof (induction es arbitrary: ps)
  case (Cons ke es)
  obtain k e' where ke: "ke = (k, e')" by fastforce
  show ?case
  proof (cases "known_engine (Engine e')")
    case False
    with Cons ke show ?thesis by auto
  next
    case True
    with Cons.prems(1) ke obtain x where r: "ReadAt X (KVMountName X) (OwnPrefix X @ k) w = Some x"
      by (auto split: option.splits)
    note x = put_laws_read [OF assms(1) r]
    show ?thesis
    proof (cases "\<exists>y. x = Some y \<and> HasAllFields (Data y) (EngineFields X (Engine e') (settings_of e'))")
      case True
      with Cons \<open>known_engine (Engine e')\<close> ke r show ?thesis by auto
    next
      case False
      with Cons.prems(1) True ke r obtain qs where q: "findPending X es w = Some qs" "ps = (k, e') # qs"
        by (auto split: option.splits if_splits)
      show ?thesis using Cons.IH [OF q(1)] Cons.prems(2) q(2) False True x ke by auto
    qed
  qed
qed simp

lemma CheckAll_cases:
  assumes "put_laws X held" "\<And>r. set (iter r) \<subseteq> set r"
  obtains "held (snd (CheckAll X cancelled iter es w)) = held w"
  | ps rs b w1 where "findPending X es w = Some ps" "fst ` set rs \<subseteq> fst ` set ps" "held w1 = held w"
      "snd (CheckAll X cancelled iter es w) = snd (write_results X es rs (False, w1))"
proof (cases "findPending X es w")
  case None
  with that(1) show thesis by (simp add: CheckAll_def)
next
  case (Some ps)
  obtain results w1 where rw: "runWizard X cancelled ps ([], w) = (results, w1)" by fastforce
  have held: "held w1 = held w" using runWizard_held [OF assms(1), of cancelled ps "([], w)"] rw by simp
  have "fst ` set results \<subseteq> fst ` set ps" using runWizard_keys [of X cancelled ps "([], w)"] rw by simp
  with assms(2) [of results] have keys: "fst ` set (iter results) \<subseteq> fst ` set ps" by blast
  show thesis
  proof (cases "ps = [] \<or> cancelled w1")
    case True
    with Some rw held have "held (snd (CheckAll X cancelled iter es w)) = held w"
      by (cases ps) (auto simp: CheckAll_def)
    then show thesis by (rule that(1))
  next
    case False
    then obtain k qs where "ps = k # qs" by (cases ps) auto
    with Some rw False have "snd (CheckAll X cancelled iter es w) = snd (write_results X es (iter results) (False, w1))"
      by (simp add: CheckAll_def del: runWizard.simps split: prod.split)
    with that(2) [OF Some keys held] show thesis by simp
  qed
qed

lemma CheckAll_complete:
  assumes "put_laws X held" "\<And>r. set (iter r) \<subseteq> set r"
  shows "complete_writes X (map_of es) held w (snd (CheckAll X cancelled iter es w))"
proof (rule CheckAll_cases [OF assms, of cancelled es w])
  fix ps rs b w1
  assume "held w1 = held w" "snd (CheckAll X cancelled iter es w) = snd (write_results X es rs (False, w1))"
  with write_results_complete [OF assms(1), of es "(False, w1)" rs]
  show ?thesis by (simp add: complete_writes_def)
qed (rule complete_writes_same)

lemma CheckAll_pending_only:
  assumes "put_laws X held" "\<And>r. set (iter r) \<subseteq> set r" "keys_ok es"
    and "held (snd (CheckAll X cancelled iter es w)) m (OwnPrefix X @ key) \<noteq> held w m (OwnPrefix X @ key)"
    and "map_of es key = Some e"
  shows "\<not> (\<exists>x. held w (KVMountName X) (OwnPrefix X @ key) = Some x \<and> HasAllFields (Data x) (EngineFields X (Engine e) (settings_of e)))"
proof (rule CheckAll_cases [OF assms(1,2), of cancelled es w])
  assume "held (snd (CheckAll X cancelled iter es w)) = held w"
  with assms(4) show ?thesis by simp
next
  fix ps rs b w1
  assume ps: "findPending X es w = Some ps" "fst ` set rs \<subseteq> fst ` set ps" "held w1 = held w"
    "snd (CheckAll X cancelled iter es w) = snd (write_results X es rs (False, w1))"
  then have "held (snd (write_results X es rs (False, w1))) m (OwnPrefix X @ key) \<noteq> held w1 m (OwnPrefix X @ key)"
    using assms(4) by simp
  then have "OwnPrefix X @ key \<in> (\<lambda>r. OwnPrefix X @ fst r) ` set rs"
    using write_results_paths [OF assms(1), of es rs "(False, w1)"] by simp
  then have "key \<in> fst ` set ps" using ps(2) by auto
  then obtain e' where e': "(key, e') \<in> set ps" by auto
  from findPending_incomplete [OF assms(1) ps(1) e'] assms(3,5) have "e' = e" using keys_ok_map_of by fastforce
  with findPending_incomplete [OF assms(1) ps(1) e'] show ?thesis by blast
qed

lemma RunOne_complete:
  assumes "put_laws X held"
  shows "complete_writes X (map_of es) held w (snd (RunOne X cancelled es key w))"
proof (cases "map_of es key")
  case None
  then show ?thesis by (simp add: RunOne_def complete_writes_same)
next
  case (Some e)
  obtain r w' where er: "engine_run X (Engine e) (settings_of e) (OwnPrefix X @ key) w = (r, w')" by fastforce
  have same: "complete_writes X (map_of es) held w w'"
    by (rule complete_writes_same) (rule engine_run_held [OF assms er])
  show ?thesis using Some er same complete_writes_trans [OF same complete_writes_put [where es = "map_of es" and key = key, OF assms Some]]
    by (auto simp: RunOne_def complete_writes_same split: option.splits prod.splits)
qed

section \<open>The copy engine settles\<close>

lemma put_encoded_keys: "put_encoded X m acc = Some d \<Longrightarrow> keys_ok acc \<Longrightarrow> keys_ok d"
  by (induction X m acc rule: put_encoded.induct) (auto split: option.splits)

lemma put_encoded_None: "put_encoded X m acc = None \<longleftrightarrow> (\<exists>kv \<in> set m. encode_val X (snd kv) = None)"
  by (induction X m acc rule: put_encoded.induct) (auto split: option.splits)

lemma put_encoded_of:
  "put_encoded X m acc = Some d \<Longrightarrow> keys_ok m \<Longrightarrow>
   map_of d k = (case map_of m k of Some v \<Rightarrow> encode_val X v | None \<Rightarrow> map_of acc k)"
proof (induction X m acc rule: put_encoded.induct)
  case (2 X k' v m acc)
  then obtain s where s: "encode_val X v = Some s" "put_encoded X m (mput k' s acc) = Some d" by (auto split: option.splits)
  from 2(1) [OF s] 2(3) have "map_of d k = (case map_of m k of Some v \<Rightarrow> encode_val X v | None \<Rightarrow> map_of (mput k' s acc) k)"
    by (simp add: keys_ok_Cons)
  moreover have "k' \<notin> fst ` set m" using 2(3) by (auto simp: keys_ok_Cons)
  then have "map_of m k' = None" by (simp add: map_of_eq_None_iff)
  ultimately show ?case using s(1) by (auto split: option.split)
qed simp

lemma map_of_as_data: "map_of (as_data m) k = map_option GStr (map_of m k)"
  by (induction m) (auto simp: as_data_def)

lemma as_data_keys: "keys_ok (as_data m) \<longleftrightarrow> keys_ok m"
  by (simp add: keys_ok_def as_data_def comp_def split_def)

lemma encode_as_data: "kv \<in> set (as_data m) \<Longrightarrow> encode_val X (snd kv) \<noteq> None"
  by (auto simp: as_data_def encode_val_def)

lemma put_encoded_again:
  fixes X :: "('w, 'f) enrol_env"
  assumes "keys_ok d"
  shows "put_encoded X (as_data d) [] = Some d"
proof -
  have "put_encoded X (as_data d) [] \<noteq> None"
    unfolding put_encoded_None using encode_as_data by blast
  then obtain d' where d': "put_encoded X (as_data d) [] = Some d'" by blast
  have "map_of d' k = map_of d k" for k
    using put_encoded_of [OF d', of k] assms
    by (simp add: as_data_keys map_of_as_data encode_val_def split: option.split)
  then have "d' = d" using put_encoded_keys [OF d'] assms by (intro keys_ok_ext) auto
  with d' show ?thesis by simp
qed

lemma put_encoded_absorb:
  assumes "put_encoded X m acc = Some d" "keys_ok m" "keys_ok acc"
  shows "put_encoded X m d = Some d"
proof -
  have "put_encoded X m d \<noteq> None" using assms(1) put_encoded_None by (metis option.distinct(1))
  then obtain d' where d': "put_encoded X m d = Some d'" by blast
  have "map_of d' k = map_of d k" for k
    using put_encoded_of [OF d' assms(2), of k] put_encoded_of [OF assms(1,2), of k] by (simp split: option.splits)
  then have "d' = d" using put_encoded_keys [OF d'] put_encoded_keys [OF assms(1,3)] by (intro keys_ok_ext) auto
  with d' show ?thesis by simp
qed

lemma targetMatches_self:
  fixes X :: "('w, 'f) enrol_env"
  assumes "keys_ok d"
  shows "targetMatches X (as_data d) (as_data d)"
proof -
  have "map_of (as_data d) k = Some v" if "(k, v) \<in> set (as_data d)" for k and v :: "'f goval"
    using that assms keys_ok_map_of [of "as_data d :: 'f goval gomap"] by (simp add: as_data_keys)
  then show ?thesis by (auto simp: targetMatches_def list_all_iff)
qed

text \<open>What a run of the engine comes to.\<close>

lemma copy_run_Some:
  assumes "copy_run X st target w = Some creds" "target \<noteq> []"
  obtains incoming ex merged where "copy_incoming X st w = Some incoming" "ReadAt X (KVMountName X) target w = Some ex"
    "put_encoded X (case ex of None \<Rightarrow> [] | Some x \<Rightarrow> Data x) [] = Some merged" "put_encoded X incoming merged = Some creds"
  using assms by (auto simp: copy_run_def split: if_splits option.splits)

lemma copy_incoming_kept:
  assumes "put_laws X held" "copy_incoming X st w = Some incoming" "resolveSource X st = Some (m, p)" "held w' m p = held w m p"
  shows "copy_incoming X st w' = None \<or> copy_incoming X st w' = Some incoming"
proof -
  obtain src where r: "ReadAt X m p w = Some (Some src)"
    using assms(2,3) by (auto simp: copy_incoming_def Let_def split: if_splits option.splits)
  note held = put_laws_read [OF assms(1) r]
  show ?thesis
  proof (cases "ReadAt X m p w'")
    case None
    with assms(3) show ?thesis by (simp add: copy_incoming_def Let_def)
  next
    case (Some x)
    from put_laws_read [OF assms(1) Some] held assms(4) have "x = Some src" by simp
    with Some r assms(3) have "copy_incoming X st w' = copy_incoming X st w" by (simp add: copy_incoming_def Let_def)
    with assms(2) show ?thesis by simp
  qed
qed

definition json_laws :: "('w, 'f) enrol_env \<Rightarrow> bool" where
  "json_laws X \<longleftrightarrow> (\<forall>t m. UnmarshalMap X t = Some m \<longrightarrow> keys_ok m)"

lemma copy_incoming_keys: "json_laws X \<Longrightarrow> copy_incoming X st w = Some incoming \<Longrightarrow> keys_ok incoming"
  by (auto simp: copy_incoming_def json_laws_def Let_def split: if_splits option.splits)

lemma copy_run_again:
  assumes "put_laws X held" "json_laws X" "copy_run X st target w = Some creds" "target \<noteq> []"
    and "resolveSource X st = Some (m, p)" "held w' m p = held w m p"
    and "held w' (KVMountName X) target = Some x" "Data x = as_data creds"
  shows "copy_run X st target w' = None \<or> copy_run X st target w' = Some creds"
proof (rule copy_run_Some [OF assms(3,4)])
  fix incoming ex merged
  assume r: "copy_incoming X st w = Some incoming" "ReadAt X (KVMountName X) target w = Some ex"
    "put_encoded X (case ex of None \<Rightarrow> [] | Some x \<Rightarrow> Data x) [] = Some merged" "put_encoded X incoming merged = Some creds"
  note inc = copy_incoming_kept [OF assms(1) r(1) assms(5,6)]
  have km: "keys_ok merged" by (rule put_encoded_keys [OF r(3)]) simp
  have kc: "keys_ok creds" by (rule put_encoded_keys [OF r(4) km])
  have abs: "put_encoded X incoming creds = Some creds"
    by (rule put_encoded_absorb [OF r(4) copy_incoming_keys [OF assms(2) r(1)] km])
  show ?thesis
  proof (cases "copy_incoming X st w' = None \<or> ReadAt X (KVMountName X) target w' = None")
    case True
    with assms(4) show ?thesis by (auto simp: copy_run_def split: option.splits)
  next
    case False
    then obtain y where y: "ReadAt X (KVMountName X) target w' = Some y" by auto
    from put_laws_read [OF assms(1) y] assms(7,8) have "y = Some x" by simp
    moreover have "\<not> (Username X = [] \<or> target \<noteq> [] \<and> KVMountName X = [])" using assms(3) by (auto simp: copy_run_def)
    ultimately show ?thesis using False inc y assms(4,8) put_encoded_again [OF kc, of X] abs
      by (auto simp: copy_run_def)
  qed
qed

text \<open>What a tick that succeeds has done.\<close>

lemma tick_cases:
  assumes "tickOneWithEnrolment X c now key e (w, s) = (w', s')" "Engine e = ''copy''" "\<not> watch_inBackoff key now s"
    and "wBackoffs s' key = None" "OwnPrefix X @ key \<noteq> []"
  obtains (kept) creds x where "copy_run X (settings_of e) (OwnPrefix X @ key) w = Some creds"
      "ReadAt X (KVMountName X) (OwnPrefix X @ key) w = Some (Some x)" "targetMatches X (Data x) (as_data creds)" "w' = w"
  | (written) creds ex v where "copy_run X (settings_of e) (OwnPrefix X @ key) w = Some creds"
      "ReadAt X (KVMountName X) (OwnPrefix X @ key) w = Some ex"
      "PutKVv2 X (KVMountName X) (OwnPrefix X @ key) creds w = (Some v, w')"
proof -
  have bump: "wBackoffs (watch_bumpBackoff c now key s) key \<noteq> None" by (simp add: watch_bumpBackoff_def Let_def)
  show thesis
  proof (cases "copy_run X (settings_of e) (OwnPrefix X @ key) w")
    case None
    with assms(1-4) bump show thesis by (auto simp: tickOneWithEnrolment_def)
  next
    case (Some creds)
    show thesis
    proof (cases "ReadAt X (KVMountName X) (OwnPrefix X @ key) w")
      case None
      with Some assms(1-4) bump show thesis by (auto simp: tickOneWithEnrolment_def split: if_splits)
    next
      case (Some ex)
      note run = \<open>copy_run X (settings_of e) (OwnPrefix X @ key) w = Some creds\<close>
      obtain r w1 where put: "PutKVv2 X (KVMountName X) (OwnPrefix X @ key) creds w = (r, w1)" by fastforce
      show thesis
      proof (cases "\<exists>x. ex = Some x \<and> targetMatches X (Data x) (as_data creds)")
        case True
        then obtain x where x: "ex = Some x" "targetMatches X (Data x) (as_data creds)" by blast
        with Some run assms(1-4) bump have "w' = w" by (auto simp: tickOneWithEnrolment_def split: if_splits)
        with kept run Some x show thesis by blast
      next
        case False
        with Some run put assms(1-4) bump have "w' = w1 \<and> r \<noteq> None"
          by (cases ex) (auto simp: tickOneWithEnrolment_def split: if_splits option.splits)
        then obtain v where "PutKVv2 X (KVMountName X) (OwnPrefix X @ key) creds w = (Some v, w')" using put by blast
        with written run Some show thesis by blast
      qed
    qed
  qed
qed

text \<open>A tick writes nothing where its run gives what is held already.\<close>

lemma tick_quiet:
  assumes "put_laws X held" "OwnPrefix X @ key \<noteq> []" "Engine e = ''copy''"
    and "copy_run X (settings_of e) (OwnPrefix X @ key) w = None
       \<or> (\<exists>creds x. copy_run X (settings_of e) (OwnPrefix X @ key) w = Some creds
            \<and> held w (KVMountName X) (OwnPrefix X @ key) = Some x \<and> targetMatches X (Data x) (as_data creds))"
  shows "fst (tickOneWithEnrolment X c now key e (w, s)) = w"
  using assms(4)
proof
  assume "copy_run X (settings_of e) (OwnPrefix X @ key) w = None"
  then show ?thesis by (simp add: tickOneWithEnrolment_def)
next
  assume "\<exists>creds x. copy_run X (settings_of e) (OwnPrefix X @ key) w = Some creds
            \<and> held w (KVMountName X) (OwnPrefix X @ key) = Some x \<and> targetMatches X (Data x) (as_data creds)"
  then obtain creds x where r: "copy_run X (settings_of e) (OwnPrefix X @ key) w = Some creds"
    "held w (KVMountName X) (OwnPrefix X @ key) = Some x" "targetMatches X (Data x) (as_data creds)" by blast
  show ?thesis
  proof (cases "ReadAt X (KVMountName X) (OwnPrefix X @ key) w")
    case None
    with r(1) show ?thesis by (simp add: tickOneWithEnrolment_def)
  next
    case (Some ex)
    with put_laws_read [OF assms(1) Some] r show ?thesis by (simp add: tickOneWithEnrolment_def)
  qed
qed

lemma value_text_GStr [simp]: "value_text X (GStr s) = s"
  by (simp add: value_text_def)

lemma targetMatches_get:
  assumes "targetMatches X d (as_data creds)" "keys_ok creds" "map_of creds k = Some t"
  shows "\<exists>v. map_of d k = Some v \<and> value_text X v = t"
proof -
  have "(k, GStr t) \<in> set (as_data creds)" using assms(2,3) by (auto simp: as_data_def keys_ok_map_of [symmetric])
  with assms(1) show ?thesis by (auto simp: targetMatches_def list_all_iff split: option.splits) force
qed

text \<open>The target has every incoming value, as its text, and keeps every other key.\<close>

definition copied :: "('w, 'f) enrol_env \<Rightarrow> (string \<times> 'f goval) list \<Rightarrow> 'f vsecret option \<Rightarrow> (string \<times> 'f goval) list \<Rightarrow> bool" where
  "copied X incoming old new \<longleftrightarrow>
     (\<forall>k v. map_of incoming k = Some v \<longrightarrow> (\<exists>v'. map_of new k = Some v' \<and> encode_val X v = Some (value_text X v')))
   \<and> (\<forall>k x v. map_of incoming k = None \<longrightarrow> old = Some x \<longrightarrow> map_of (Data x) k = Some v
        \<longrightarrow> (\<exists>v'. map_of new k = Some v' \<and> (v' = v \<or> encode_val X v = Some (value_text X v'))))"

section \<open>Triggers\<close>

datatype 'f wop = WEvent string | WTake | WReload "string \<Rightarrow> 'f enrolment option"

fun wop_step :: "wsettings \<Rightarrow> 'f wm \<Rightarrow> 'f wop \<Rightarrow> 'f wm" where
  "wop_step c s (WEvent k) = enqueueTrigger c k s"
| "wop_step c s WTake = (case take_trigger s of None \<Rightarrow> s | Some (_, s') \<Rightarrow> s')"
| "wop_step c s (WReload es) = watch_UpdateConfig es s"

text \<open>No enrolment is added or removed.\<close>

fun same_keys :: "string set \<Rightarrow> 'f wop \<Rightarrow> bool" where
  "same_keys K (WEvent k) \<longleftrightarrow> k \<in> K"
| "same_keys K WTake \<longleftrightarrow> True"
| "same_keys K (WReload es) \<longleftrightarrow> dom es = K"

definition triggers_ok :: "string set \<Rightarrow> 'f wm \<Rightarrow> bool" where
  "triggers_ok K s \<longleftrightarrow> distinct (triggers s) \<and> wPending s = set (triggers s) \<and> set (triggers s) \<subseteq> K"

lemma triggers_ok_step:
  "triggers_ok K s \<Longrightarrow> same_keys K op \<Longrightarrow> triggers_ok K (wop_step c s op)"
  by (cases op) (auto simp: triggers_ok_def enqueueTrigger_def take_trigger_def watch_UpdateConfig_def dom_def split: list.splits)

lemma triggers_ok_run:
  "triggers_ok K s \<Longrightarrow> list_all (same_keys K) ops \<Longrightarrow> triggers_ok K (foldl (wop_step c) s ops)"
  by (induction ops arbitrary: s) (auto intro: triggers_ok_step)

text \<open>
  An enrolment that is taken away and added again while its trigger waits is queued twice:
  its mark is dropped, its slot is not. Sixteen reloads of that kind fill the buffer and the
  event of another enrolment is lost.
\<close>

definition readd_round :: "'f enrolment \<Rightarrow> 'f wop list" where
  "readd_round e = [WEvent ''a'', WReload [''b'' \<mapsto> e], WReload [''a'' \<mapsto> e, ''b'' \<mapsto> e]]"

lemma readd_rounds:
  "n \<le> triggerCap c \<Longrightarrow> wPending s = {} \<Longrightarrow> triggers s = []
    \<Longrightarrow> wPending (foldl (wop_step c) s (concat (replicate n (readd_round e)))) = {}
      \<and> triggers (foldl (wop_step c) s (concat (replicate n (readd_round e)))) = replicate n ''a''"
proof (induction n)
  case (Suc n)
  have "concat (replicate (Suc n) (readd_round e)) = concat (replicate n (readd_round e)) @ readd_round e"
    by (induction n) auto
  with Suc show ?case
    by (simp add: readd_round_def enqueueTrigger_def watch_UpdateConfig_def replicate_append_same del: replicate_Suc)
      (simp add: replicate_append_same)
qed simp

lemma readded_enrolment_fills_buffer:
  fixes e :: "'f enrolment"
  assumes "NewWatchManager [''a'' \<mapsto> e, ''b'' \<mapsto> e] 0 = (c, s0)"
    and "s = enqueueTrigger c ''b'' (foldl (wop_step c) s0 (concat (replicate 16 (readd_round e))))"
  shows "''b'' \<notin> set (triggers s) \<and> ''b'' \<notin> wPending s"
proof -
  have "triggerCap c = 16" "wPending s0 = {}" "triggers s0 = []"
    using assms(1) by (auto simp: NewWatchManager_def watchTriggerBufSize_def card_insert_if)
  with readd_rounds [of 16 c s0 e] show ?thesis by (simp add: assms(2) enqueueTrigger_def)
qed

text \<open>
  The copy engine reads the target, merges and writes the whole of it: what another writer puts
  there in between is lost.
\<close>

lemma copy_overwrites_concurrent_key:
  fixes X :: "('w, 'f) enrol_env"
  assumes "put_laws X held" "copy_run X st (OwnPrefix X @ key) w = Some creds" "map_of creds k = None" "keys_ok creds"
    and "PutKVv2 X (KVMountName X) (OwnPrefix X @ key) creds other = (Some v, w')"
  shows "\<exists>x. held w' (KVMountName X) (OwnPrefix X @ key) = Some x \<and> map_of (Data x) k = None"
  using put_laws_put [OF assms(1,5)] assms(3) by (auto simp: put_done_def map_of_as_data)

section \<open>A vault to try them on\<close>

definition copy_demo :: "(string \<Rightarrow> string \<Rightarrow> nat vsecret option, nat) enrol_env" where
  "copy_demo =
     \<lparr>ReadAt = (\<lambda>m p w. Some (w m p)),
      PutKVv2 = (\<lambda>m p d w. (Some 1, w(m := (w m)(p \<mapsto> \<lparr>Data = as_data d, Version = 1, CreatedTime = 0\<rparr>)))),
      RunEngine = (\<lambda>_ _ w. (None, w)), StaticFields = (\<lambda>_ _. []), Render = (\<lambda>t _. Some t),
      UnmarshalMap = (\<lambda>t. if t = ''T'' then Some [(''token'', GStr ''abc'')] else None),
      MarshalVal = (\<lambda>_. None), Sprint = (\<lambda>_. []), KVMountName = ''kv'', OwnPrefix = ''users/u/'', Username = ''u''\<rparr>"

definition copy_enrolment :: "nat enrolment" where
  "copy_enrolment = \<lparr>Engine = ''copy'',
     Settings = Some [(''template'', GStr ''T''), (''from'', GObj [(''mount'', GStr ''shared''), (''path'', GStr ''team/x'')])],
     HelpText = []\<rparr>"

definition copy_vault :: "string \<Rightarrow> string \<Rightarrow> nat vsecret option" where
  "copy_vault m p =
     (if m = ''shared'' \<and> p = ''team/x'' then Some \<lparr>Data = [(''k'', GStr ''abc'')], Version = 3, CreatedTime = 0\<rparr> else None)"

lemma copy_demo_laws: "put_laws copy_demo id" "json_laws copy_demo"
  by (auto simp: put_laws_def json_laws_def copy_demo_def put_done_def keys_ok_def)

lemma demo_texts: "trim_space ''T'' = ''T''" "trim_space ''abc'' = ''abc''"
  by (code_simp, code_simp)

section \<open>Properties\<close>







end
