(* ===== verification/Spec2Isabelle.thy ===== *)
theory Spec2Isabelle
  imports KVPath Sync SSHManager SSHRemoteRun SSHForward EventStream Relay VaultFiles TokenLifecycle ConfigValidate SecretEdit EnrolWatch
begin

text \<open>
  A verification library for dotvault, a daemon that renders secrets of a Vault server
  into configuration files.
\<close>

end
